(* ===== verification/Prelude.thy ===== *)
theory Prelude
  imports Main "HOL-Library.Word"
begin

unbundle bit_operations_syntax

text \<open>
  The shared vocabulary of the development: machine words and octet strings, the
  three-valued result of a C routine that reads and writes buffers, big-endian loads,
  ASCII case folding, and a locale for transition systems with an invariant.
\<close>

section \<open>Machine types\<close>

type_synonym u8 = "8 word"
type_synonym u16 = "16 word"
type_synonym u32 = "32 word"
type_synonym u64 = "64 word"

text \<open>
  A buffer of octets.  A C string is the list of its octets before the terminating NUL:
  reading one position past the end of the list is reading the NUL.
\<close>

type_synonym bytes = "u8 list"

named_theorems wire_simps \<open>big-endian loads and octet arithmetic\<close>
named_theorems fold_simps \<open>ASCII case folding\<close>

section \<open>Results of buffer routines\<close>

text \<open>
  \<open>Ok x\<close> is a successful return, \<open>Error\<close> the error return of the C function (\<open>-1\<close> or
  \<open>(size_t)-1\<close>), and \<open>Fault\<close> an access outside a buffer, which no C program may do.
  Every octet a routine reads or writes goes through \<open>rd8\<close> or \<open>wr8\<close>, so that
  ``the routine never returns \<open>Fault\<close>'' is memory safety of its buffer accesses.
\<close>

datatype 'a result = Ok 'a | Error | Fault

definition rd8 :: "bytes \<Rightarrow> nat \<Rightarrow> (u8 \<Rightarrow> 'a result) \<Rightarrow> 'a result" where
  "rd8 buf i k = (if i < length buf then k (buf ! i) else Fault)"

definition wr8 :: "nat \<Rightarrow> bytes \<Rightarrow> u8 \<Rightarrow> (bytes \<Rightarrow> 'a result) \<Rightarrow> 'a result" where
  "wr8 cap out b k = (if length out < cap then k (out @ [b]) else Fault)"

fun bind_result :: "'a result \<Rightarrow> ('a \<Rightarrow> 'b result) \<Rightarrow> 'b result" where
  "bind_result (Ok x) k = k x"
| "bind_result Error k = Error"
| "bind_result Fault k = Fault"

fun is_ok :: "'a result \<Rightarrow> bool" where
  "is_ok (Ok x) = True"
| "is_ok Error = False"
| "is_ok Fault = False"

lemma rd8_cong [fundef_cong]:
  "buf = buf' \<Longrightarrow> i = i' \<Longrightarrow> (i' < length buf' \<Longrightarrow> k (buf' ! i') = k' (buf' ! i'))
    \<Longrightarrow> rd8 buf i k = rd8 buf' i' k'"
  by (simp add: rd8_def)

lemma wr8_cong [fundef_cong]:
  "cap = cap' \<Longrightarrow> out = out' \<Longrightarrow> b = b' \<Longrightarrow>
    (length out' < cap' \<Longrightarrow> k (out' @ [b']) = k' (out' @ [b'])) \<Longrightarrow> wr8 cap out b k = wr8 cap' out' b' k'"
  by (simp add: wr8_def)

lemma bind_result_cong [fundef_cong]:
  "r = r' \<Longrightarrow> (\<And>x. r' = Ok x \<Longrightarrow> k x = k' x) \<Longrightarrow> bind_result r k = bind_result r' k'"
  by (cases r') auto

lemma rd8_in [simp]: "i < length buf \<Longrightarrow> rd8 buf i k = k (buf ! i)"
  by (simp add: rd8_def)

lemma wr8_in [simp]: "length out < cap \<Longrightarrow> wr8 cap out b k = k (out @ [b])"
  by (simp add: wr8_def)

lemma rd8_eq_Ok: "rd8 buf i k = Ok x \<longleftrightarrow> i < length buf \<and> k (buf ! i) = Ok x"
  by (simp add: rd8_def)

lemma wr8_eq_Ok: "wr8 cap out b k = Ok x \<longleftrightarrow> length out < cap \<and> k (out @ [b]) = Ok x"
  by (simp add: wr8_def)

lemma bind_result_eq_Ok: "bind_result r k = Ok y \<longleftrightarrow> (\<exists>x. r = Ok x \<and> k x = Ok y)"
  by (cases r) auto

lemma bind_result_eq_Fault: "bind_result r k = Fault \<longleftrightarrow> r = Fault \<or> (\<exists>x. r = Ok x \<and> k x = Fault)"
  by (cases r) auto

lemma is_ok_iff: "is_ok r \<longleftrightarrow> (\<exists>x. r = Ok x)"
  by (cases r) auto

section \<open>Big-endian loads and stores\<close>

definition be16 :: "u8 \<Rightarrow> u8 \<Rightarrow> u16" where
  "be16 hi lo = push_bit 8 (ucast hi) OR ucast lo"

definition be32 :: "u8 \<Rightarrow> u8 \<Rightarrow> u8 \<Rightarrow> u8 \<Rightarrow> u32" where
  "be32 a b c d =
     push_bit 24 (ucast a) OR push_bit 16 (ucast b) OR push_bit 8 (ucast c) OR ucast d"

definition rd16 :: "bytes \<Rightarrow> nat \<Rightarrow> (u16 \<Rightarrow> 'a result) \<Rightarrow> 'a result" where
  "rd16 buf i k = rd8 buf i (\<lambda>hi. rd8 buf (i + 1) (\<lambda>lo. k (be16 hi lo)))"

definition put16 :: "u16 \<Rightarrow> bytes" where
  "put16 x = [ucast (drop_bit 8 x), ucast x]"

definition put32 :: "u32 \<Rightarrow> bytes" where
  "put32 x = [ucast (drop_bit 24 x), ucast (drop_bit 16 x), ucast (drop_bit 8 x), ucast x]"

lemma rd16_in [simp]: "i + 1 < length buf \<Longrightarrow> rd16 buf i k = k (be16 (buf ! i) (buf ! (i + 1)))"
  by (simp add: rd16_def)

lemma u8_less_256 [simp]: "unat (b :: u8) < 256"
  using unsigned_less[of b] by simp

lemma bit_u8_ge: "8 \<le> n \<Longrightarrow> \<not> bit (b :: u8) n"
  by (auto dest: bit_imp_le_length)

lemma u16_less_65536 [simp]: "unat (x :: u16) < 65536"
  using unsigned_less[of x] by simp

lemma unat_be16 [wire_simps]: "unat (be16 hi lo) = unat hi * 256 + unat lo"
proof -
  have "push_bit 8 (ucast hi :: u16) AND ucast lo = 0"
    by (rule bit_eqI) (auto simp: bit_simps dest: bit_imp_le_length)
  then have "be16 hi lo = push_bit 8 (ucast hi) + ucast lo"
    by (simp add: be16_def disjunctive_add_eq_or)
  also have "\<dots> = ucast hi * 256 + ucast lo"
    by (simp add: push_bit_eq_mult)
  finally have "unat (be16 hi lo) = (unat hi * 256 + unat lo) mod 65536"
    by (simp add: unat_word_ariths unsigned_ucast_eq take_bit_eq_mod mod_simps)
  moreover have "unat hi * 256 + unat lo < 65536"
    using u8_less_256[of hi] u8_less_256[of lo] by linarith
  ultimately show ?thesis by simp
qed

lemma be16_put16 [wire_simps]:
  "be16 (ucast (drop_bit 8 x)) (ucast x) = x"
  by (rule bit_eqI) (auto simp: be16_def bit_simps)

lemma be32_put32 [wire_simps]:
  "be32 (ucast (drop_bit 24 x)) (ucast (drop_bit 16 x)) (ucast (drop_bit 8 x)) (ucast x) = x"
proof (rule bit_word_eqI)
  fix n assume "n < LENGTH(32)"
  then consider "n < 8" | "8 \<le> n" "n < 16" | "16 \<le> n" "n < 24" | "24 \<le> n" "n < 32"
    by fastforce
  then show "bit (be32 (ucast (drop_bit 24 x)) (ucast (drop_bit 16 x)) (ucast (drop_bit 8 x)) (ucast x)) n
      = bit x n"
    by cases (auto simp: be32_def bit_simps)
qed

section \<open>ASCII\<close>

abbreviation DOT :: u8 where "DOT \<equiv> 0x2E"
abbreviation BSL :: u8 where "BSL \<equiv> 0x5C"

definition is_upper :: "u8 \<Rightarrow> bool" where
  "is_upper c \<longleftrightarrow> 0x41 \<le> c \<and> c \<le> 0x5A"

definition is_digit8 :: "u8 \<Rightarrow> bool" where
  "is_digit8 c \<longleftrightarrow> 0x30 \<le> c \<and> c \<le> 0x39"

text \<open>\<open>if (c >= 'A' && c <= 'Z') c |= 0x20;\<close>\<close>

definition lower8 :: "u8 \<Rightarrow> u8" where
  "lower8 c = (if is_upper c then c OR 0x20 else c)"

text \<open>The octets of an ASCII literal of the source.\<close>

definition ascii :: "string \<Rightarrow> bytes" where
  "ascii s = map of_char s"

text \<open>\<open>strcasecmp(a, b) == 0\<close> in the C locale.\<close>

definition strcaseeq :: "bytes \<Rightarrow> bytes \<Rightarrow> bool" where
  "strcaseeq a b \<longleftrightarrow> map lower8 a = map lower8 b"

text \<open>An upper-case letter is one of 26 octets.\<close>

lemma is_upper_cases: "is_upper c \<longleftrightarrow> c \<in> set (map word_of_nat [65..<91])"
proof -
  have "is_upper c \<longleftrightarrow> 65 \<le> unat c \<and> unat c < 91"
    by (simp add: is_upper_def word_le_nat_alt, linarith)
  also have "\<dots> \<longleftrightarrow> c \<in> word_of_nat ` {65..<91}"
    by (auto simp: image_iff unat_of_nat intro!: bexI[of _ "unat c"])
  finally show ?thesis by (simp only: set_map set_upt)
qed

lemma lower8_upper: "\<forall>c \<in> set (map word_of_nat [65..<91]). let d = c OR 0x20 in
    \<not> is_upper d \<and> d \<noteq> 0 \<and> d \<noteq> DOT \<and> d \<noteq> BSL \<and> c \<noteq> 0 \<and> c \<noteq> DOT \<and> c \<noteq> BSL \<and> 0x61 \<le> d \<and> d \<le> 0x7A"
  by (simp add: upt_rec is_upper_def)

lemmas lower8_upper_facts = lower8_upper[rule_format, folded is_upper_cases, unfolded Let_def]

lemma lower8_idem [simp, fold_simps]: "lower8 (lower8 c) = lower8 c"
  using lower8_upper_facts[of c] by (auto simp: lower8_def)

lemma lower8_eq_0 [simp, fold_simps]: "lower8 c = 0 \<longleftrightarrow> c = 0"
  using lower8_upper_facts[of c] by (auto simp: lower8_def)

lemma lower8_eq_DOT [simp, fold_simps]: "lower8 c = DOT \<longleftrightarrow> c = DOT"
  using lower8_upper_facts[of c] by (auto simp: lower8_def)

lemma lower8_eq_BSL [simp, fold_simps]: "lower8 c = BSL \<longleftrightarrow> c = BSL"
  using lower8_upper_facts[of c] by (auto simp: lower8_def)

lemma strcaseeq_refl [simp]: "strcaseeq a a"
  by (simp add: strcaseeq_def)

lemma strcaseeq_sym: "strcaseeq a b \<Longrightarrow> strcaseeq b a"
  by (simp add: strcaseeq_def)

lemma strcaseeq_trans: "strcaseeq a b \<Longrightarrow> strcaseeq b c \<Longrightarrow> strcaseeq a c"
  by (simp add: strcaseeq_def)

lemma strcaseeq_length: "strcaseeq a b \<Longrightarrow> length a = length b"
  by (auto simp: strcaseeq_def dest: map_eq_imp_length_eq)

section \<open>Lists\<close>

lemma take_Suc_nth [simp]: "i < length xs \<Longrightarrow> take i xs @ [xs ! i] = take (Suc i) xs"
  by (simp add: take_Suc_conv_app_nth)

lemma take_drop_cons: "i < length xs \<Longrightarrow> drop i xs = xs ! i # drop (Suc i) xs"
  by (simp add: Cons_nth_drop_Suc)

section \<open>Transition systems with an invariant\<close>

text \<open>
  A component with state is an initial-state predicate and a step relation.  Its contract
  is an invariant that holds initially and that every step keeps; every reachable state
  then satisfies it.
\<close>

inductive reach :: "('s \<Rightarrow> bool) \<Rightarrow> ('s \<Rightarrow> 's \<Rightarrow> bool) \<Rightarrow> 's \<Rightarrow> bool"
  for init :: "'s \<Rightarrow> bool" and step :: "'s \<Rightarrow> 's \<Rightarrow> bool" where
  reach_init: "init s \<Longrightarrow> reach init step s"
| reach_step: "reach init step s \<Longrightarrow> step s t \<Longrightarrow> reach init step t"

locale invariant_system =
  fixes init :: "'s \<Rightarrow> bool"
    and step :: "'s \<Rightarrow> 's \<Rightarrow> bool"
    and inv :: "'s \<Rightarrow> bool"
  assumes inv_init: "init s \<Longrightarrow> inv s"
    and inv_step: "inv s \<Longrightarrow> step s t \<Longrightarrow> inv t"
begin

lemma reach_inv: "reach init step s \<Longrightarrow> inv s"
  by (induction rule: reach.induct) (auto intro: inv_init inv_step)

lemma reach_inv_step: "reach init step s \<Longrightarrow> step s t \<Longrightarrow> inv s \<and> inv t"
  by (auto intro: reach_inv inv_step)

end

end
