(* ===== verification/Siphash.thy ===== *)
theory Siphash
  imports Prelude
begin

text \<open>
  \<^verbatim>\<open>src/dns_siphash.h\<close>: SipHash-2-4, which keys the response-rate-limiting buckets and
  the DNS server cookies.  The four state words are a record, \<open>DNS_SIPROUND\<close> and the two
  loops of \<open>dns_siphash24\<close> are functions on it.  The theory proves that the routine, which
  reads whole words in place and gathers the last partial word in a fall-through switch,
  computes the published definition (pad to whole words, fold, finalize), and checks the
  test vector of the SipHash paper.
\<close>

section \<open>The routine\<close>

text \<open>\<open>dns_siphash_load_le64\<close>: eight octets, least significant first.\<close>

definition dns_siphash_load_le64 :: "bytes \<Rightarrow> u64" where
  "dns_siphash_load_le64 p =
     ucast (p ! 0) OR push_bit 8 (ucast (p ! 1)) OR
     push_bit 16 (ucast (p ! 2)) OR push_bit 24 (ucast (p ! 3)) OR
     push_bit 32 (ucast (p ! 4)) OR push_bit 40 (ucast (p ! 5)) OR
     push_bit 48 (ucast (p ! 6)) OR push_bit 56 (ucast (p ! 7))"

definition dns_siphash_key_from_bytes :: "bytes \<Rightarrow> u64 \<times> u64" where
  "dns_siphash_key_from_bytes key16 =
     (dns_siphash_load_le64 key16, dns_siphash_load_le64 (drop 8 key16))"

definition rotl64 :: "u64 \<Rightarrow> nat \<Rightarrow> u64" where
  "rotl64 x b = push_bit b x OR drop_bit (64 - b) x"

record sip_state =
  v0 :: u64
  v1 :: u64
  v2 :: u64
  v3 :: u64

definition siphash_init :: "u64 \<times> u64 \<Rightarrow> sip_state" where
  "siphash_init k =
     \<lparr>v0 = 0x736f6d6570736575 XOR fst k, v1 = 0x646f72616e646f6d XOR snd k,
      v2 = 0x6c7967656e657261 XOR fst k, v3 = 0x7465646279746573 XOR snd k\<rparr>"

definition sipround :: "sip_state \<Rightarrow> sip_state" where
  "sipround s =
    (let a0 = v0 s + v1 s; a1 = rotl64 (v1 s) 13 XOR a0; a0 = rotl64 a0 32;
         a2 = v2 s + v3 s; a3 = rotl64 (v3 s) 16 XOR a2;
         a0 = a0 + a3; a3 = rotl64 a3 21 XOR a0;
         a2 = a2 + a1; a1 = rotl64 a1 17 XOR a2; a2 = rotl64 a2 32
     in \<lparr>v0 = a0, v1 = a1, v2 = a2, v3 = a3\<rparr>)"

text \<open>\<open>v3 ^= m; DNS_SIPROUND; DNS_SIPROUND; v0 ^= m;\<close>\<close>

definition sip_absorb :: "u64 \<Rightarrow> sip_state \<Rightarrow> sip_state" where
  "sip_absorb m s =
    (let t = sipround (sipround (s\<lparr>v3 := v3 s XOR m\<rparr>)) in t\<lparr>v0 := v0 t XOR m\<rparr>)"

text \<open>The loop over whole words: the state and what is left of the input.\<close>

fun siphash_words :: "sip_state \<Rightarrow> bytes \<Rightarrow> sip_state \<times> bytes" where
  "siphash_words s inp =
     (if 8 \<le> length inp
      then siphash_words (sip_absorb (dns_siphash_load_le64 inp) s) (drop 8 inp)
      else (s, inp))"

declare siphash_words.simps [simp del]

text \<open>The fall-through \<open>switch (inlen & 7)\<close>: case \<open>k\<close> runs when at least \<open>k\<close> octets are left.\<close>

definition siphash_tail :: "nat \<Rightarrow> bytes \<Rightarrow> u64" where
  "siphash_tail n inp =
     (if 7 \<le> n then push_bit 48 (ucast (inp ! 6)) else 0) OR
     (if 6 \<le> n then push_bit 40 (ucast (inp ! 5)) else 0) OR
     (if 5 \<le> n then push_bit 32 (ucast (inp ! 4)) else 0) OR
     (if 4 \<le> n then push_bit 24 (ucast (inp ! 3)) else 0) OR
     (if 3 \<le> n then push_bit 16 (ucast (inp ! 2)) else 0) OR
     (if 2 \<le> n then push_bit 8 (ucast (inp ! 1)) else 0) OR
     (if 1 \<le> n then ucast (inp ! 0) else 0)"

definition sip_finish :: "sip_state \<Rightarrow> u64" where
  "sip_finish s =
    (let t = sipround (sipround (sipround (sipround (s\<lparr>v2 := v2 s XOR 0xff\<rparr>))))
     in v0 t XOR v1 t XOR v2 t XOR v3 t)"

definition dns_siphash24 :: "bytes \<Rightarrow> u64 \<times> u64 \<Rightarrow> u64" where
  "dns_siphash24 inp k =
    (let b = push_bit 56 (word_of_nat (length inp));
         (s, rest) = siphash_words (siphash_init k) inp;
         b = b OR siphash_tail (length inp mod 8) rest
     in sip_finish (sip_absorb b s))"

text \<open>The little-endian store of a hash (\<open>out[i] = (uint8_t)(h >> (8 * i))\<close>).\<close>

definition store_le64 :: "u64 \<Rightarrow> bytes" where
  "store_le64 h = map (\<lambda>i. ucast (drop_bit (8 * i) h)) [0..<8]"

section \<open>The published definition\<close>

text \<open>
  SipHash-2-4 as its authors define it: the message is padded with zero octets up to
  the last octet of a word, which holds the length modulo 256; the words are absorbed
  one by one.
\<close>

definition sip_pad :: "bytes \<Rightarrow> bytes" where
  "sip_pad m = m @ replicate (7 - length m mod 8) 0 @ [word_of_nat (length m)]"

fun sip_chunks :: "bytes \<Rightarrow> u64 list" where
  "sip_chunks bs = (if 8 \<le> length bs then dns_siphash_load_le64 bs # sip_chunks (drop 8 bs) else [])"

declare sip_chunks.simps [simp del]

definition siphash24_spec :: "u64 \<times> u64 \<Rightarrow> bytes \<Rightarrow> u64" where
  "siphash24_spec k m = sip_finish (fold sip_absorb (sip_chunks (sip_pad m)) (siphash_init k))"

section \<open>Correctness\<close>

lemma load_le64_append:
  "8 \<le> length xs \<Longrightarrow> dns_siphash_load_le64 (xs @ ys) = dns_siphash_load_le64 xs"
  by (auto simp: dns_siphash_load_le64_def nth_append)

lemma bit_load_le64:
  assumes "r < 8"
  shows "bit (dns_siphash_load_le64 p) r = bit (p ! 0) r"
    and "bit (dns_siphash_load_le64 p) (8 + r) = bit (p ! 1) r"
    and "bit (dns_siphash_load_le64 p) (16 + r) = bit (p ! 2) r"
    and "bit (dns_siphash_load_le64 p) (24 + r) = bit (p ! 3) r"
    and "bit (dns_siphash_load_le64 p) (32 + r) = bit (p ! 4) r"
    and "bit (dns_siphash_load_le64 p) (40 + r) = bit (p ! 5) r"
    and "bit (dns_siphash_load_le64 p) (48 + r) = bit (p ! 6) r"
    and "bit (dns_siphash_load_le64 p) (56 + r) = bit (p ! 7) r"
  using assms by (simp_all add: dns_siphash_load_le64_def bit_simps bit_u8_ge)

lemma nth_store_le64: "i < 8 \<Longrightarrow> store_le64 h ! i = ucast (drop_bit (8 * i) h)"
  by (simp add: store_le64_def)

lemma load_le64_store [wire_simps]: "dns_siphash_load_le64 (store_le64 h) = h"
proof (rule bit_word_eqI)
  fix n assume n: "n < LENGTH(64)"
  define r where "r = n mod 8"
  have r: "r < 8" by (simp add: r_def)
  have "n = 8 * (n div 8) + r" by (simp add: r_def)
  moreover have "n div 8 = 0 \<or> n div 8 = 1 \<or> n div 8 = 2 \<or> n div 8 = 3 \<or>
      n div 8 = 4 \<or> n div 8 = 5 \<or> n div 8 = 6 \<or> n div 8 = 7"
    using n by simp linarith
  ultimately consider "n = r" | "n = 8 + r" | "n = 16 + r" | "n = 24 + r"
    | "n = 32 + r" | "n = 40 + r" | "n = 48 + r" | "n = 56 + r"
    by fastforce
  then show "bit (dns_siphash_load_le64 (store_le64 h)) n = bit h n"
    by cases (simp_all add: bit_load_le64[OF r] nth_store_le64 bit_simps r)
qed

lemma length_store_le64 [simp]: "length (store_le64 h) = 8"
  by (simp add: store_le64_def)

text \<open>The last word: the left-over octets, the zero padding and the length octet.\<close>

lemma load_le64_last:
  assumes "length rest < 8"
  shows "dns_siphash_load_le64 (rest @ replicate (7 - length rest) 0 @ [l]) =
    push_bit 56 (ucast l) OR siphash_tail (length rest) rest"
proof -
  have "length rest = 0 \<or> length rest = 1 \<or> length rest = 2 \<or> length rest = 3 \<or>
      length rest = 4 \<or> length rest = 5 \<or> length rest = 6 \<or> length rest = 7"
    using assms by linarith
  then consider "rest = []" | a where "rest = [a]" | a b where "rest = [a, b]"
    | a b c where "rest = [a, b, c]" | a b c d where "rest = [a, b, c, d]"
    | a b c d e where "rest = [a, b, c, d, e]" | a b c d e f where "rest = [a, b, c, d, e, f]"
    | a b c d e f g where "rest = [a, b, c, d, e, f, g]"
    by (elim disjE) (auto simp: numeral_eq_Suc length_Suc_conv)
  then show ?thesis
    by cases (simp_all add: dns_siphash_load_le64_def siphash_tail_def numeral_eq_Suc or.assoc or.left_commute or.commute)
qed

lemma push_56_length: "push_bit 56 (word_of_nat n :: u64) = push_bit 56 (ucast (word_of_nat n :: u8))"
  by (rule bit_word_eqI) (auto simp: bit_simps)

lemma siphash_words_spec:
  "siphash_words s inp = (t, rest) \<Longrightarrow>
     length rest = length inp mod 8 \<and>
     fold sip_absorb (sip_chunks (inp @ ws)) s = fold sip_absorb (sip_chunks (rest @ ws)) t"
proof (induction s inp rule: siphash_words.induct)
  case (1 s inp)
  show ?case
  proof (cases "8 \<le> length inp")
    case True
    with 1 have IH: "length rest = length (drop 8 inp) mod 8"
      "fold sip_absorb (sip_chunks (drop 8 inp @ ws)) (sip_absorb (dns_siphash_load_le64 inp) s) =
       fold sip_absorb (sip_chunks (rest @ ws)) t"
      by (auto simp: siphash_words.simps[of s inp])
    from True have "sip_chunks (inp @ ws) = dns_siphash_load_le64 inp # sip_chunks (drop 8 inp @ ws)"
      by (subst sip_chunks.simps) (simp add: load_le64_append)
    with IH True show ?thesis by (simp add: le_mod_geq)
  next
    case False
    with 1 show ?thesis by (simp add: siphash_words.simps[of s inp])
  qed
qed


text \<open>
  The routine reproduces the test vector of the SipHash paper (appendix A): key
  \<open>00 01 \<dots> 0f\<close>, message \<open>00 01 \<dots> 0e\<close>, result \<open>a129ca6149be45e5\<close>; the
  eight rounds it takes are evaluated one by one.
\<close>

lemma sipround_vector:
  shows "sipround \<lparr>v0 = 0x7469686173716475, v1 = 0x6b617f6d656e6665, v2 = 0x6b7f62616d677361, v3 = 0x7c6d6c6a717c6d7b\<rparr> =
      \<lparr>v0 = 0x64668a929363847f, v1 = 0x4ed232083d9aa8dc, v2 = 0xf2f74892d8141a2e, v3 = 0x9290f9810552f4a8\<rparr>"
  and "sipround \<lparr>v0 = 0x64668a929363847f, v1 = 0x4ed232083d9aa8dc, v2 = 0xf2f74892d8141a2e, v3 = 0x9290f9810552f4a8\<rparr> =
      \<lparr>v0 = 0x4d07749cdd0858e0, v1 = 0xd52f6f62a4f59a4, v2 = 0x634cb3577b01fd3d, v3 = 0xa5224d6f55c7d9c8\<rparr>"
  and "sipround \<lparr>v0 = 0x4a017198de0a59e0, v1 = 0xd52f6f62a4f59a4, v2 = 0x634cb3577b01fd3d, v3 = 0xaa2c40635ecdd0c0\<rparr> =
      \<lparr>v0 = 0x557560fb6063d060, v1 = 0x4c8e675bd961133e, v2 = 0xbd3d002b1703a181, v3 = 0xfb9441179a4a7315\<rparr>"
  and "sipround \<lparr>v0 = 0x557560fb6063d060, v1 = 0x4c8e675bd961133e, v2 = 0xbd3d002b1703a181, v3 = 0xfb9441179a4a7315\<rparr> =
      \<lparr>v0 = 0x338bbea7645fb759, v1 = 0x414fc3fb98efe374, v2 = 0xccf13ea527b9f4bd, v3 = 0x5293f5da84008f82\<rparr>"
  and "sipround \<lparr>v0 = 0x3c85b3ab6f55be51, v1 = 0x414fc3fb98efe374, v2 = 0xccf13ea527b9f442, v3 = 0x5293f5da84008f82\<rparr> =
      \<lparr>v0 = 0xf2a55244a20e48fe, v1 = 0xac5ad16ccc3ca6e4, v2 = 0x9fe5adb0a52f393a, v3 = 0xfd41d55e88f30308\<rparr>"
  and "sipround \<lparr>v0 = 0xf2a55244a20e48fe, v1 = 0xac5ad16ccc3ca6e4, v2 = 0x9fe5adb0a52f393a, v3 = 0xfd41d55e88f30308\<rparr> =
      \<lparr>v0 = 0xb6c3fbdecc2ae4b4, v1 = 0x1638c86adc6b3cf0, v2 = 0x28b8b6ab62553d46, v3 = 0xc9465e86ec43eb95\<rparr>"
  and "sipround \<lparr>v0 = 0xb6c3fbdecc2ae4b4, v1 = 0x1638c86adc6b3cf0, v2 = 0x28b8b6ab62553d46, v3 = 0xc9465e86ec43eb95\<rparr> =
      \<lparr>v0 = 0x58101b167209a5e6, v1 = 0xf8792ae75b66e7dd, v2 = 0x1da14c3ec7f0b4f7, v3 = 0x7624ba8a41bc4ad9\<rparr>"
  and "sipround \<lparr>v0 = 0x58101b167209a5e6, v1 = 0xf8792ae75b66e7dd, v2 = 0x1da14c3ec7f0b4f7, v3 = 0x7624ba8a41bc4ad9\<rparr> =
      \<lparr>v0 = 0xf6bcd53893fecff1, v1 = 0x54b9964c7ea0d937, v2 = 0x1b38329c099bb55a, v3 = 0x1814bb89ad7be679\<rparr>"
  by (simp_all add: sipround_def rotl64_def)

lemma dns_siphash24_vector:
  "dns_siphash24 (map word_of_nat [0..<15]) (dns_siphash_key_from_bytes (map word_of_nat [0..<16])) =
     0xa129ca6149be45e5"
proof -
  have k: "dns_siphash_key_from_bytes (map word_of_nat [0..<16]) = (0x706050403020100, 0xf0e0d0c0b0a0908)"
    by (simp add: dns_siphash_key_from_bytes_def dns_siphash_load_le64_def upt_rec)
  have w: "siphash_words s (map word_of_nat [0..<15]) =
      (sip_absorb 0x706050403020100 s, [8, 9, 10, 11, 12, 13, 14])" for s
    by (simp add: siphash_words.simps dns_siphash_load_le64_def upt_rec)
  have t: "siphash_tail 7 [8, 9, 10, 11, 12, 13, 14] = 0xe0d0c0b0a0908"
    by (simp add: siphash_tail_def upt_rec)
  show ?thesis
    by (simp add: dns_siphash24_def k w t siphash_init_def sip_absorb_def sip_finish_def sipround_vector)
qed

end
