(* ===== verification/Cidr.thy ===== *)
theory Cidr
  imports Prelude
begin

text \<open>
  \<^verbatim>\<open>src/dns_cidr.h\<close> and \<^verbatim>\<open>src/dns_cidr.c\<close>: parsed address prefixes and their matching,
  which the access lists, the rate limiter's exemptions and the client-subnet tags use.
  \<open>inet_pton\<close> is a parameter (\<open>pton4\<close>, \<open>pton6\<close>: the network-order octets, or \<open>None\<close>).
  The main result is that the mask arithmetic of the C code decides exactly whether the
  first \<open>prefix\<close> bits of the two addresses agree.
\<close>

section \<open>Types\<close>

datatype addr_family = AF_UNSPEC | AF_INET | AF_INET6

text \<open>\<open>addr\<close> and \<open>mask\<close> are the 16-octet arrays of the struct.\<close>

record cidr_entry_t =
  cvalid :: bool
  is_any :: bool
  cfamily :: addr_family
  cprefix :: nat
  caddr :: bytes
  cmask :: bytes

record acl_entry_t =
  acidr :: cidr_entry_t
  is_deny :: bool

definition cidr_zero :: cidr_entry_t where
  "cidr_zero = \<lparr>cvalid = False, is_any = False, cfamily = AF_UNSPEC, cprefix = 0,
     caddr = replicate 16 0, cmask = replicate 16 0\<rparr>"

datatype sockaddr = SA_INET bytes | SA_INET6 bytes | SA_OTHER

section \<open>The C library's decimal conversion\<close>

definition is_space8 :: "u8 \<Rightarrow> bool" where
  "is_space8 c \<longleftrightarrow> c = 0x20 \<or> 0x09 \<le> c \<and> c \<le> 0x0D"

definition digits_value :: "bytes \<Rightarrow> int" where
  "digits_value ds = foldl (\<lambda>acc d. acc * 10 + (int (unat d) - 48)) 0 ds"

text \<open>
  \<open>strtol(s, &endptr, 10)\<close>: the value, saturated to the 64-bit \<open>long\<close>, and the string at
  \<open>endptr\<close>; \<open>None\<close> when no digit was read (\<open>endptr == s\<close>).
\<close>

definition strtol10 :: "bytes \<Rightarrow> (int \<times> bytes) option" where
  "strtol10 s =
    (let t = dropWhile is_space8 s;
         neg = (t \<noteq> [] \<and> hd t = 0x2D);
         u = (if t \<noteq> [] \<and> (hd t = 0x2D \<or> hd t = 0x2B) then tl t else t);
         ds = takeWhile is_digit8 u;
         v = digits_value ds
     in if ds = [] then None
        else Some (if neg then max (- v) (- (2 ^ 63)) else min v (2 ^ 63 - 1), dropWhile is_digit8 u))"

section \<open>Operations\<close>

definition mask_octet :: "int \<Rightarrow> u8" where
  "mask_octet bits =
    (if 8 \<le> bits then 0xFF
     else if 0 < bits then push_bit (nat (8 - bits)) 0xFF
     else 0)"

text \<open>\<open>memset(mask, 0, 16)\<close>, then one octet per address octet.\<close>

definition compute_mask :: "nat \<Rightarrow> nat \<Rightarrow> bytes" where
  "compute_mask prefix total_bytes =
     map (\<lambda>i. if i < total_bytes then mask_octet (int prefix - int i * 8) else 0) [0..<16]"

text \<open>\<open>memcpy(entry->addr, ...)\<close> of \<open>n\<close> octets into the zeroed array.\<close>

definition addr16 :: "bytes \<Rightarrow> bytes" where
  "addr16 a = a @ replicate (16 - length a) 0"

definition cidr_set :: "addr_family \<Rightarrow> nat \<Rightarrow> bytes \<Rightarrow> nat \<Rightarrow> cidr_entry_t" where
  "cidr_set af prefix a n =
     \<lparr>cvalid = True, is_any = False, cfamily = af, cprefix = prefix,
      caddr = addr16 a, cmask = compute_mask prefix n\<rparr>"

text \<open>
  The prefix length after the slash: \<open>Inl ()\<close> is the rejecting return, \<open>Inr None\<close> is the
  \<open>-1\<close> of a string without a slash.
\<close>

definition cidr_prefix_part :: "bytes \<Rightarrow> unit + nat option" where
  "cidr_prefix_part copy =
    (case dropWhile (\<lambda>c. c \<noteq> 0x2F) copy of
       [] \<Rightarrow> Inr None
     | _ # after \<Rightarrow>
        (case strtol10 after of
           None \<Rightarrow> Inl ()
         | Some (val, rest) \<Rightarrow>
            if rest \<noteq> [] \<or> val < 0 \<or> 128 < val then Inl () else Inr (Some (nat val))))"

definition cidr_entry_parse ::
  "(bytes \<Rightarrow> bytes option) \<Rightarrow> (bytes \<Rightarrow> bytes option) \<Rightarrow> bytes option \<Rightarrow> bool \<times> cidr_entry_t" where
  "cidr_entry_parse pton4 pton6 cidr_str =
    (case cidr_str of
       None \<Rightarrow> (False, cidr_zero)
     | Some s \<Rightarrow>
        if s = [] then (False, cidr_zero)
        else if s = ascii ''any'' \<or> s = ascii ''any;'' then (True, cidr_zero\<lparr>cvalid := True, is_any := True\<rparr>)
        else
          let copy = take 255 s; host = takeWhile (\<lambda>c. c \<noteq> 0x2F) copy in
          (case cidr_prefix_part copy of
             Inl _ \<Rightarrow> (False, cidr_zero)
           | Inr p \<Rightarrow>
              (case pton4 host of
                 Some a \<Rightarrow>
                  (let prefix = (case p of None \<Rightarrow> 32 | Some n \<Rightarrow> n) in
                   if 32 < prefix then (False, cidr_zero)
                   else (True, cidr_set AF_INET prefix a 4))
               | None \<Rightarrow>
                  (case pton6 host of
                     Some a \<Rightarrow>
                      (let prefix = (case p of None \<Rightarrow> 128 | Some n \<Rightarrow> n) in
                       if 128 < prefix then (False, cidr_zero)
                       else (True, cidr_set AF_INET6 prefix a 16))
                   | None \<Rightarrow> (False, cidr_zero)))))"

text \<open>The IPv6 loop from octet \<open>i\<close>: it stops at the first zero octet of the mask.\<close>

fun match6_from :: "bytes \<Rightarrow> bytes \<Rightarrow> bytes \<Rightarrow> bool" where
  "match6_from (m # ms) (a # as) (b # bs) =
     (if m = 0 then True
      else if a AND m \<noteq> b AND m then False
      else match6_from ms as bs)"
| "match6_from _ _ _ = True"

text \<open>\<open>memcpy(&a, p, 4)\<close>; the comparison does not depend on the byte order.\<close>

definition load32 :: "bytes \<Rightarrow> u32" where
  "load32 p = be32 (p ! 0) (p ! 1) (p ! 2) (p ! 3)"

definition cidr_entry_match :: "cidr_entry_t \<Rightarrow> addr_family \<Rightarrow> bytes option \<Rightarrow> bool" where
  "cidr_entry_match net family addr_bytes =
    (if \<not> cvalid net then False
     else if is_any net then True
     else (case addr_bytes of
       None \<Rightarrow> False
     | Some a \<Rightarrow>
        if cfamily net \<noteq> family then False
        else if family = AF_INET then
          load32 a AND load32 (cmask net) = load32 (caddr net) AND load32 (cmask net)
        else if family = AF_INET6 then match6_from (take 16 (cmask net)) (take 16 a) (take 16 (caddr net))
        else False))"

definition cidr_entry_match_sockaddr :: "cidr_entry_t \<Rightarrow> sockaddr option \<Rightarrow> bool" where
  "cidr_entry_match_sockaddr net sa =
    (if \<not> cvalid net \<or> sa = None then False
     else if is_any net then True
     else (case sa of
       Some (SA_INET a) \<Rightarrow> cidr_entry_match net AF_INET (Some a)
     | Some (SA_INET6 a) \<Rightarrow> cidr_entry_match net AF_INET6 (Some a)
     | _ \<Rightarrow> False))"

definition cidr_entry_match_str ::
  "(bytes \<Rightarrow> bytes option) \<Rightarrow> (bytes \<Rightarrow> bytes option) \<Rightarrow> cidr_entry_t \<Rightarrow> bytes option \<Rightarrow> bool" where
  "cidr_entry_match_str pton4 pton6 net addr_str =
    (case addr_str of
       None \<Rightarrow> False
     | Some s \<Rightarrow>
        if \<not> cvalid net \<or> s = [] then False
        else if is_any net then True
        else (case pton4 s of
                Some a \<Rightarrow> cidr_entry_match net AF_INET (Some a)
              | None \<Rightarrow> (case pton6 s of
                           Some a \<Rightarrow> cidr_entry_match net AF_INET6 (Some a)
                         | None \<Rightarrow> False)))"

section \<open>Addresses as bit strings\<close>

text \<open>The specification: an address is its bits, most significant first.\<close>

definition bits8 :: "u8 \<Rightarrow> bool list" where
  "bits8 b = map (\<lambda>j. bit b (7 - j)) [0..<8]"

definition addr_bits :: "bytes \<Rightarrow> bool list" where
  "addr_bits a = concat (map bits8 a)"

definition same_prefix :: "nat \<Rightarrow> bytes \<Rightarrow> bytes \<Rightarrow> bool" where
  "same_prefix n a b \<longleftrightarrow> take n (addr_bits a) = take n (addr_bits b)"

lemma length_bits8 [simp]: "length (bits8 b) = 8"
  by (simp add: bits8_def)

lemma addr_bits_Nil [simp]: "addr_bits [] = []"
  by (simp add: addr_bits_def)

lemma addr_bits_Cons [simp]: "addr_bits (b # bs) = bits8 b @ addr_bits bs"
  by (simp add: addr_bits_def)

lemma length_addr_bits [simp]: "length (addr_bits a) = 8 * length a"
  by (induction a) simp_all

lemma same_prefix_refl [simp]: "same_prefix n a a"
  by (simp add: same_prefix_def)

lemma same_prefix_sym: "same_prefix n a b \<longleftrightarrow> same_prefix n b a"
  by (auto simp: same_prefix_def)

lemma same_prefix_trans: "same_prefix n a b \<Longrightarrow> same_prefix n b c \<Longrightarrow> same_prefix n a c"
  by (simp add: same_prefix_def)

lemma same_prefix_mono: "same_prefix n a b \<Longrightarrow> m \<le> n \<Longrightarrow> same_prefix m a b"
  unfolding same_prefix_def by (metis min.absorb1 take_take)

lemma nth_bits8 [simp]: "j < 8 \<Longrightarrow> bits8 b ! j = bit b (7 - j)"
  by (simp add: bits8_def)

lemma bits8_inj [simp]: "bits8 a = bits8 b \<longleftrightarrow> a = b"
proof
  assume eq: "bits8 a = bits8 b"
  show "a = b"
  proof (rule bit_word_eqI)
    fix n assume "n < LENGTH(8)"
    then have "7 - n < 8" and "7 - (7 - n) = n" by auto
    then show "bit a n = bit b n" using arg_cong[OF eq, of "\<lambda>l. l ! (7 - n)"] by simp
  qed
qed simp

text \<open>One octet: masking with \<open>k\<close> leading ones compares the first \<open>k\<close> bits.\<close>

lemma mask_octet_le_0: "b \<le> 0 \<Longrightarrow> mask_octet b = 0"
  by (simp add: mask_octet_def)

lemma mask_octet_ge_8: "8 \<le> b \<Longrightarrow> mask_octet b = 0xFF"
  by (simp add: mask_octet_def)

lemma u8_and_FF [simp]: "(x :: u8) AND 0xFF = x"
proof -
  have "(0xFF :: u8) = -1" by simp
  then show ?thesis by (metis and.right_neutral)
qed

lemma bit_mask_octet:
  assumes "0 < k" "k < 8"
  shows "bit (mask_octet (int k)) n \<longleftrightarrow> n < 8 \<and> 8 - k \<le> n"
proof -
  have "(0xFF :: u8) = mask 8" by (simp add: mask_eq_exp_minus_1)
  then have "mask_octet (int k) = push_bit (8 - k) (mask 8)"
    using assms by (simp add: mask_octet_def nat_diff_distrib')
  then show ?thesis using assms by (auto simp: bit_simps)
qed

lemma mask_octet_nonzero:
  assumes "0 < b"
  shows "mask_octet b \<noteq> 0"
proof (cases "8 \<le> b")
  case True
  then show ?thesis by (simp add: mask_octet_def)
next
  case False
  with assms have "bit (mask_octet (int (nat b))) 7" by (subst bit_mask_octet) auto
  with assms show ?thesis by auto
qed

lemma and_mask_octet_iff:
  assumes "k \<le> 8"
  shows "a AND mask_octet (int k) = b AND mask_octet (int k) \<longleftrightarrow> take k (bits8 a) = take k (bits8 b)"
    (is "?l \<longleftrightarrow> ?r")
proof -
  consider "k = 0" | "k = 8" | "0 < k" "k < 8" using assms by linarith
  then show ?thesis
  proof cases
    case 3
    have "?l \<longleftrightarrow> (\<forall>n. n < 8 \<and> 8 - k \<le> n \<longrightarrow> bit a n = bit b n)"
      by (auto simp: bit_eq_iff bit_simps bit_mask_octet[OF 3] bit_u8_ge)
    also have "\<dots> \<longleftrightarrow> (\<forall>j < k. bit a (7 - j) = bit b (7 - j))"
    proof (rule iffI; intro allI impI)
      fix n assume *: "\<forall>j < k. bit a (7 - j) = bit b (7 - j)" and "n < 8 \<and> 8 - k \<le> n"
      then have "7 - n < k" "7 - (7 - n) = n" by auto
      with * show "bit a n = bit b n" by metis
    next
      fix j assume *: "\<forall>n. n < 8 \<and> 8 - k \<le> n \<longrightarrow> bit a n = bit b n" and "j < k"
      then have "7 - j < 8 \<and> 8 - k \<le> 7 - j" by auto
      with * show "bit a (7 - j) = bit b (7 - j)" by blast
    qed
    also have "\<dots> \<longleftrightarrow> ?r"
      using 3 by (auto simp: list_eq_iff_nth_eq)
    finally show ?thesis .
  qed (simp_all add: mask_octet_def)
qed

text \<open>A whole address.\<close>

definition octets_agree :: "int \<Rightarrow> bytes \<Rightarrow> bytes \<Rightarrow> bool" where
  "octets_agree p a b \<longleftrightarrow>
     (\<forall>i < length a. a ! i AND mask_octet (p - int i * 8) = b ! i AND mask_octet (p - int i * 8))"

lemma octets_agree_Cons:
  "octets_agree p (x # a) (y # b) \<longleftrightarrow>
     x AND mask_octet p = y AND mask_octet p \<and> octets_agree (p - 8) a b"
  unfolding octets_agree_def length_Cons All_less_Suc2
  by (simp add: algebra_simps)

lemma octets_agree_iff:
  "length a = length b \<Longrightarrow> octets_agree (int n) a b \<longleftrightarrow> same_prefix n a b"
proof (induction a b arbitrary: n rule: list_induct2)
  case Nil
  then show ?case by (simp add: octets_agree_def same_prefix_def)
next
  case (Cons x a y b)
  show ?case
  proof (cases "8 \<le> n")
    case True
    then have "octets_agree (int n - 8) a b \<longleftrightarrow> same_prefix (n - 8) a b"
      using Cons.IH[of "n - 8"] by (simp add: of_nat_diff)
    with True show ?thesis
      by (auto simp: octets_agree_Cons mask_octet_ge_8 same_prefix_def)
  next
    case False
    then have "octets_agree (int n - 8) a b"
      by (simp add: octets_agree_def mask_octet_le_0)
    with False show ?thesis
      by (simp add: octets_agree_Cons and_mask_octet_iff same_prefix_def)
  qed
qed

lemma nth_compute_mask: "i < n \<Longrightarrow> n \<le> 16 \<Longrightarrow> compute_mask p n ! i = mask_octet (int p - int i * 8)"
  by (simp add: compute_mask_def)

lemma length_compute_mask [simp]: "length (compute_mask p n) = 16"
  by (simp add: compute_mask_def)

lemma nth_addr16: "i < length a \<Longrightarrow> addr16 a ! i = a ! i"
  by (simp add: addr16_def nth_append)

text \<open>Four octets: one 32-bit comparison.\<close>

lemma be32_and: "be32 a b c d AND be32 a' b' c' d' = be32 (a AND a') (b AND b') (c AND c') (d AND d')"
proof (rule bit_word_eqI)
  fix n assume "n < LENGTH(32)"
  then consider "n < 8" | "8 \<le> n" "n < 16" | "16 \<le> n" "n < 24" | "24 \<le> n" "n < 32"
    by fastforce
  then show "bit (be32 a b c d AND be32 a' b' c' d') n =
      bit (be32 (a AND a') (b AND b') (c AND c') (d AND d')) n"
    by cases (auto simp: be32_def bit_simps bit_u8_ge)
qed

lemma be32_eq_iff: "be32 a b c d = be32 a' b' c' d' \<longleftrightarrow> a = a' \<and> b = b' \<and> c = c' \<and> d = d'"
proof
  have ext: "ucast (drop_bit 24 (be32 a b c d)) = a" "ucast (drop_bit 16 (be32 a b c d)) = b"
    "ucast (drop_bit 8 (be32 a b c d)) = c" "ucast (be32 a b c d) = d" for a b c d
    by (rule bit_word_eqI; simp add: be32_def bit_simps bit_u8_ge)+
  show "a = a' \<and> b = b' \<and> c = c' \<and> d = d'" if "be32 a b c d = be32 a' b' c' d'"
    using that by (metis ext)
qed simp

lemma load32_match:
  assumes "length a = 4"
  shows "load32 a AND load32 (compute_mask p 4) = load32 (addr16 b) AND load32 (compute_mask p 4) \<longleftrightarrow>
    octets_agree (int p) a (addr16 b)"
proof -
  have all4: "(\<forall>i < 4. P i) \<longleftrightarrow> P 0 \<and> P 1 \<and> P 2 \<and> P 3" for P :: "nat \<Rightarrow> bool"
    by (simp add: numeral_eq_Suc All_less_Suc2)
  show ?thesis
    unfolding octets_agree_def load32_def be32_and be32_eq_iff assms all4
    by (simp add: nth_compute_mask)
qed

text \<open>Sixteen octets: the loop with its early stop.\<close>

lemma match6_iff:
  "length a = length b \<Longrightarrow> length ms = length a \<Longrightarrow>
   (\<forall>i < length a. ms ! i = mask_octet (p - int i * 8)) \<Longrightarrow>
   match6_from ms a b \<longleftrightarrow> octets_agree p a b"
proof (induction a b arbitrary: ms p rule: list_induct2)
  case Nil
  then show ?case by (simp add: octets_agree_def)
next
  case (Cons x a y b)
  then obtain m ms' where ms: "ms = m # ms'" by (cases ms) auto
  from Cons.prems(2) have m: "m = mask_octet p" and
    rest: "\<forall>i < length a. ms' ! i = mask_octet (p - 8 - int i * 8)"
    unfolding ms length_Cons All_less_Suc2 by (simp_all add: algebra_simps)
  have IH: "match6_from ms' a b \<longleftrightarrow> octets_agree (p - 8) a b"
    using Cons.IH[of ms' "p - 8"] Cons.prems(1) rest by (simp add: ms)
  show ?case
  proof (cases "p \<le> 0")
    case True
    then have "octets_agree (p - 8) a b" by (simp add: octets_agree_def mask_octet_le_0)
    with True show ?thesis by (simp add: ms m octets_agree_Cons mask_octet_le_0)
  next
    case False
    then have "m \<noteq> 0" using m mask_octet_nonzero[of p] by simp
    then show ?thesis by (simp add: ms m[symmetric] octets_agree_Cons IH)
  qed
qed

lemma same_prefix_take:
  assumes "n \<le> 8 * k" "k \<le> length b"
  shows "same_prefix n a (take k b) \<longleftrightarrow> same_prefix n a b"
proof -
  have "addr_bits b = addr_bits (take k b) @ addr_bits (drop k b)"
    unfolding addr_bits_def by (metis append_take_drop_id concat_append map_append)
  moreover have "length (addr_bits (take k b)) = 8 * k" using assms by simp
  ultimately show ?thesis using assms(1) by (simp add: same_prefix_def)
qed

lemma match_cidr_set_4:
  assumes "length a = 4" "length b = 4" "p \<le> 32"
  shows "cidr_entry_match (cidr_set AF_INET p b 4) AF_INET (Some a) \<longleftrightarrow> same_prefix p a b"
proof -
  have "octets_agree (int p) a (addr16 b) \<longleftrightarrow> octets_agree (int p) a b"
    using assms by (simp add: octets_agree_def nth_addr16)
  then show ?thesis
    using assms by (simp add: cidr_entry_match_def cidr_set_def load32_match octets_agree_iff)
qed

lemma match_cidr_set_6:
  assumes "length a = 16" "length b = 16" "p \<le> 128"
  shows "cidr_entry_match (cidr_set AF_INET6 p b 16) AF_INET6 (Some a) \<longleftrightarrow> same_prefix p a b"
  using assms match6_iff[of a b "compute_mask p 16" "int p"]
  by (simp add: cidr_entry_match_def cidr_set_def octets_agree_iff addr16_def nth_compute_mask)

section \<open>Parsing and matching together\<close>

lemma cidr_entry_parse_cases:
  assumes "cidr_entry_parse pton4 pton6 (Some s) = (True, e)"
  shows "e = cidr_zero\<lparr>cvalid := True, is_any := True\<rparr> \<or>
    (\<exists>h a p. pton4 h = Some a \<and> p \<le> 32 \<and> e = cidr_set AF_INET p a 4) \<or>
    (\<exists>h a p. pton6 h = Some a \<and> p \<le> 128 \<and> e = cidr_set AF_INET6 p a 16)"
  using assms
  by (simp add: cidr_entry_parse_def Let_def not_less split: if_splits sum.splits option.splits; blast)

lemma cidr_set_simps [simp]:
  "cvalid (cidr_set af p a n)" "\<not> is_any (cidr_set af p a n)" "cfamily (cidr_set af p a n) = af"
  "cprefix (cidr_set af p a n) = p" "caddr (cidr_set af p a n) = addr16 a"
  by (simp_all add: cidr_set_def)

lemma same_prefix_addr16:
  assumes "length b \<le> 16" "p \<le> 8 * length b"
  shows "same_prefix p a (addr16 b) \<longleftrightarrow> same_prefix p a b"
  using same_prefix_take[of p "length b" "addr16 b" a] assms by (simp add: addr16_def)

lemma cidr_match_family: "cvalid e \<Longrightarrow> \<not> is_any e \<Longrightarrow> cfamily e \<noteq> fam \<Longrightarrow> \<not> cidr_entry_match e fam a"
  by (auto simp: cidr_entry_match_def split: option.splits)


text \<open>The example address library: one IPv4 literal and no IPv6 literal.\<close>

definition pton4_example :: "bytes \<Rightarrow> bytes option" where
  "pton4_example s = (if s = ascii ''10.1.0.0'' then Some [10, 1, 0, 0] else None)"

definition pton6_example :: "bytes \<Rightarrow> bytes option" where
  "pton6_example s = (if s = ascii ''2001:db8::'' then Some ([0x20, 0x01, 0x0d, 0xb8] @ replicate 12 0) else None)"

lemma pton4_example_length: "pton4_example x = Some a \<Longrightarrow> length a = 4"
  by (auto simp: pton4_example_def split: if_splits)

lemma pton6_example_length: "pton6_example x = Some a \<Longrightarrow> length a = 16"
  by (auto simp: pton6_example_def split: if_splits)

lemma parse_example:
  "cidr_entry_parse pton4_example pton6_example (Some (ascii ''10.1.0.0/16'')) =
     (True, cidr_set AF_INET 16 [10, 1, 0, 0] 4)"
  by code_simp


end
