(* ===== verification/Match_Cidr.thy ===== *)
theory Match_Cidr
  imports Cidr
begin

text \<open>
  \<open>match_cidr\<close> of \<^verbatim>\<open>src/dns_config_parser.c\<close>, which matches an address text against an
  entry text, parsing both every time.  It is shown to agree with the entries that
  \<open>cidr_entry_parse\<close> prepares once (\<open>Cidr\<close>).
\<close>

text \<open>The IPv6 loop; \<open>bits\<close> is \<open>prefix - i * 8\<close>.\<close>

fun match_cidr6 :: "int \<Rightarrow> bytes \<Rightarrow> bytes \<Rightarrow> bool" where
  "match_cidr6 bits (a # as) (b # bs) =
    (if 8 \<le> bits then (if a \<noteq> b then False else match_cidr6 (bits - 8) as bs)
     else if 0 < bits then
       (let m = push_bit (nat (8 - bits)) 0xFF :: u8
        in if a AND m \<noteq> b AND m then False else match_cidr6 (bits - 8) as bs)
     else True)"
| "match_cidr6 bits _ _ = True"

definition match_cidr4 :: "nat \<Rightarrow> bytes \<Rightarrow> bytes \<Rightarrow> bool" where
  "match_cidr4 prefix a b =
    (let m = (if prefix = 0 then 0 else push_bit (32 - prefix) (- 1)) :: u32
     in load32 a AND m = load32 b AND m)"

definition match_cidr ::
  "(bytes \<Rightarrow> bytes option) \<Rightarrow> (bytes \<Rightarrow> bytes option) \<Rightarrow> bytes option \<Rightarrow> bytes option \<Rightarrow> bool" where
  "match_cidr pton4 pton6 client_ip_str cidr_str =
    (case (client_ip_str, cidr_str) of
       (Some ip, Some s) \<Rightarrow>
        if s = ascii ''any'' \<or> s = ascii ''any;'' then True
        else
          let copy = take 255 s; host = takeWhile (\<lambda>c. c \<noteq> 0x2F) copy in
          (case cidr_prefix_part copy of
             Inl _ \<Rightarrow> False
           | Inr p \<Rightarrow>
              (case (pton4 ip, pton4 host) of
                 (Some a, Some b) \<Rightarrow>
                   let prefix = (case p of None \<Rightarrow> 32 | Some n \<Rightarrow> n) in
                   if 32 < prefix then False else match_cidr4 prefix a b
               | _ \<Rightarrow>
                  (case (pton6 ip, pton6 host) of
                     (Some a, Some b) \<Rightarrow>
                       let prefix = (case p of None \<Rightarrow> 128 | Some n \<Rightarrow> n) in
                       if 128 < prefix then False else match_cidr6 (int prefix) a b
                   | _ \<Rightarrow> False)))
     | _ \<Rightarrow> False)"

section \<open>The two matchers agree\<close>

lemma match_cidr6_octets:
  "length a = length b \<Longrightarrow> match_cidr6 p a b \<longleftrightarrow> octets_agree p a b"
proof (induction a b arbitrary: p rule: list_induct2)
  case Nil
  then show ?case by (simp add: octets_agree_def)
next
  case (Cons x a y b)
  have "octets_agree (p - 8) a b" if "p \<le> 0"
    using that by (simp add: octets_agree_def mask_octet_le_0)
  with Cons show ?case by (auto simp: octets_agree_Cons mask_octet_def Let_def)
qed

lemma load32_compute_mask: "p \<le> 32 \<Longrightarrow> load32 (compute_mask p 4) = (if p = 0 then 0 else push_bit (32 - p) (- 1))"
proof -
  assume "p \<le> 32"
  moreover have "list_all (\<lambda>p. load32 (compute_mask p 4) = (if p = 0 then 0 else push_bit (32 - p) (- 1))) [0..<33]"
    by code_simp
  ultimately show ?thesis by (simp add: list_all_iff)
qed

lemma match_cidr4_octets:
  assumes "length a = 4" "length b = 4" "p \<le> 32"
  shows "match_cidr4 p a b \<longleftrightarrow> octets_agree (int p) a b"
proof -
  have "load32 (addr16 b) = load32 b" using assms(2) by (simp add: load32_def nth_addr16)
  moreover have "octets_agree (int p) a (addr16 b) \<longleftrightarrow> octets_agree (int p) a b"
    using assms by (simp add: octets_agree_def nth_addr16)
  ultimately show ?thesis
    using load32_match [OF assms(1), of p b] by (simp add: match_cidr4_def load32_compute_mask [OF assms(3)])
qed

section \<open>Properties\<close>

lemma cidr_set_flags: "cvalid (cidr_set f n b k)" "\<not> is_any (cidr_set f n b k)"
  by (simp_all add: cidr_set_def)

lemma match_str_set:
  assumes "\<And>s a. pton4 s = Some a \<Longrightarrow> length a = 4 \<and> pton6 s = None" "\<And>s a. pton6 s = Some a \<Longrightarrow> length a = 16" "ip \<noteq> []"
  shows "length b = 4 \<Longrightarrow> n \<le> 32 \<Longrightarrow> cidr_entry_match_str pton4 pton6 (cidr_set AF_INET n b 4) (Some ip) \<longleftrightarrow>
      (\<exists>a. pton4 ip = Some a \<and> match_cidr4 n a b)"
    and "length b = 16 \<Longrightarrow> n \<le> 128 \<Longrightarrow> cidr_entry_match_str pton4 pton6 (cidr_set AF_INET6 n b 16) (Some ip) \<longleftrightarrow>
      (\<exists>a. pton6 ip = Some a \<and> match_cidr6 (int n) a b)"
proof -
  have fam: "\<not> cidr_entry_match (cidr_set f n b k) f' (Some a)" if "f \<noteq> f'" for f f' a b n k
    using that by (simp add: cidr_entry_match_def cidr_set_def)
  have str: "cidr_entry_match_str pton4 pton6 (cidr_set f n b k) (Some ip) =
      (case pton4 ip of
         Some a \<Rightarrow> cidr_entry_match (cidr_set f n b k) AF_INET (Some a)
       | None \<Rightarrow> (case pton6 ip of Some a \<Rightarrow> cidr_entry_match (cidr_set f n b k) AF_INET6 (Some a) | None \<Rightarrow> False))" for f n b k
    using assms(3) by (simp add: cidr_entry_match_str_def cidr_set_flags)
  show "length b = 4 \<Longrightarrow> n \<le> 32 \<Longrightarrow> cidr_entry_match_str pton4 pton6 (cidr_set AF_INET n b 4) (Some ip) \<longleftrightarrow>
      (\<exists>a. pton4 ip = Some a \<and> match_cidr4 n a b)"
    unfolding str using assms(1,2) [of ip]
    by (auto simp: fam match_cidr_set_4 match_cidr4_octets octets_agree_iff split: option.splits)
  show "length b = 16 \<Longrightarrow> n \<le> 128 \<Longrightarrow> cidr_entry_match_str pton4 pton6 (cidr_set AF_INET6 n b 16) (Some ip) \<longleftrightarrow>
      (\<exists>a. pton6 ip = Some a \<and> match_cidr6 (int n) a b)"
    unfolding str using assms(1,2) [of ip]
    by (auto simp: fam match_cidr_set_6 match_cidr6_octets octets_agree_iff split: option.splits)
qed



end
