(* ===== verification/Names.thy ===== *)
theory Names
  imports Prelude "HOL-Library.Sublist"
begin

text \<open>
  Domain names as text: the escaped presentation form of labels
  (\<open>parse_label\<close>, \<open>dns_label_to_text\<close>, \<open>write_uncompressed_name_ext\<close>,
  \<open>dns_name_normalize\<close> of \<^verbatim>\<open>src/dns_wire.c\<close>) and the string predicates of
  \<^verbatim>\<open>src/dns_utils.h\<close> (\<open>dns_char_is_escaped\<close>, \<open>dns_name_len_no_root\<close>,
  \<open>domain_names_match_ci\<close>, \<open>dns_name_hash_ci\<close>, \<open>domain_name_is_at_or_below\<close>).
\<close>

section \<open>Labels\<close>

text \<open>
  The three-digit decimal escape that may follow a backslash: \<open>p[0]\<close>, \<open>p[1]\<close> and \<open>p[2]\<close>
  are digits.  The value is not yet checked against 255.
\<close>

fun three_digits :: "bytes \<Rightarrow> (nat \<times> bytes) option" where
  "three_digits (d # e # f # rest) =
     (if is_digit8 d \<and> is_digit8 e \<and> is_digit8 f
      then Some ((unat d - 48) * 100 + (unat e - 48) * 10 + (unat f - 48), rest) else None)"
| "three_digits _ = None"

lemma three_digits_length: "three_digits s = Some (v, rest) \<Longrightarrow> length s = length rest + 3"
  by (induction s rule: three_digits.induct) (auto split: if_splits)

text \<open>
  \<open>parse_label\<close>: the label's octets and \<open>next_p\<close> (\<open>None\<close> is the NULL of a label that
  ends the string); the outer \<open>None\<close> is the \<open>-1\<close> return.
\<close>

function parse_label_loop :: "bytes \<Rightarrow> bytes \<Rightarrow> (bytes \<times> bytes option) option" where
  "parse_label_loop acc [] = Some (acc, None)"
| "parse_label_loop acc (c # cs) =
    (if c = BSL then
       (case cs of
          [] \<Rightarrow> None
        | d # ds \<Rightarrow>
           (case three_digits cs of
              Some (val, rest) \<Rightarrow>
                if 255 < val then None
                else if 63 \<le> length acc then None
                else parse_label_loop (acc @ [word_of_nat val]) rest
            | None \<Rightarrow>
                if 63 \<le> length acc then None
                else parse_label_loop (acc @ [d]) ds))
     else if c = DOT then Some (acc, Some cs)
     else if 63 \<le> length acc then None
     else parse_label_loop (acc @ [c]) cs)"
  by pat_completeness auto
termination
  by (relation "measure (\<lambda>(acc, s). length s)") (auto dest: three_digits_length)

definition parse_label :: "bytes \<Rightarrow> (bytes \<times> bytes option) option" where
  "parse_label name = parse_label_loop [] name"

lemma parse_label_loop_next:
  "parse_label_loop acc s = Some (l, Some rest) \<Longrightarrow> length rest < length s"
proof (induction acc s rule: parse_label_loop.induct)
  case (2 acc c cs)
  then show ?case
    by (auto split: if_splits list.splits option.splits) (fastforce dest: three_digits_length)+
qed simp

lemma parse_label_next [dest]: "parse_label s = Some (l, Some rest) \<Longrightarrow> length rest < length s"
  unfolding parse_label_def by (rule parse_label_loop_next)

text \<open>The three decimal digits of an octet.\<close>

definition dec3 :: "u8 \<Rightarrow> bytes" where
  "dec3 c = [word_of_nat (48 + unat c div 100), word_of_nat (48 + unat c div 10 mod 10),
     word_of_nat (48 + unat c mod 10)]"

text \<open>
  \<open>dns_label_to_text\<close>: \<open>out\<close> holds what has been written, \<open>cap\<close> is the room it has.
\<close>

fun dns_label_to_text :: "nat \<Rightarrow> bytes \<Rightarrow> bytes \<Rightarrow> bytes result" where
  "dns_label_to_text cap out [] = Ok out"
| "dns_label_to_text cap out (c # cs) =
    (if c = DOT \<or> c = BSL then
       (if cap < length out + 2 then Error
        else wr8 cap out BSL (\<lambda>out. wr8 cap out c (\<lambda>out. dns_label_to_text cap out cs)))
     else if c < 0x21 \<or> 0x7F \<le> c then
       (if cap < length out + 4 then Error
        else wr8 cap out BSL (\<lambda>out. wr8 cap out (dec3 c ! 0) (\<lambda>out.
               wr8 cap out (dec3 c ! 1) (\<lambda>out. wr8 cap out (dec3 c ! 2) (\<lambda>out.
                 dns_label_to_text cap out cs)))))
     else
       (if cap < length out + 1 then Error
        else wr8 cap out c (\<lambda>out. dns_label_to_text cap out cs)))"

section \<open>Whole names\<close>

text \<open>
  \<open>write_uncompressed_name_ext\<close>: \<open>w\<close> is what has been written from \<open>offset\<close> on; the
  result is the octets written (their number is the C return value).
\<close>

function write_name_loop :: "nat \<Rightarrow> nat \<Rightarrow> bool \<Rightarrow> bytes \<Rightarrow> bytes option \<Rightarrow> bytes result" where
  "write_name_loop offset max_len downcase w None =
    (if max_len < offset + length w + 1 then Error
     else let w = w @ [0] in if 255 < length w then Error else Ok w)"
| "write_name_loop offset max_len downcase w (Some p) =
    (case parse_label p of
       None \<Rightarrow> Error
     | Some (label, next_p) \<Rightarrow>
        if label \<noteq> [] then
          (if max_len < offset + length w + length label + 1 then Error
           else write_name_loop offset max_len downcase
                  (w @ word_of_nat (length label) # map (if downcase then lower8 else id) label) next_p)
        else write_name_loop offset max_len downcase w next_p)"
  by pat_completeness auto
termination
  by (relation "measure (\<lambda>(_, _, _, _, p). case p of None \<Rightarrow> 0 | Some s \<Rightarrow> Suc (length s))")
     (auto split: option.splits)

definition write_uncompressed_name_ext :: "nat \<Rightarrow> nat \<Rightarrow> bytes \<Rightarrow> bool \<Rightarrow> bytes result" where
  "write_uncompressed_name_ext offset max_len name downcase =
     write_name_loop offset max_len downcase [] (Some name)"

definition write_uncompressed_name :: "nat \<Rightarrow> nat \<Rightarrow> bytes \<Rightarrow> bytes result" where
  "write_uncompressed_name offset max_len name = write_uncompressed_name_ext offset max_len name True"

text \<open>\<open>wire_name_length\<close>; \<open>None\<close> is \<open>(size_t)-1\<close>.\<close>

function wire_name_length_loop :: "nat \<Rightarrow> bytes option \<Rightarrow> nat option" where
  "wire_name_length_loop w_len None = Some (w_len + 1)"
| "wire_name_length_loop w_len (Some p) =
    (case parse_label p of
       None \<Rightarrow> None
     | Some (label, next_p) \<Rightarrow>
        wire_name_length_loop (if label \<noteq> [] then w_len + (length label + 1) else w_len) next_p)"
  by pat_completeness auto
termination
  by (relation "measure (\<lambda>(_, p). case p of None \<Rightarrow> 0 | Some s \<Rightarrow> Suc (length s))")
     (auto split: option.splits)

definition wire_name_length :: "bytes \<Rightarrow> nat option" where
  "wire_name_length name = wire_name_length_loop 0 (Some name)"

text \<open>\<open>dns_name_normalize\<close> into a buffer of \<open>cap\<close> octets (the NUL included).\<close>

function normalize_loop :: "nat \<Rightarrow> bytes \<Rightarrow> nat \<Rightarrow> bytes option \<Rightarrow> bytes result" where
  "normalize_loop cap out wire_len p =
    (case p of
       None \<Rightarrow> wr8 cap out 0 (\<lambda>_. Ok out)
     | Some [] \<Rightarrow> wr8 cap out 0 (\<lambda>_. Ok out)
     | Some s \<Rightarrow>
        (case parse_label s of
           None \<Rightarrow> Error
         | Some (label, next_p) \<Rightarrow>
            if label = [] then Error
            else
              let wire_len = wire_len + (length label + 1) in
              if 255 < wire_len then Error
              else if out \<noteq> [] \<and> cap \<le> length out + 1 then Error
              else
                let out = (if out \<noteq> [] then out @ [DOT] else out) in
                bind_result (dns_label_to_text (cap - 1) out label) (\<lambda>out.
                  if next_p = Some [] then
                    (if cap \<le> length out + 1 then Error
                     else normalize_loop cap (out @ [DOT]) wire_len next_p)
                  else normalize_loop cap out wire_len next_p)))"
  by pat_completeness auto
termination
  by (relation "measure (\<lambda>(_, _, _, p). case p of None \<Rightarrow> 0 | Some s \<Rightarrow> Suc (length s))")
     (auto split: option.splits)

declare normalize_loop.simps [simp del]

definition dns_name_normalize :: "bytes \<Rightarrow> nat \<Rightarrow> bytes result" where
  "dns_name_normalize inp cap =
    (if cap < 2 then Error
     else if inp = [] then Ok []
     else if inp = [DOT] then Ok [DOT]
     else normalize_loop cap [] 1 (Some inp))"

section \<open>Comparing names as strings\<close>

text \<open>\<open>dns_char_is_escaped\<close>: an odd number of backslashes stands right before \<open>pos\<close>.\<close>

fun backslashes_before :: "bytes \<Rightarrow> nat \<Rightarrow> nat" where
  "backslashes_before s 0 = 0"
| "backslashes_before s (Suc p) = (if s ! p = BSL then Suc (backslashes_before s p) else 0)"

definition dns_char_is_escaped :: "bytes \<Rightarrow> nat \<Rightarrow> bool" where
  "dns_char_is_escaped s pos \<longleftrightarrow> odd (backslashes_before s pos)"

definition dns_name_len_no_root :: "bytes \<Rightarrow> nat \<Rightarrow> nat" where
  "dns_name_len_no_root name len =
    (if 0 < len \<and> name ! (len - 1) = DOT \<and> \<not> dns_char_is_escaped name (len - 1)
     then len - 1 else len)"

text \<open>\<open>None\<close> is the NULL pointer.\<close>

definition domain_names_match_ci :: "bytes option \<Rightarrow> bytes option \<Rightarrow> bool" where
  "domain_names_match_ci a b =
    (case (a, b) of
       (Some a, Some b) \<Rightarrow>
         if strcaseeq a b then True
         else let la = dns_name_len_no_root a (length a);
                  lb = dns_name_len_no_root b (length b)
              in la = lb \<and> strcaseeq (take la a) (take la b)
     | _ \<Rightarrow> False)"

definition fnv_step :: "u32 \<Rightarrow> u8 \<Rightarrow> u32" where
  "fnv_step h c = (h XOR ucast (lower8 c)) * 16777619"

definition dns_name_hash_ci :: "bytes \<Rightarrow> u32" where
  "dns_name_hash_ci name = foldl fnv_step 2166136261 (take (dns_name_len_no_root name (length name)) name)"

definition domain_name_is_at_or_below :: "bytes option \<Rightarrow> bytes option \<Rightarrow> bool" where
  "domain_name_is_at_or_below name apex =
    (case (name, apex) of
       (Some name, Some apex) \<Rightarrow>
         let nl = dns_name_len_no_root name (length name);
             al = dns_name_len_no_root apex (length apex)
         in if al = 0 then True
            else if nl < al \<or> \<not> strcaseeq (take al (drop (nl - al) name)) (take al apex) then False
            else if nl = al then True
            else let dot = nl - al - 1 in name ! dot = DOT \<and> \<not> dns_char_is_escaped name dot
     | _ \<Rightarrow> False)"

section \<open>Presentation form of labels\<close>

text \<open>Specification: the text of an octet, of a label, of a name given by its labels.\<close>

definition char_text :: "u8 \<Rightarrow> bytes" where
  "char_text c = (if c = DOT \<or> c = BSL then [BSL, c]
     else if c < 0x21 \<or> 0x7F \<le> c then BSL # dec3 c else [c])"

definition label_text :: "bytes \<Rightarrow> bytes" where
  "label_text l = concat (map char_text l)"

fun name_text :: "bytes list \<Rightarrow> bytes" where
  "name_text [] = []"
| "name_text (l # ls) = label_text l @ (if ls = [] then [] else DOT # name_text ls)"

text \<open>The final dot of an absolute name.\<close>

definition abs_dot :: "bool \<Rightarrow> bytes" where
  "abs_dot d = (if d then [DOT] else [])"

definition wire_labels :: "bytes list \<Rightarrow> bytes" where
  "wire_labels ls = concat (map (\<lambda>l. word_of_nat (length l) # l) ls)"

definition wire_of :: "bytes list \<Rightarrow> bytes" where
  "wire_of ls = wire_labels ls @ [0]"

definition valid_label :: "bytes \<Rightarrow> bool" where
  "valid_label l \<longleftrightarrow> l \<noteq> [] \<and> length l \<le> 63"

definition valid_name :: "bytes list \<Rightarrow> bool" where
  "valid_name ls \<longleftrightarrow> list_all valid_label ls \<and> length (wire_of ls) \<le> 255"

definition fold_name :: "bytes list \<Rightarrow> bytes list" where
  "fold_name ls = map (map lower8) ls"

lemma label_text_simps [simp]:
  "label_text [] = []"
  "label_text (c # cs) = char_text c @ label_text cs"
  by (simp_all add: label_text_def)

lemma label_text_append [simp]: "label_text (xs @ ys) = label_text xs @ label_text ys"
  by (simp add: label_text_def)

lemma abs_dot_simps [simp]: "abs_dot True = [DOT]" "abs_dot False = []"
  by (simp_all add: abs_dot_def)

lemma wire_labels_simps [simp]:
  "wire_labels [] = []"
  "wire_labels (l # ls) = word_of_nat (length l) # l @ wire_labels ls"
  by (simp_all add: wire_labels_def)

lemma length_dec3 [simp]: "length (dec3 c) = 3"
  by (simp add: dec3_def)

lemma char_text_nonempty [simp]: "char_text c \<noteq> []"
  by (simp add: char_text_def)

lemma label_text_eq_Nil [simp]: "label_text l = [] \<longleftrightarrow> l = []"
  by (cases l) simp_all

lemma dec3_digit_value:
  assumes "k < 10"
  shows "is_digit8 (word_of_nat (48 + k))" and "unat (word_of_nat (48 + k) :: u8) = 48 + k"
proof -
  show u: "unat (word_of_nat (48 + k) :: u8) = 48 + k"
    using assms by (simp only: unat_of_nat) simp
  show "is_digit8 (word_of_nat (48 + k))"
    using assms u by (simp add: is_digit8_def word_le_nat_alt)
qed

lemma three_digits_dec3 [simp]: "three_digits (dec3 c @ rest) = Some (unat c, rest)"
proof -
  have c: "unat c < 256" by simp
  have "unat c div 100 < 10" "unat c div 10 mod 10 < 10" "unat c mod 10 < 10"
    using c by (simp_all only: div_less_iff_less_mult zero_less_numeral mod_less_divisor)
  note d = this [THEN dec3_digit_value(1)] this [THEN dec3_digit_value(2)]
  have h: "unat c div 100 = unat c div 10 div 10" by (simp only: div_mult2_eq [symmetric]) simp
  have v: "unat c div 100 * 100 + unat c div 10 mod 10 * 10 + unat c mod 10 = unat c"
    using div_mult_mod_eq [of "unat c div 10" 10] div_mult_mod_eq [of "unat c" 10]
    unfolding h by linarith
  show ?thesis
    by (simp only: dec3_def append.simps three_digits.simps d diff_add_inverse v simp_thms if_True)
qed

lemma three_digits_not_digit: "\<not> is_digit8 d \<Longrightarrow> three_digits (d # xs) = None"
  by (cases xs; cases "tl xs") auto

lemma not_digit_DOT_BSL [simp]: "\<not> is_digit8 DOT" "\<not> is_digit8 BSL"
  by (simp_all add: is_digit8_def)

lemma dec3_Cons: "\<exists>d ds. dec3 c @ rest = d # ds"
  by (simp add: dec3_def)

lemma parse_label_loop_char:
  assumes "length acc < 63"
  shows "parse_label_loop acc (char_text c @ rest) = parse_label_loop (acc @ [c]) rest"
proof -
  consider "c = DOT \<or> c = BSL" | "c \<noteq> DOT" "c \<noteq> BSL" "c < 0x21 \<or> 0x7F \<le> c"
    | "c \<noteq> DOT" "c \<noteq> BSL" "\<not> (c < 0x21 \<or> 0x7F \<le> c)" by blast
  then show ?thesis
  proof cases
    case 1
    then have "three_digits (c # rest) = None" by (auto intro: three_digits_not_digit)
    with 1 assms show ?thesis by (auto simp: char_text_def)
  next
    case 2
    obtain d ds where d: "dec3 c @ rest = d # ds" using dec3_Cons by blast
    then have "three_digits (d # ds) = Some (unat c, rest)" by (metis three_digits_dec3)
    moreover have "\<not> 255 < unat c" using u8_less_256 [of c] by linarith
    ultimately show ?thesis using 2 assms d by (simp add: char_text_def)
  next
    case 3
    with assms show ?thesis by (simp add: char_text_def)
  qed
qed

lemma parse_label_loop_text:
  "length acc + length l \<le> 63 \<Longrightarrow>
    parse_label_loop acc (label_text l @ rest) = parse_label_loop (acc @ l) rest"
  by (induction l arbitrary: acc) (simp_all add: parse_label_loop_char)

lemma parse_label_text [simp]:
  assumes "length l \<le> 63"
  shows "parse_label (label_text l) = Some (l, None)"
    and "parse_label (label_text l @ DOT # rest) = Some (l, Some rest)"
  using parse_label_loop_text [of "[]" l "[]"] parse_label_loop_text [of "[]" l "DOT # rest"] assms
  by (simp_all add: parse_label_def)

lemma parse_label_loop_length:
  "\<lbrakk>parse_label_loop acc s = Some (l, nx); length acc \<le> 63\<rbrakk> \<Longrightarrow> length l \<le> 63"
proof (induction acc s rule: parse_label_loop.induct)
  case (2 acc c cs)
  then show ?case
    by (auto split: if_splits list.splits option.splits) (fastforce+)?
qed simp

lemma parse_label_length [dest]: "parse_label s = Some (l, nx) \<Longrightarrow> length l \<le> 63"
  unfolding parse_label_def by (erule parse_label_loop_length) simp

lemma dns_label_to_text_spec:
  "dns_label_to_text cap out l =
    (if length out + length (label_text l) \<le> cap then Ok (out @ label_text l)
     else if length out \<le> cap \<or> l \<noteq> [] then Error else Ok out)"
  by (induction l arbitrary: out) (auto simp: char_text_def wr8_def dec3_def)

section \<open>The labels a text denotes\<close>

text \<open>Specification: all labels of a text, empty ones included, as \<open>parse_label\<close> reads them.\<close>

function text_labels :: "bytes option \<Rightarrow> bytes list option" where
  "text_labels None = Some []"
| "text_labels (Some p) =
    (case parse_label p of
       None \<Rightarrow> None
     | Some (l, next_p) \<Rightarrow> map_option ((#) l) (text_labels next_p))"
  by pat_completeness auto
termination
  by (relation "measure (\<lambda>p. case p of None \<Rightarrow> 0 | Some s \<Rightarrow> Suc (length s))")
     (auto split: option.splits)

declare text_labels.simps(2) [simp del]

lemma parse_label_Nil [simp]: "parse_label [] = Some ([], None)"
  by (simp add: parse_label_def)

lemma text_labels_label:
  assumes "length l \<le> 63"
  shows "text_labels (Some (label_text l)) = Some [l]"
    and "text_labels (Some (label_text l @ DOT # rest)) = map_option ((#) l) (text_labels (Some rest))"
  using assms by (simp_all add: text_labels.simps(2) [of "label_text l"]
    text_labels.simps(2) [of "label_text l @ DOT # rest"])

lemma text_labels_Nil [simp]: "text_labels (Some []) = Some [[]]"
  by (simp add: text_labels.simps(2))

lemma text_labels_name_text:
  assumes "list_all valid_label ls" and "ls \<noteq> []"
  shows "text_labels (Some (name_text ls @ abs_dot d)) = Some (ls @ (if d then [[]] else []))"
  using assms
proof (induction ls)
  case (Cons l ls)
  then show ?case
    by (cases "ls = []"; cases d) (auto simp: valid_label_def text_labels_label)
qed simp

lemma name_text_inj:
  assumes "list_all valid_label as" "list_all valid_label bs" "name_text as = name_text bs"
  shows "as = bs"
proof (cases "as = [] \<or> bs = []")
  case True
  with assms show ?thesis by (cases as; cases bs) (auto simp: valid_label_def)
next
  case False
  with assms show ?thesis
    using text_labels_name_text [of as False] text_labels_name_text [of bs False] by simp
qed

lemma write_name_loop_spec:
  "write_name_loop offset max_len downcase w p =
    (case text_labels p of
       None \<Rightarrow> Error
     | Some ls \<Rightarrow>
        let w' = w @ wire_of (map (map (if downcase then lower8 else id)) (filter (\<lambda>l. l \<noteq> []) ls))
        in if offset + length w' \<le> max_len \<and> length w' \<le> 255 then Ok w' else Error)"
proof (induction offset max_len downcase w p rule: write_name_loop.induct)
  case (1 offset max_len downcase w)
  then show ?case by (simp add: wire_of_def Let_def)
next
  case (2 offset max_len downcase w p)
  show ?case
  proof (cases "parse_label p")
    case None
    then show ?thesis by (simp add: text_labels.simps(2))
  next
    case (Some r)
    obtain l nx where r: "r = (l, nx)" by (cases r)
    then show ?thesis
      using 2 Some by (cases "text_labels nx") (simp_all add: wire_of_def Let_def text_labels.simps(2) [of p])
  qed
qed

lemma write_uncompressed_name_ext_spec:
  "write_uncompressed_name_ext offset max_len name downcase =
    (case text_labels (Some name) of
       None \<Rightarrow> Error
     | Some ls \<Rightarrow>
        let w = wire_of (map (map (if downcase then lower8 else id)) (filter (\<lambda>l. l \<noteq> []) ls))
        in if offset + length w \<le> max_len \<and> length w \<le> 255 then Ok w else Error)"
  by (simp only: write_uncompressed_name_ext_def write_name_loop_spec append_Nil)

lemma length_wire_labels: "length (wire_labels ls) = sum_list (map (\<lambda>l. length l + 1) ls)"
  by (induction ls) simp_all

lemma wire_name_length_loop_spec:
  "wire_name_length_loop n p =
    map_option (\<lambda>ls. n + length (wire_of (filter (\<lambda>l. l \<noteq> []) ls))) (text_labels p)"
proof (induction n p rule: wire_name_length_loop.induct)
  case (2 n p)
  show ?case
  proof (cases "parse_label p")
    case (Some r)
    obtain l nx where r: "r = (l, nx)" by (cases r)
    then show ?thesis
      using 2 Some by (cases "text_labels nx") (simp_all add: wire_of_def text_labels.simps(2) [of p])
  qed (simp add: text_labels.simps(2))
qed (simp add: wire_of_def)

section \<open>Normal form\<close>

lemma list_all_valid_nonempty: "list_all valid_label ls \<Longrightarrow> filter (\<lambda>l. l \<noteq> []) ls = ls"
  by (induction ls) (simp_all add: valid_label_def)

lemma text_labels_canonical:
  assumes "list_all valid_label ls"
  shows "map_option (filter (\<lambda>l. l \<noteq> [])) (text_labels (Some (name_text ls @ abs_dot d))) = Some ls"
proof (cases "ls = []")
  case True
  then show ?thesis
    by (cases d) (simp_all add: text_labels.simps(2) [of "[DOT]"] parse_label_def)
next
  case False
  with assms show ?thesis
    by (simp add: text_labels_name_text list_all_valid_nonempty del: abs_dot_simps)
qed

lemma parse_label_loop_last:
  "parse_label_loop acc s = Some (l, None) \<Longrightarrow> length acc \<le> length l \<and> (s \<noteq> [] \<longrightarrow> length acc < length l)"
proof (induction acc s rule: parse_label_loop.induct)
  case (2 acc c cs)
  then show ?case
    by (auto split: if_splits list.splits option.splits) (fastforce+)?
qed simp

lemma parse_label_empty_last: "parse_label s = Some ([], None) \<Longrightarrow> s = []"
  using parse_label_loop_last [of "[]" s "[]"] by (auto simp: parse_label_def)

lemma text_labels_Some_not_Nil: "text_labels (Some s) \<noteq> Some []"
  by (auto simp: text_labels.simps(2) [of s] split: option.splits)

lemma text_labels_no_labels:
  assumes "text_labels (Some s) = Some (if d then [[]] else [])"
  shows "s = [] \<and> d"
proof -
  have d: "d" using assms text_labels_Some_not_Nil [of s] by (cases d) auto
  then obtain nx where nx: "parse_label s = Some ([], nx)" "text_labels nx = Some []"
    using assms by (auto simp: text_labels.simps(2) [of s] split: option.splits)
  then have "nx = None" using text_labels_Some_not_Nil by (cases nx) auto
  with nx d show ?thesis by (simp add: parse_label_empty_last)
qed

text \<open>What a successful run has read and written.\<close>

definition joined :: "bytes \<Rightarrow> bytes list \<Rightarrow> bool \<Rightarrow> bytes" where
  "joined out ls d = out @ (if out \<noteq> [] \<and> ls \<noteq> [] then [DOT] else []) @ name_text ls @ abs_dot (d \<and> ls \<noteq> [])"

lemma joined_Cons:
  "l \<noteq> [] \<Longrightarrow> joined out (l # ls) d =
    (if ls = [] then (if out \<noteq> [] then out @ [DOT] else out) @ label_text l @ abs_dot d
     else joined ((if out \<noteq> [] then out @ [DOT] else out) @ label_text l) ls d)"
  by (simp add: joined_def)

lemma normalize_loop_sound:
  "normalize_loop cap out wl p = Ok t \<Longrightarrow>
    \<exists>ls d. text_labels p = Some (ls @ (if d then [[]] else [])) \<and> list_all valid_label ls \<and>
      (ls \<noteq> [] \<longrightarrow> wl + length (wire_labels ls) \<le> 255) \<and> t = joined out ls d \<and> length t < cap"
proof (induction "case p of None \<Rightarrow> 0 | Some s \<Rightarrow> Suc (length s)" arbitrary: p out wl rule: less_induct)
  case less
  note run = less.prems [unfolded normalize_loop.simps [of cap out wl p]]
  consider "p = None" | "p = Some []" | c cs where "p = Some (c # cs)"
    by (metis list.exhaust option.exhaust)
  then show ?case
  proof cases
    case 1
    with run show ?thesis by (auto simp: joined_def wr8_def split: if_splits)
  next
    case 2
    with run show ?thesis
      by (auto simp: joined_def wr8_def split: if_splits intro!: exI [of _ "[]"] exI [of _ True])
  next
    case 3
    define s where "s = c # cs"
    have p: "p = Some s" "s \<noteq> []" using 3 by (simp_all add: s_def)
    let ?out = "(if out \<noteq> [] then out @ [DOT] else out)"
    obtain l nx where l: "parse_label s = Some (l, nx)" "l \<noteq> []" "wl + (length l + 1) \<le> 255"
      and nx: "normalize_loop cap (?out @ label_text l @ abs_dot (nx = Some [])) (wl + (length l + 1)) nx = Ok t"
      using run p
      by (auto simp: s_def Let_def dns_label_to_text_spec abs_dot_def split: option.splits if_splits)
    have "(case nx of None \<Rightarrow> 0 | Some s \<Rightarrow> Suc (length s)) < (case p of None \<Rightarrow> 0 | Some s \<Rightarrow> Suc (length s))"
      using l(1) p by (auto split: option.splits)
    from less.hyps [OF this nx] obtain ls d where
      ls: "text_labels nx = Some (ls @ (if d then [[]] else []))" "list_all valid_label ls"
        "ls \<noteq> [] \<longrightarrow> wl + (length l + 1) + length (wire_labels ls) \<le> 255"
        "t = joined (?out @ label_text l @ abs_dot (nx = Some [])) ls d" "length t < cap" by blast
    have vl: "valid_label l" using l parse_label_length [OF l(1)] by (simp add: valid_label_def)
    have empty: "ls = [] \<longleftrightarrow> nx = None \<or> nx = Some []" and dot: "ls = [] \<Longrightarrow> d \<longleftrightarrow> nx = Some []"
      using ls(1,2) text_labels_no_labels [of _ d] by (cases nx; fastforce split: if_splits simp: valid_label_def)+
    have "t = joined out (l # ls) d"
      using ls(4) l(2) empty dot by (cases "ls = []") (auto simp: joined_Cons, auto simp: joined_def)
    moreover have "text_labels p = Some ((l # ls) @ (if d then [[]] else []))"
      using p l(1) ls(1) by (simp add: text_labels.simps(2))
    ultimately show ?thesis using ls l vl by (intro exI [of _ "l # ls"] exI [of _ d]) auto
  qed
qed

lemma normalize_loop_end:
  "length out < cap \<Longrightarrow> normalize_loop cap out wl None = Ok out"
  "length out < cap \<Longrightarrow> normalize_loop cap out wl (Some []) = Ok out"
  by (simp_all add: normalize_loop.simps [of cap out] wr8_def)

lemma normalize_loop_step:
  fixes out :: bytes
  defines "out' \<equiv> if out \<noteq> [] then out @ [DOT] else out"
  assumes "s \<noteq> []" "parse_label s = Some (l, nx)" "l \<noteq> []" "wl + length l + 1 \<le> 255"
    and "length (out' @ label_text l @ abs_dot (nx = Some [])) < cap"
  shows "normalize_loop cap out wl (Some s) =
    normalize_loop cap (out' @ label_text l @ abs_dot (nx = Some [])) (wl + (length l + 1)) nx"
  using assms
  by (subst normalize_loop.simps, cases s) (auto simp: dns_label_to_text_spec abs_dot_def Let_def)

lemma normalize_loop_complete:
  assumes "list_all valid_label ls" "ls \<noteq> []" "wl + length (wire_labels ls) \<le> 255"
    and "length (joined out ls d) < cap"
  shows "normalize_loop cap out wl (Some (name_text ls @ abs_dot d)) = Ok (joined out ls d)"
  using assms
proof (induction ls arbitrary: out wl)
  case (Cons l ls)
  then have l: "l \<noteq> []" "length l \<le> 63" by (simp_all add: valid_label_def)
  let ?out = "if out \<noteq> [] then out @ [DOT] else out"
  show ?case
  proof (cases "ls = []")
    case True
    with Cons.prems l show ?thesis
      by (cases d) (auto simp: normalize_loop_step normalize_loop_end joined_Cons)
  next
    case False
    have nt: "name_text ls \<noteq> []" using False Cons.prems(1) by (cases ls) (auto simp: valid_label_def)
    let ?rest = "name_text ls @ abs_dot d"
    have len: "length (joined (?out @ label_text l) ls d) < cap"
      using Cons.prems(4) l False by (simp add: joined_Cons)
    have "normalize_loop cap out wl (Some (label_text l @ DOT # ?rest)) =
        normalize_loop cap (?out @ label_text l) (wl + (length l + 1)) (Some ?rest)"
      using normalize_loop_step [of "label_text l @ DOT # ?rest" l "Some ?rest" wl out cap] l nt len Cons.prems
      by (auto simp: joined_def)
    also have "\<dots> = Ok (joined (?out @ label_text l) ls d)"
      using Cons.prems False len by (intro Cons.IH) (auto simp: joined_Cons)
    finally show ?thesis using False l by (simp add: joined_Cons)
  qed
qed simp

lemma dns_name_normalize_sound:
  assumes "dns_name_normalize s cap = Ok t"
  shows "\<exists>ls d. valid_name ls \<and> t = name_text ls @ abs_dot d \<and> length t < cap \<and>
    map_option (filter (\<lambda>l. l \<noteq> [])) (text_labels (Some s)) = Some ls"
proof (cases "s = [] \<or> s = [DOT]")
  case True
  with assms text_labels_canonical [of "[]" False] text_labels_canonical [of "[]" True] show ?thesis
    by (intro exI [of _ "[]"] exI [of _ "s = [DOT]"])
       (auto simp: dns_name_normalize_def valid_name_def wire_of_def split: if_splits)
next
  case False
  with assms have run: "normalize_loop cap [] 1 (Some s) = Ok t"
    by (simp add: dns_name_normalize_def split: if_splits)
  from normalize_loop_sound [OF this] obtain ls d where
    ls: "text_labels (Some s) = Some (ls @ (if d then [[]] else []))" "list_all valid_label ls"
      "ls \<noteq> [] \<longrightarrow> 1 + length (wire_labels ls) \<le> 255" "t = joined [] ls d" "length t < cap" by blast
  have "ls \<noteq> []" using ls(1) text_labels_no_labels [of s d] False by auto
  with ls list_all_valid_nonempty [OF ls(2)] show ?thesis
    by (intro exI [of _ ls] exI [of _ d]) (simp add: joined_def valid_name_def wire_of_def)
qed

lemma dns_name_normalize_complete:
  assumes "valid_name ls" "length (name_text ls @ abs_dot d) < cap" "2 \<le> cap"
  shows "dns_name_normalize (name_text ls @ abs_dot d) cap = Ok (name_text ls @ abs_dot d)"
proof (cases "ls = []")
  case True
  with assms show ?thesis by (cases d) (simp_all add: dns_name_normalize_def)
next
  case False
  obtain l ls' where l: "ls = l # ls'" "l \<noteq> []" using False assms(1)
    by (cases ls) (auto simp: valid_name_def valid_label_def)
  have "name_text ls @ abs_dot d \<noteq> [DOT]"
    using l by (cases l; cases ls'; cases d) (auto simp: char_text_def)
  moreover have "name_text ls @ abs_dot d \<noteq> []" using l by simp
  ultimately show ?thesis
    using normalize_loop_complete [of ls 1 "[]" d cap] assms False
    by (auto simp: dns_name_normalize_def joined_def valid_name_def wire_of_def)
qed

section \<open>Escapes and label boundaries\<close>

text \<open>
  Whether the character after a prefix is escaped, scanning from the left.  The
  backward count of \<open>dns_char_is_escaped\<close> computes the same.
\<close>

definition esc_scan :: "bool \<Rightarrow> bytes \<Rightarrow> bool" where
  "esc_scan e s = foldl (\<lambda>e c. \<not> e \<and> c = BSL) e s"

lemma esc_scan_simps [simp]:
  "esc_scan e [] = e"
  "esc_scan e (c # cs) = esc_scan (\<not> e \<and> c = BSL) cs"
  "esc_scan e (xs @ ys) = esc_scan (esc_scan e xs) ys"
  by (simp_all add: esc_scan_def)

lemma dns_char_is_escaped_scan:
  "pos \<le> length s \<Longrightarrow> dns_char_is_escaped s pos = esc_scan False (take pos s)"
  by (induction pos) (auto simp: dns_char_is_escaped_def take_Suc_conv_app_nth simp del: take_Suc_nth)

lemma dec3_not_special: "x \<in> set (dec3 c) \<Longrightarrow> x \<noteq> BSL \<and> x \<noteq> DOT"
proof -
  have "is_digit8 (word_of_nat (48 + k))" if "k < 10" for k
    using dec3_digit_value(1) that by blast
  moreover have "unat c div 100 < 10" using u8_less_256 [of c] by linarith
  ultimately have "\<forall>x\<in>set (dec3 c). is_digit8 x" by (simp only: dec3_def list.set) simp
  then show "x \<in> set (dec3 c) \<Longrightarrow> x \<noteq> BSL \<and> x \<noteq> DOT"
    using not_digit_DOT_BSL by blast
qed

lemma esc_scan_plain: "BSL \<notin> set s \<Longrightarrow> s \<noteq> [] \<Longrightarrow> \<not> esc_scan e s"
  by (induction s arbitrary: e) (auto, metis (full_types) esc_scan_simps(1))

lemma esc_scan_char_text [simp]: "\<not> esc_scan False (char_text c)"
proof -
  have "\<not> esc_scan True (dec3 c)"
    using dec3_not_special [of BSL c] by (intro esc_scan_plain) (auto simp: dec3_def)
  then show ?thesis by (simp add: char_text_def)
qed

lemma esc_scan_label_text [simp]: "\<not> esc_scan False (label_text l)"
  by (induction l) simp_all

lemma esc_scan_name_text [simp]: "\<not> esc_scan False (name_text ls)"
  by (induction ls) simp_all

lemma char_text_dot: "char_text c = P @ DOT # Q \<Longrightarrow> esc_scan False P"
  using dec3_not_special [of DOT c]
  by (auto simp: char_text_def Cons_eq_append_conv split: if_splits)

lemma label_text_dot: "label_text l = P @ DOT # Q \<Longrightarrow> esc_scan False P"
proof (induction l arbitrary: P)
  case (Cons c l)
  then obtain us where "char_text c = P @ us \<and> us @ label_text l = DOT # Q \<or>
      char_text c @ us = P \<and> label_text l = us @ DOT # Q"
    by (auto simp: append_eq_append_conv2)
  then show ?case
  proof
    assume a: "char_text c = P @ us \<and> us @ label_text l = DOT # Q"
    show ?thesis
    proof (cases us)
      case Nil
      with a Cons.IH [of "[]"] show ?thesis by simp
    next
      case (Cons u us')
      with a show ?thesis using char_text_dot [of c P us'] by simp
    qed
  next
    assume "char_text c @ us = P \<and> label_text l = us @ DOT # Q"
    with Cons.IH [of us] esc_scan_char_text [of c] show ?thesis by auto
  qed
qed simp

text \<open>An unescaped dot of a name's text separates two groups of its labels.\<close>

lemma name_text_dot:
  assumes "name_text ns = P @ DOT # A" and "\<not> esc_scan False P" and "list_all valid_label ns"
  shows "\<exists>ps as. ns = ps @ as \<and> A = name_text as \<and> as \<noteq> [] \<and> ps \<noteq> []"
  using assms
proof (induction ns arbitrary: P)
  case (Cons l ns)
  let ?T = "if ns = [] then [] else DOT # name_text ns"
  obtain us where "label_text l = P @ us \<and> us @ ?T = DOT # A \<or> label_text l @ us = P \<and> ?T = us @ DOT # A"
    using Cons.prems(1) by (auto simp only: name_text.simps append_eq_append_conv2)
  then show ?case
  proof
    assume a: "label_text l = P @ us \<and> us @ ?T = DOT # A"
    then have "us = []" using label_text_dot [of l P] Cons.prems(2) by (cases us) auto
    with a have "ns \<noteq> [] \<and> A = name_text ns" by (simp split: if_splits)
    then show ?thesis by (intro exI [of _ "[l]"] exI [of _ ns]) simp
  next
    assume a: "label_text l @ us = P \<and> ?T = us @ DOT # A"
    then have ns: "ns \<noteq> []" "DOT # name_text ns = us @ DOT # A" by (auto split: if_splits)
    show ?thesis
    proof (cases us)
      case Nil
      with ns show ?thesis by (intro exI [of _ "[l]"] exI [of _ ns]) simp
    next
      case (Cons u us')
      with ns have u: "u = DOT" "name_text ns = us' @ DOT # A" by simp_all
      have "\<not> esc_scan False us'" using Cons.prems(2) a u Cons by auto
      with Cons.IH [of us'] u Cons.prems(3) obtain ps as where
        "ns = ps @ as" "A = name_text as" "as \<noteq> []" by auto
      then show ?thesis by (intro exI [of _ "l # ps"] exI [of _ as]) simp
    qed
  qed
qed simp

lemma name_text_append:
  "ps \<noteq> [] \<Longrightarrow> as \<noteq> [] \<Longrightarrow> name_text (ps @ as) = name_text ps @ DOT # name_text as"
  by (induction ps) auto

section \<open>Equality, hashing and subdomains\<close>

lemma dns_name_len_no_root_text [simp]:
  assumes "list_all valid_label ls"
  shows "dns_name_len_no_root (name_text ls @ abs_dot d) (length (name_text ls @ abs_dot d)) = length (name_text ls)"
proof (cases d)
  case True
  then show ?thesis by (simp add: dns_name_len_no_root_def dns_char_is_escaped_scan)
next
  case False
  let ?n = "length (name_text ls)"
  have "dns_char_is_escaped (name_text ls) (?n - 1)" if "0 < ?n" "name_text ls ! (?n - 1) = DOT"
  proof (rule ccontr)
    assume "\<not> ?thesis"
    then have "\<not> esc_scan False (take (?n - 1) (name_text ls))" by (simp add: dns_char_is_escaped_scan)
    moreover have "name_text ls = take (?n - 1) (name_text ls) @ DOT # []"
      using that take_Suc_nth [of "?n - 1" "name_text ls"] by simp
    ultimately obtain as where "name_text as = []" "as \<noteq> []" "list_all valid_label as"
      using name_text_dot [of ls _ "[]"] assms by (metis list_all_append)
    then show False by (cases as) (auto simp: valid_label_def)
  qed
  then show ?thesis using False unfolding dns_name_len_no_root_def by auto
qed

lemma lower8_digit: "is_digit8 c \<Longrightarrow> lower8 c = c"
  by (auto simp: lower8_def is_upper_def is_digit8_def word_le_nat_alt)

lemma lower8_dec3: "map lower8 (dec3 c) = dec3 c"
proof -
  have "unat c div 100 < 10" using u8_less_256 [of c] by linarith
  then have "\<forall>x\<in>set (dec3 c). is_digit8 x"
    using dec3_digit_value(1) by (simp only: dec3_def list.set) simp
  then show ?thesis by (intro map_idI lower8_digit) blast
qed

lemma lower8_char_text: "map lower8 (char_text c) = char_text (lower8 c)"
proof -
  have "lower8 c = c" if "c < 0x21 \<or> 0x7F \<le> c"
    using that by (auto simp: lower8_def is_upper_def word_le_nat_alt word_less_nat_alt)
  moreover have "\<not> (lower8 c < 0x21 \<or> 0x7F \<le> lower8 c)" if "\<not> (c < 0x21 \<or> 0x7F \<le> c)"
    using that lower8_upper_facts [of c] by (auto simp: lower8_def word_le_nat_alt word_less_nat_alt)
  ultimately show ?thesis
    using lower8_dec3 [of c] lower8_eq_DOT [of c] lower8_eq_BSL [of c]
    by (auto simp: char_text_def)
qed

lemma lower8_label_text: "map lower8 (label_text l) = label_text (map lower8 l)"
  by (induction l) (simp_all add: lower8_char_text)

lemma fold_name_simps [simp]:
  "fold_name [] = []"
  "fold_name (l # ls) = map lower8 l # fold_name ls"
  "fold_name (as @ bs) = fold_name as @ fold_name bs"
  "fold_name as = [] \<longleftrightarrow> as = []"
  by (simp_all add: fold_name_def)

lemma lower8_name_text: "map lower8 (name_text ls) = name_text (fold_name ls)"
  by (induction ls) (simp_all add: lower8_label_text)

lemma fold_name_valid [simp]: "list_all valid_label (fold_name ls) = list_all valid_label ls"
  by (induction ls) (simp_all add: valid_label_def)

lemma name_text_case_eq:
  assumes "list_all valid_label as" "list_all valid_label bs"
  shows "strcaseeq (name_text as) (name_text bs) \<longleftrightarrow> fold_name as = fold_name bs"
  using assms name_text_inj [of "fold_name as" "fold_name bs"]
  by (auto simp: strcaseeq_def lower8_name_text)

lemma backslashes_before_lower:
  "p \<le> length s \<Longrightarrow> backslashes_before (map lower8 s) p = backslashes_before s p"
  by (induction p) auto

lemma dns_name_len_no_root_lower:
  "dns_name_len_no_root (map lower8 s) (length s) = dns_name_len_no_root s (length s)"
  by (cases "s = []") (auto simp: dns_name_len_no_root_def dns_char_is_escaped_def backslashes_before_lower)

lemma dns_name_len_no_root_case:
  "strcaseeq a b \<Longrightarrow> dns_name_len_no_root a (length a) = dns_name_len_no_root b (length b)"
  by (metis dns_name_len_no_root_lower strcaseeq_def strcaseeq_length)

lemma strcaseeq_take: "strcaseeq a b \<Longrightarrow> strcaseeq (take n a) (take n b)"
  by (simp add: strcaseeq_def take_map [symmetric])

text \<open>Comparing whole strings first is only a shortcut.\<close>

lemma domain_names_match_ci_iff:
  "domain_names_match_ci (Some a) (Some b) \<longleftrightarrow>
    dns_name_len_no_root a (length a) = dns_name_len_no_root b (length b) \<and>
    strcaseeq (take (dns_name_len_no_root a (length a)) a) (take (dns_name_len_no_root b (length b)) b)"
proof (cases "strcaseeq a b")
  case True
  then show ?thesis using dns_name_len_no_root_case [OF True]
    by (simp add: domain_names_match_ci_def strcaseeq_take)
qed (auto simp: domain_names_match_ci_def Let_def)

lemma take_len_no_root_text [simp]:
  "list_all valid_label ls \<Longrightarrow>
    take (dns_name_len_no_root (name_text ls @ abs_dot d) (length (name_text ls @ abs_dot d))) (name_text ls @ abs_dot d) =
      name_text ls"
  by (simp only: dns_name_len_no_root_text) simp

lemma domain_names_match_text:
  assumes "list_all valid_label as" "list_all valid_label bs"
  shows "domain_names_match_ci (Some (name_text as @ abs_dot d)) (Some (name_text bs @ abs_dot e)) \<longleftrightarrow>
    fold_name as = fold_name bs"
  using assms
  by (simp only: domain_names_match_ci_iff take_len_no_root_text)
     (auto simp only: dns_name_len_no_root_text name_text_case_eq [symmetric] dest: strcaseeq_length)

lemma esc_scan_lower: "esc_scan e (map lower8 s) = esc_scan e s"
  by (induction s arbitrary: e) simp_all

lemma suffix_at_dot:
  assumes "A \<noteq> []"
  shows "length A \<le> length N \<and> drop (length N - length A) N = A \<and>
      (length N = length A \<or> N ! (length N - length A - 1) = DOT \<and> \<not> esc_scan False (take (length N - length A - 1) N))
    \<longleftrightarrow> A = N \<or> (\<exists>P. N = P @ DOT # A \<and> \<not> esc_scan False P)" (is "?L \<longleftrightarrow> ?R")
proof
  assume L: ?L
  show ?R
  proof (cases "length N = length A")
    case False
    let ?i = "length N - length A - 1"
    have "N = take ?i N @ N ! ?i # drop (Suc ?i) N"
      using L False assms by (intro id_take_nth_drop) (cases N; cases A; auto)
    with L False show ?thesis by (intro disjI2 exI [of _ "take ?i N"]) (auto simp: Suc_diff_Suc)
  qed (use L in auto)
qed auto

lemma domain_name_is_at_or_below_text:
  assumes n: "list_all valid_label ns" and a: "list_all valid_label as"
  shows "domain_name_is_at_or_below (Some (name_text ns @ abs_dot d)) (Some (name_text as @ abs_dot e)) \<longleftrightarrow>
    suffix (fold_name as) (fold_name ns)"
proof (cases "as = []")
  case True
  then show ?thesis
    using dns_name_len_no_root_text [of "[]" e] by (simp add: domain_name_is_at_or_below_def)
next
  case False
  let ?N = "name_text (fold_name ns)" and ?A = "name_text (fold_name as)"
  have A0: "?A \<noteq> []" using False a by (cases as) (auto simp: valid_label_def)
  let ?nl = "length (name_text ns)" and ?al = "length (name_text as)"
  have len: "length ?N = ?nl" "length ?A = ?al" by (metis length_map lower8_name_text)+
  have "suffix (fold_name as) (fold_name ns) \<longleftrightarrow>
      ?A = ?N \<or> (\<exists>P. ?N = P @ DOT # ?A \<and> \<not> esc_scan False P)" (is "_ \<longleftrightarrow> ?R")
  proof
    assume "suffix (fold_name as) (fold_name ns)"
    then obtain ps where "fold_name ns = ps @ fold_name as" by (auto simp: suffix_def)
    then show ?R using False by (cases "ps = []") (auto simp: name_text_append)
  next
    assume ?R
    then show "suffix (fold_name as) (fold_name ns)"
    proof
      assume "?A = ?N"
      then show ?thesis using name_text_inj a n by (metis fold_name_valid suffix_order.refl)
    next
      assume "\<exists>P. ?N = P @ DOT # ?A \<and> \<not> esc_scan False P"
      then obtain ps as' where "fold_name ns = ps @ as'" "?A = name_text as'"
        using name_text_dot [of "fold_name ns" _ ?A] n by auto
      moreover have "list_all valid_label as'" using calculation n by (metis fold_name_valid list_all_append)
      ultimately show ?thesis using name_text_inj [of "fold_name as" as'] a by (simp add: suffix_def)
    qed
  qed
  moreover have "domain_name_is_at_or_below (Some (name_text ns @ abs_dot d)) (Some (name_text as @ abs_dot e)) \<longleftrightarrow>
      length ?A \<le> length ?N \<and> drop (length ?N - length ?A) ?N = ?A \<and> (length ?N = length ?A \<or>
        ?N ! (length ?N - length ?A - 1) = DOT \<and> \<not> esc_scan False (take (length ?N - length ?A - 1) ?N))"
    using A0 unfolding len domain_name_is_at_or_below_def option.case prod.case Let_def
      dns_name_len_no_root_text [OF n] dns_name_len_no_root_text [OF a] lower8_name_text [symmetric]
    by (auto simp: dns_char_is_escaped_scan strcaseeq_def esc_scan_lower take_map drop_map nth_append)
  ultimately show ?thesis using suffix_at_dot [OF A0, of ?N] by simp
qed

section \<open>Wire form of a normal form\<close>

lemma word_of_label_length:
  assumes "valid_label l" "valid_label m"
  shows "(word_of_nat (length l) :: u8) \<noteq> 0"
    and "(word_of_nat (length l) :: u8) = word_of_nat (length m) \<longleftrightarrow> length l = length m"
    and "unat (word_of_nat (length l) :: u8) = length l"
proof -
  have u: "unat (word_of_nat (length x) :: u8) = length x" if "valid_label x" for x
    using that by (simp add: valid_label_def unat_of_nat)
  show "unat (word_of_nat (length l) :: u8) = length l" using u assms by simp
  show "(word_of_nat (length l) :: u8) \<noteq> 0"
    using u [OF assms(1)] assms(1) by (metis length_0_conv unat_0 valid_label_def)
  show "(word_of_nat (length l) :: u8) = word_of_nat (length m) \<longleftrightarrow> length l = length m"
    using u assms by metis
qed

lemma wire_of_simps [simp]:
  "wire_of [] = [0]"
  "wire_of (l # ls) = word_of_nat (length l) # l @ wire_of ls"
  by (simp_all add: wire_of_def)

lemma wire_of_inj:
  assumes "list_all valid_label as" "list_all valid_label bs" "wire_of as = wire_of bs"
  shows "as = bs"
  using assms
proof (induction as arbitrary: bs)
  case Nil
  then show ?case using word_of_label_length(1) by (cases bs) (auto simp: valid_label_def)
next
  case (Cons a as)
  then show ?case
    using word_of_label_length by (cases bs) auto
qed

lemma length_wire_of_fold [simp]: "length (wire_of (fold_name ls)) = length (wire_of ls)"
  by (induction ls) simp_all

lemma fold_name_eq_map: "map (map lower8) ls = fold_name ls"
  by (simp add: fold_name_def)

lemma write_denotes:
  assumes "map_option (filter (\<lambda>l. l \<noteq> [])) (text_labels (Some s)) = Some ls"
  shows "write_uncompressed_name_ext offset max_len s downcase =
    (let w = wire_of (if downcase then fold_name ls else ls)
     in if offset + length w \<le> max_len \<and> length w \<le> 255 then Ok w else Error)"
  using assms by (auto simp: write_uncompressed_name_ext_spec fold_name_eq_map split: option.splits)

lemma write_name_text:
  assumes "valid_name ls"
  shows "write_uncompressed_name_ext offset max_len (name_text ls @ abs_dot d) downcase =
    (let w = wire_of (if downcase then fold_name ls else ls)
     in if offset + length w \<le> max_len then Ok w else Error)"
  using assms text_labels_canonical [of ls d] by (subst write_denotes) (auto simp: valid_name_def Let_def)

section \<open>Properties\<close>

text \<open>
  C4.  \<open>dns_name_normalize\<close> yields a normal form: what it returns is unchanged by a second
  normalisation into a buffer of the same size, and it denotes the same name, in that
  \<open>write_uncompressed_name_ext\<close> behaves the same on it as on the text it came from,
  for every position, limit and case mode, errors included.
\<close>

theorem dns_name_normalize_canonical:
  assumes "dns_name_normalize s cap = Ok t"
  shows "dns_name_normalize t cap = Ok t \<and>
    write_uncompressed_name_ext offset max_len t downcase =
      write_uncompressed_name_ext offset max_len s downcase"
proof -
  obtain ls d where ls: "valid_name ls" "t = name_text ls @ abs_dot d" "length t < cap"
      "map_option (filter (\<lambda>l. l \<noteq> [])) (text_labels (Some s)) = Some ls"
    using dns_name_normalize_sound [OF assms] by blast
  have "2 \<le> cap" using assms by (simp add: dns_name_normalize_def split: if_splits)
  with ls dns_name_normalize_complete [of ls d cap] have "dns_name_normalize t cap = Ok t" by simp
  moreover have "map_option (filter (\<lambda>l. l \<noteq> [])) (text_labels (Some t)) = Some ls"
    using ls(1,2) text_labels_canonical by (simp add: valid_name_def)
  ultimately show ?thesis using ls(4) by (simp add: write_denotes)
qed

theorem dns_name_normalize_canonical_witness:
  "dns_name_normalize [0x5C, 0x30, 0x36, 0x35, 0x2E, 0x63] 16 = Ok [0x41, 0x2E, 0x63] \<and>
   dns_name_normalize [0x41, 0x2E, 0x63] 16 = Ok [0x41, 0x2E, 0x63] \<and>
   write_uncompressed_name_ext 0 255 [0x41, 0x2E, 0x63] True =
     write_uncompressed_name_ext 0 255 [0x5C, 0x30, 0x36, 0x35, 0x2E, 0x63] True"
proof -
  have run: "dns_name_normalize [0x5C, 0x30, 0x36, 0x35, 0x2E, 0x63] 16 = Ok [0x41, 0x2E, 0x63]"
    by code_simp
  from run dns_name_normalize_canonical [OF run, of 0 255 True] show ?thesis by blast
qed

text \<open>
  C10.  \<open>domain_names_match_ci\<close> decides equality of names: two texts in normal form match
  exactly when the names they came from have the same lower-cased wire form (RFC 4343),
  whatever escapes or final dots they were written with.
\<close>

theorem domain_names_match_ci_wire:
  assumes "dns_name_normalize a cap = Ok t" and "dns_name_normalize b cap' = Ok u"
  shows "domain_names_match_ci (Some t) (Some u) \<longleftrightarrow>
    write_uncompressed_name 0 255 a = write_uncompressed_name 0 255 b"
proof -
  obtain as d where as: "valid_name as" "t = name_text as @ abs_dot d"
      "map_option (filter (\<lambda>l. l \<noteq> [])) (text_labels (Some a)) = Some as"
    using dns_name_normalize_sound [OF assms(1)] by blast
  obtain bs e where bs: "valid_name bs" "u = name_text bs @ abs_dot e"
      "map_option (filter (\<lambda>l. l \<noteq> [])) (text_labels (Some b)) = Some bs"
    using dns_name_normalize_sound [OF assms(2)] by blast
  have "domain_names_match_ci (Some t) (Some u) \<longleftrightarrow> fold_name as = fold_name bs"
    using as bs domain_names_match_text by (simp add: valid_name_def)
  also have "\<dots> \<longleftrightarrow> wire_of (fold_name as) = wire_of (fold_name bs)"
    using as(1) bs(1) wire_of_inj [of "fold_name as" "fold_name bs"] by (auto simp: valid_name_def)
  also have "\<dots> \<longleftrightarrow> write_uncompressed_name 0 255 a = write_uncompressed_name 0 255 b"
    using as bs by (simp add: write_uncompressed_name_def write_denotes valid_name_def)
  finally show ?thesis .
qed

theorem domain_names_match_ci_wire_witness:
  "dns_name_normalize [0x5C, 0x30, 0x36, 0x35, 0x2E, 0x63] 16 = Ok [0x41, 0x2E, 0x63] \<and>
   dns_name_normalize [0x61, 0x2E, 0x43, 0x2E] 16 = Ok [0x61, 0x2E, 0x43, 0x2E] \<and>
   (domain_names_match_ci (Some [0x41, 0x2E, 0x63]) (Some [0x61, 0x2E, 0x43, 0x2E]) \<longleftrightarrow>
    write_uncompressed_name 0 255 [0x5C, 0x30, 0x36, 0x35, 0x2E, 0x63] =
      write_uncompressed_name 0 255 [0x61, 0x2E, 0x43, 0x2E])"
proof -
  have a: "dns_name_normalize [0x5C, 0x30, 0x36, 0x35, 0x2E, 0x63] 16 = Ok [0x41, 0x2E, 0x63]"
    by code_simp
  have b: "dns_name_normalize [0x61, 0x2E, 0x43, 0x2E] 16 = Ok [0x61, 0x2E, 0x43, 0x2E]"
    by code_simp
  from a b domain_names_match_ci_wire [OF a b] show ?thesis by blast
qed

text \<open>
  C26.  \<open>domain_name_is_at_or_below\<close> decides the subdomain relation: on texts in normal form,
  with or without a final dot, it holds exactly when the labels of the apex are the last
  labels of the name, compared without regard to case.
\<close>

theorem domain_name_is_at_or_below_labels:
  assumes "valid_name ns" and "valid_name as"
  shows "domain_name_is_at_or_below (Some (name_text ns @ abs_dot d)) (Some (name_text as @ abs_dot e)) \<longleftrightarrow>
    suffix (fold_name as) (fold_name ns)"
  using assms domain_name_is_at_or_below_text by (simp add: valid_name_def)

theorem domain_name_is_at_or_below_labels_witness:
  "valid_name [[0x61, 0x2E], [0x62]] \<and> valid_name [[0x42]] \<and>
   (domain_name_is_at_or_below (Some (name_text [[0x61, 0x2E], [0x62]] @ abs_dot True)) (Some (name_text [[0x42]] @ abs_dot False)) \<longleftrightarrow>
     suffix (fold_name [[0x42]]) (fold_name [[0x61, 0x2E], [0x62]]))"
proof -
  have v: "valid_name [[0x61, 0x2E], [0x62]]" "valid_name [[0x42]]" by code_simp+
  from v domain_name_is_at_or_below_labels [OF v, of True False] show ?thesis by blast
qed

text \<open>
  C29.  Names that \<open>domain_names_match_ci\<close> identifies have the same \<open>dns_name_hash_ci\<close>, for
  arbitrary strings: a hash table keyed by it never misses a match.
\<close>

theorem dns_name_hash_ci_respects_match:
  assumes "domain_names_match_ci (Some a) (Some b)"
  shows "dns_name_hash_ci a = dns_name_hash_ci b"
proof -
  have fold: "foldl fnv_step h s = foldl (\<lambda>h c. (h XOR ucast c) * 16777619) h (map lower8 s)" for h s
    by (induction s arbitrary: h) (simp_all add: fnv_step_def)
  show ?thesis
    using assms unfolding dns_name_hash_ci_def fold domain_names_match_ci_iff strcaseeq_def
    by (elim conjE) (simp only:)
qed

theorem dns_name_hash_ci_respects_match_witness:
  "domain_names_match_ci (Some [0x41, 0x2E]) (Some [0x61]) \<and> dns_name_hash_ci [0x41, 0x2E] = dns_name_hash_ci [0x61]"
proof -
  have m: "domain_names_match_ci (Some [0x41, 0x2E]) (Some [0x61])" by code_simp
  from m dns_name_hash_ci_respects_match [OF m] show ?thesis by blast
qed

end
