(* ===== verification/Zone_Token.thy ===== *)
theory Zone_Token
  imports Names
begin

text \<open>
  \<open>dns_name_zone_token\<close> of \<^verbatim>\<open>src/dns_wire.c\<close>: names written as tokens of a zone file.
\<close>

text \<open>
  \<open>dns_name_zone_token\<close>: a name in normal form as a token of a zone file.  The escapes
  are copied, the characters that are special only to the zone-file lexer are escaped.
\<close>

definition zone_special :: "u8 \<Rightarrow> bool" where
  "zone_special c \<longleftrightarrow> c \<in> {0x3B, 0x22, 0x28, 0x29, 0x24, 0x40}"

function zone_token_loop :: "nat \<Rightarrow> bytes \<Rightarrow> bytes \<Rightarrow> bytes result" where
  "zone_token_loop cap out [] = wr8 cap out 0 (\<lambda>_. Ok out)"
| "zone_token_loop cap out (c # cs) =
    (let n = (if c = BSL then (case cs of d # _ \<Rightarrow> if is_digit8 d then 4 else 2 | [] \<Rightarrow> 2) else 1);
         esc = (c \<noteq> BSL \<and> zone_special c)
     in if length (c # cs) < n then Error
        else if cap \<le> length out + n + (if esc then 1 else 0) then Error
        else zone_token_loop cap (out @ (if esc then [BSL] else []) @ take n (c # cs)) (drop n (c # cs)))"
  by pat_completeness auto
termination
  by (relation "measure (\<lambda>(_, _, s). length s)") (auto split: list.splits)

declare zone_token_loop.simps(2) [simp del]

definition dns_name_zone_token :: "nat \<Rightarrow> bytes \<Rightarrow> bytes result" where
  "dns_name_zone_token cap name = (if cap = 0 then Error else zone_token_loop cap [] name)"

section \<open>Zone-file tokens\<close>

definition zone_char :: "u8 \<Rightarrow> bytes" where
  "zone_char c = (if zone_special c then [BSL, c] else char_text c)"

definition zone_label :: "bytes \<Rightarrow> bytes" where
  "zone_label l = concat (map zone_char l)"

fun zone_name :: "bytes list \<Rightarrow> bytes" where
  "zone_name [] = []"
| "zone_name (l # ls) = zone_label l @ (if ls = [] then [] else DOT # zone_name ls)"

lemma zone_special_facts:
  "zone_special c \<Longrightarrow> c \<noteq> BSL \<and> c \<noteq> DOT \<and> \<not> is_digit8 c \<and> char_text c = [c]"
  by (auto simp: zone_special_def is_digit8_def char_text_def)

lemma not_zone_special [simp]: "\<not> zone_special DOT"
  by (simp add: zone_special_def)

lemma zone_token_loop_step:
  "is_digit8 d \<Longrightarrow> zone_token_loop cap out (BSL # d # e # f # rest) =
    (if cap \<le> length out + 4 then Error else zone_token_loop cap (out @ [BSL, d, e, f]) rest)"
  "\<not> is_digit8 d \<Longrightarrow> zone_token_loop cap out (BSL # d # rest) =
    (if cap \<le> length out + 2 then Error else zone_token_loop cap (out @ [BSL, d]) rest)"
  "c \<noteq> BSL \<Longrightarrow> zone_token_loop cap out (c # rest) =
    (if cap \<le> length out + (if zone_special c then 2 else 1) then Error
     else zone_token_loop cap (out @ (if zone_special c then [BSL, c] else [c])) rest)"
  by (simp_all add: zone_token_loop.simps(2) Let_def)

lemma zone_token_char:
  "zone_token_loop cap out (char_text c @ rest) =
    (if length (out @ zone_char c) < cap then zone_token_loop cap (out @ zone_char c) rest else Error)"
proof -
  consider "c = DOT \<or> c = BSL" | "c \<noteq> DOT" "c \<noteq> BSL" "c < 0x21 \<or> 0x7F \<le> c"
    | "c \<noteq> DOT" "c \<noteq> BSL" "\<not> (c < 0x21 \<or> 0x7F \<le> c)" by blast
  then show ?thesis
  proof cases
    case 1
    then have "zone_char c = [BSL, c]" "char_text c = [BSL, c]" "\<not> is_digit8 c"
      by (auto simp: char_text_def zone_char_def)
    then show ?thesis by (simp add: zone_token_loop_step not_less)
  next
    case 2
    obtain d e f where dec: "dec3 c = [d, e, f]" by (simp add: dec3_def)
    have "is_digit8 (dec3 c ! 0)"
      unfolding dec3_def nth_Cons_0 using u8_less_256 [of c] by (intro dec3_digit_value(1)) linarith
    moreover have "\<not> zone_special c" using 2 by (auto simp: zone_special_def)
    ultimately show ?thesis
      using 2 dec by (simp add: zone_token_loop_step char_text_def zone_char_def not_less)
  next
    case 3
    then have "char_text c = [c]" by (simp add: char_text_def)
    with 3 show ?thesis
      by (simp add: zone_token_loop_step(3) zone_char_def not_less)
  qed
qed

lemma zone_token_loop_dot:
  "zone_token_loop cap out (DOT # rest) =
    (if length out + 1 < cap then zone_token_loop cap (out @ [DOT]) rest else Error)"
  by (simp add: zone_token_loop_step not_less)

lemma zone_token_label:
  "length out < cap \<Longrightarrow> zone_token_loop cap out (label_text l @ rest) =
    (if length (out @ zone_label l) < cap then zone_token_loop cap (out @ zone_label l) rest else Error)"
  by (induction l arbitrary: out) (auto simp: zone_token_char zone_label_def)

lemma zone_token_name:
  assumes "length out < cap"
  shows "zone_token_loop cap out (name_text ls @ rest) =
    (if length (out @ zone_name ls) < cap then zone_token_loop cap (out @ zone_name ls) rest else Error)"
  using assms
  by (induction ls arbitrary: out) (auto simp: zone_token_label zone_token_loop_dot)

lemma parse_label_loop_zone:
  "length acc + length l \<le> 63 \<Longrightarrow>
    parse_label_loop acc (zone_label l @ rest) = parse_label_loop (acc @ l) rest"
proof (induction l arbitrary: acc)
  case (Cons c l)
  have "parse_label_loop acc (zone_char c @ t) = parse_label_loop (acc @ [c]) t" for t
    using Cons.prems zone_special_facts [of c]
    by (auto simp: zone_char_def parse_label_loop_char three_digits_not_digit)
  with Cons show ?case by (simp add: zone_label_def)
qed (simp add: zone_label_def)

lemma parse_label_zone [simp]:
  assumes "length l \<le> 63"
  shows "parse_label (zone_label l) = Some (l, None)"
    and "parse_label (zone_label l @ DOT # rest) = Some (l, Some rest)"
  using parse_label_loop_zone [of "[]" l "[]"] parse_label_loop_zone [of "[]" l "DOT # rest"] assms
  by (simp_all add: parse_label_def)

lemma text_labels_zone_label:
  assumes "length l \<le> 63"
  shows "text_labels (Some (zone_label l)) = Some [l]"
    and "text_labels (Some (zone_label l @ DOT # rest)) = map_option ((#) l) (text_labels (Some rest))"
  using assms by (simp_all add: text_labels.simps(2) [of "zone_label l"]
    text_labels.simps(2) [of "zone_label l @ DOT # rest"])

lemma text_labels_zone_name:
  assumes "list_all valid_label ls" and "ls \<noteq> []"
  shows "text_labels (Some (zone_name ls @ abs_dot d)) = Some (ls @ (if d then [[]] else []))"
  using assms
proof (induction ls)
  case (Cons l ls)
  then show ?case
    by (cases "ls = []"; cases d) (auto simp: valid_label_def text_labels_zone_label)
qed simp

lemma text_labels_zone_canonical:
  assumes "list_all valid_label ls"
  shows "map_option (filter (\<lambda>l. l \<noteq> [])) (text_labels (Some (zone_name ls @ abs_dot d))) = Some ls"
proof (cases "ls = []")
  case True
  then show ?thesis using text_labels_canonical [of "[]" d] by simp
next
  case False
  with assms show ?thesis
    by (simp add: text_labels_zone_name list_all_valid_nonempty del: abs_dot_simps)
qed

text \<open>
  Every character that ends a token, opens a comment, a string or a group, or starts a
  directive or the origin, stands behind a backslash.
\<close>

definition lexer_special :: "u8 \<Rightarrow> bool" where
  "lexer_special c \<longleftrightarrow> zone_special c \<or> c = 0x20 \<or> c = 0x09 \<or> c = 0x0A \<or> c = 0x0D"

definition lexer_safe :: "bytes \<Rightarrow> bool" where
  "lexer_safe s \<longleftrightarrow> (\<forall>i < length s. lexer_special (s ! i) \<longrightarrow> esc_scan False (take i s))"

lemma lexer_safe_append:
  "\<lbrakk>lexer_safe xs; \<not> esc_scan False xs; lexer_safe ys\<rbrakk> \<Longrightarrow> lexer_safe (xs @ ys)"
  by (auto simp: lexer_safe_def nth_append)

lemma lexer_safe_plain: "(\<And>c. c \<in> set s \<Longrightarrow> \<not> lexer_special c) \<Longrightarrow> lexer_safe s"
  by (auto simp: lexer_safe_def)

lemma not_lexer_special [simp]: "\<not> lexer_special DOT" "\<not> lexer_special BSL"
  by (simp_all add: lexer_special_def zone_special_def)

lemma zone_char_safe: "lexer_safe (zone_char c) \<and> \<not> esc_scan False (zone_char c)"
proof (cases "zone_special c")
  case True
  then show ?thesis
    using zone_special_facts [of c] by (auto simp: zone_char_def lexer_safe_def less_Suc_eq)
next
  case False
  have "\<not> lexer_special x" if "x \<in> set (dec3 c)" for x
  proof -
    have "unat c div 100 < 10" using u8_less_256 [of c] by linarith
    with that have "is_digit8 x"
      using dec3_digit_value(1) by (simp only: dec3_def list.set) auto
    then show ?thesis by (auto simp: lexer_special_def zone_special_def is_digit8_def)
  qed
  moreover have "\<not> lexer_special c" if "\<not> (c < 0x21 \<or> 0x7F \<le> c)"
    using that False by (auto simp: lexer_special_def)
  ultimately have "lexer_safe (char_text c)"
    by (intro lexer_safe_plain) (auto simp: char_text_def split: if_splits)
  with False show ?thesis by (simp add: zone_char_def)
qed

lemma zone_label_safe: "lexer_safe (zone_label l) \<and> \<not> esc_scan False (zone_label l)"
proof (induction l)
  case (Cons c l)
  then show ?case using zone_char_safe [of c] by (simp add: zone_label_def lexer_safe_append)
qed (simp add: zone_label_def lexer_safe_def)

lemma lexer_safe_DOT [simp]: "lexer_safe [DOT]"
  by (rule lexer_safe_plain) simp

lemma lexer_safe_dot: "lexer_safe s \<Longrightarrow> lexer_safe (DOT # s)"
  using lexer_safe_append [of "[DOT]" s] by simp

lemma zone_name_safe: "lexer_safe (zone_name ls) \<and> \<not> esc_scan False (zone_name ls)"
proof (induction ls)
  case (Cons l ls)
  then show ?case
    using zone_label_safe [of l] by (cases "ls = []") (auto simp: lexer_safe_append lexer_safe_dot)
qed (simp add: lexer_safe_def)

lemma dns_name_zone_token_text:
  "dns_name_zone_token cap (name_text ls @ abs_dot d) =
    (if length (zone_name ls @ abs_dot d) < cap then Ok (zone_name ls @ abs_dot d) else Error)"
  by (cases d) (auto simp: dns_name_zone_token_def zone_token_name zone_token_loop_dot wr8_def
    zone_token_name [where rest = "[]", simplified])



end
