(* ===== verification/Wire_Names.thy ===== *)
theory Wire_Names
  imports Names
begin

text \<open>
  Reading domain names out of DNS messages (\<^verbatim>\<open>src/dns_wire.c\<close>): \<open>skip_name_inplace\<close>,
  \<open>skip_wire_name\<close>, \<open>expand_wire_name_to_buffer\<close>, \<open>extract_wire_name_to_buffer\<close> and
  \<open>parse_query_question_fast\<close>.  A message is a list of octets; an access outside of it, or
  outside of the output buffer, is \<open>Fault\<close>.  The bitmap of visited pointer targets is a
  set of offsets.
\<close>

definition DNS_HEADER_SIZE :: nat where "DNS_HEADER_SIZE = 12"
definition DNS_NAME_TEXT_SIZE :: nat where "DNS_NAME_TEXT_SIZE = 1025"

section \<open>Operations\<close>

function skip_name_inplace :: "bytes \<Rightarrow> nat \<Rightarrow> nat \<Rightarrow> nat result" where
  "skip_name_inplace packet packet_len offset =
    (if packet_len \<le> offset then Error
     else rd8 packet offset (\<lambda>raw.
       if raw AND 0xC0 = 0xC0 then
         (if packet_len < offset + 2 then Error else Ok (offset + 2))
       else if raw AND 0xC0 = 0 then
         (if 63 < raw then Error
          else if raw = 0 then Ok (offset + 1)
          else skip_name_inplace packet packet_len (offset + (1 + unat raw)))
       else Error))"
  by pat_completeness auto
termination
  by (relation "measure (\<lambda>(_, packet_len, offset). packet_len - offset)") auto

declare skip_name_inplace.simps [simp del]

text \<open>The 14-bit target of a compression pointer.\<close>

definition ptr_target :: "u8 \<Rightarrow> u8 \<Rightarrow> nat" where
  "ptr_target hi lo = unat (be16 (hi AND 0x3F) lo)"

lemma unvisited_card:
  fixes n p :: nat
  shows "\<lbrakk>\<not> n \<le> p; p \<notin> visited\<rbrakk> \<Longrightarrow> card ({..<n} - visited) - Suc 0 < card ({..<n} - visited)"
  by (rule diff_less) (auto simp: card_gt_0_iff subset_iff not_le)

function skip_wire_name_loop :: "bytes \<Rightarrow> nat \<Rightarrow> nat \<Rightarrow> nat option \<Rightarrow> nat set \<Rightarrow> nat result" where
  "skip_wire_name_loop packet packet_len p jumped visited =
    (if packet_len \<le> p then Error
     else rd8 packet p (\<lambda>raw.
       if raw AND 0xC0 = 0xC0 then
         (if packet_len \<le> p + 1 then Error
          else rd8 packet (p + 1) (\<lambda>lo.
            let ptr = ptr_target raw lo in
            if packet_len \<le> ptr then Error
            else if ptr \<in> visited then Error
            else skip_wire_name_loop packet packet_len ptr
                   (case jumped of None \<Rightarrow> Some (p + 2) | Some j \<Rightarrow> Some j) (insert ptr visited)))
       else if raw AND 0xC0 = 0 then
         (if 63 < raw then Error
          else if raw = 0 then Ok (case jumped of None \<Rightarrow> p + 1 | Some j \<Rightarrow> j)
          else skip_wire_name_loop packet packet_len (p + (1 + unat raw)) jumped visited)
       else Error))"
  by pat_completeness auto
termination
  by (relation "(\<lambda>(packet, packet_len, p, jumped, visited). card ({..<packet_len} - visited)) <*mlex*>
      measure (\<lambda>(packet, packet_len, p, jumped, visited). packet_len - p)")
     (auto simp: wf_mlex mlex_iff dest: unvisited_card)

declare skip_wire_name_loop.simps [simp del]

definition skip_wire_name :: "bytes \<Rightarrow> nat \<Rightarrow> nat \<Rightarrow> nat result" where
  "skip_wire_name packet packet_len current_offset =
    (if packet_len \<le> current_offset then Error
     else skip_wire_name_loop packet packet_len current_offset None {})"

text \<open>\<open>len\<close> octets at \<open>p\<close>, handed to \<open>dns_label_to_text\<close>.\<close>

definition rd_label :: "bytes \<Rightarrow> nat \<Rightarrow> nat \<Rightarrow> (bytes \<Rightarrow> 'a result) \<Rightarrow> 'a result" where
  "rd_label packet p len k = (if p + len \<le> length packet then k (take len (drop p packet)) else Fault)"

lemma rd_label_cong [fundef_cong]:
  "\<lbrakk>packet = packet'; p = p'; len = len';
    \<And>l. p' + len' \<le> length packet' \<Longrightarrow> l = take len' (drop p' packet') \<Longrightarrow> k l = k' l\<rbrakk> \<Longrightarrow>
   rd_label packet p len k = rd_label packet' p' len' k'"
  by (simp add: rd_label_def)

text \<open>
  \<open>out\<close> is the text written so far (\<open>written\<close> is its length).  The result is the text
  without its NUL, and the offset after the name.
\<close>

function expand_loop ::
  "bytes \<Rightarrow> nat \<Rightarrow> nat \<Rightarrow> nat \<Rightarrow> nat option \<Rightarrow> nat set \<Rightarrow> bytes \<Rightarrow> nat \<Rightarrow> (bytes \<times> nat) result" where
  "expand_loop packet packet_len buf_size p jumped visited out total_wire_len =
    (if packet_len \<le> p then Error
     else rd8 packet p (\<lambda>raw.
       if raw AND 0xC0 = 0xC0 then
         (if packet_len \<le> p + 1 then Error
          else rd8 packet (p + 1) (\<lambda>lo.
            let ptr = ptr_target raw lo in
            if packet_len \<le> ptr then Error
            else if ptr \<in> visited then Error
            else expand_loop packet packet_len buf_size ptr
                   (case jumped of None \<Rightarrow> Some (p + 2) | Some j \<Rightarrow> Some j) (insert ptr visited)
                   out total_wire_len))
       else if raw AND 0xC0 = 0 then
         (if 63 < raw then Error
          else if 255 < total_wire_len + (1 + unat raw) then Error
          else if raw = 0 then
            (if out = [] then
               wr8 buf_size out DOT (\<lambda>out. wr8 buf_size out 0 (\<lambda>_.
                 Ok (out, case jumped of None \<Rightarrow> p + 1 | Some j \<Rightarrow> j)))
             else wr8 buf_size out 0 (\<lambda>_. Ok (out, case jumped of None \<Rightarrow> p + 1 | Some j \<Rightarrow> j)))
          else if packet_len < (p + 1) + unat raw \<or> buf_size < length out + 2 then Error
          else rd_label packet (p + 1) (unat raw) (\<lambda>label.
            bind_result (dns_label_to_text (buf_size - 2) out label) (\<lambda>out.
              wr8 buf_size out DOT (\<lambda>out.
                expand_loop packet packet_len buf_size ((p + 1) + unat raw) jumped visited out
                  (total_wire_len + (1 + unat raw))))))
       else Error))"
  by pat_completeness auto
termination
  by (relation "(\<lambda>(packet, packet_len, buf_size, p, jumped, visited, out, t). card ({..<packet_len} - visited)) <*mlex*>
      measure (\<lambda>(packet, packet_len, buf_size, p, jumped, visited, out, t). packet_len - p)")
     (auto simp: wf_mlex mlex_iff dest: unvisited_card)

declare expand_loop.simps [simp del]

definition expand_wire_name_to_buffer ::
  "bytes \<Rightarrow> nat \<Rightarrow> nat \<Rightarrow> nat \<Rightarrow> (bytes \<times> nat) result" where
  "expand_wire_name_to_buffer packet packet_len current_offset buf_size =
    (if packet_len \<le> current_offset \<or> buf_size < 2 then Error
     else expand_loop packet packet_len buf_size current_offset None {} [] 0)"

function extract_loop :: "bytes \<Rightarrow> nat \<Rightarrow> nat \<Rightarrow> nat \<Rightarrow> bytes \<Rightarrow> nat \<Rightarrow> (bytes \<times> nat) result" where
  "extract_loop packet packet_len buf_size p out total_wire_len =
    (if packet_len \<le> p then Error
     else rd8 packet p (\<lambda>len.
       if len AND 0xC0 \<noteq> 0 then Error
       else if 255 < total_wire_len + (1 + unat len) then Error
       else if len = 0 then
         (if out = [] then
            (if buf_size \<le> length out + 1 then Error
             else wr8 buf_size out DOT (\<lambda>out.
               if buf_size \<le> length out then Error
               else wr8 buf_size out 0 (\<lambda>_. Ok (out, p + 1))))
          else if buf_size \<le> length out then Error
          else wr8 buf_size out 0 (\<lambda>_. Ok (out, p + 1)))
       else if packet_len < (p + 1) + unat len \<or> buf_size \<le> length out + 1 then Error
       else rd_label packet (p + 1) (unat len) (\<lambda>label.
         bind_result (dns_label_to_text (buf_size - 1) out label) (\<lambda>out.
           wr8 buf_size out DOT (\<lambda>out.
             extract_loop packet packet_len buf_size ((p + 1) + unat len) out
               (total_wire_len + (1 + unat len)))))))"
  by pat_completeness auto
termination
  by (relation "measure (\<lambda>(_, packet_len, _, p, _, _). packet_len - p)") auto

declare extract_loop.simps [simp del]

definition extract_wire_name_to_buffer :: "bytes \<Rightarrow> nat \<Rightarrow> nat \<Rightarrow> nat \<Rightarrow> (bytes \<times> nat) result" where
  "extract_wire_name_to_buffer packet packet_len current_offset buf_size =
     extract_loop packet packet_len buf_size current_offset [] 0"

text \<open>
  \<open>parse_query_question_fast\<close>: the loop over the labels returns the text, the offset,
  \<open>qname_completed\<close> and \<open>too_long\<close>.
\<close>

function qname_loop ::
  "bytes \<Rightarrow> nat \<Rightarrow> nat \<Rightarrow> nat \<Rightarrow> bytes \<Rightarrow> nat \<Rightarrow> (bytes \<times> nat \<times> bool \<times> bool) result" where
  "qname_loop buf len qname_size offset out wire_len =
    (if len \<le> offset then Ok (out, offset, False, False)
     else rd8 buf offset (\<lambda>label_len.
       if label_len = 0 then Ok (out, offset + 1, True, False)
       else if label_len AND 0xC0 = 0xC0 then Ok (out, offset, False, False)
       else if 63 < label_len \<or> len < offset + 1 + unat label_len then Ok (out, offset, False, False)
       else if 255 < wire_len + (1 + unat label_len) then Ok (out, offset + 1, False, True)
       else if \<not> length out + 1 < qname_size then Ok (out, offset + 1, False, True)
       else rd_label buf (offset + 1) (unat label_len) (\<lambda>label.
         case dns_label_to_text (qname_size - 1) out label of
           Fault \<Rightarrow> Fault
         | Error \<Rightarrow> Ok (out, offset + 1, False, True)
         | Ok out' \<Rightarrow>
            if qname_size \<le> length out' + 1 then Ok (out, offset + 1, False, True)
            else wr8 qname_size out' DOT (\<lambda>out.
              qname_loop buf len qname_size (offset + 1 + unat label_len) out (wire_len + (1 + unat label_len))))))"
  by pat_completeness auto
termination
  by (relation "measure (\<lambda>(_, len, _, offset, _, _). len - offset)") auto

declare qname_loop.simps [simp del]

text \<open>What the function stores through its out parameters; \<open>None\<close> where it stores nothing.\<close>

record question_out =
  q_ok :: bool
  q_name :: bytes
  q_type :: "u16 option"
  q_class :: "u16 option"
  q_end :: "nat option"

definition question_fail :: "nat \<Rightarrow> question_out" where
  "question_fail off = \<lparr>q_ok = False, q_name = [], q_type = Some 0, q_class = Some 1, q_end = Some off\<rparr>"

definition parse_query_question_fast :: "bytes \<Rightarrow> nat \<Rightarrow> nat \<Rightarrow> question_out result" where
  "parse_query_question_fast buf len qname_size =
    (if len \<le> DNS_HEADER_SIZE \<or> qname_size = 0 then Ok (question_fail DNS_HEADER_SIZE)
     else bind_result (qname_loop buf len qname_size DNS_HEADER_SIZE [] 1) (\<lambda>(out, offset, qname_completed, too_long).
       if \<not> qname_completed \<or> too_long then Ok (question_fail offset)
       else if out = [] \<and> qname_size < 2 then
         Ok \<lparr>q_ok = False, q_name = [], q_type = None, q_class = None, q_end = None\<rparr>
       else
         let qname = (if out = [] then [DOT] else out) in
         if qname_size \<le> length qname then Fault
         else if offset + 4 \<le> len then
           rd16 buf offset (\<lambda>t. rd16 buf (offset + 2) (\<lambda>c.
             Ok \<lparr>q_ok = True, q_name = qname, q_type = Some t, q_class = Some c, q_end = Some (offset + 4)\<rparr>))
         else Ok \<lparr>q_ok = False, q_name = qname, q_type = Some 0, q_class = Some 1, q_end = Some offset\<rparr>))"

text \<open>\<open>wire_question_name_compressed\<close>, from \<open>offset\<close> on.\<close>

function question_compressed_loop :: "bytes \<Rightarrow> nat \<Rightarrow> nat \<Rightarrow> bool result" where
  "question_compressed_loop buf len offset =
    (if len \<le> offset then Ok False
     else rd8 buf offset (\<lambda>l.
       if l = 0 then Ok False
       else if l AND 0xC0 = 0xC0 then Ok True
       else if 63 < l then Ok False
       else question_compressed_loop buf len (offset + (1 + unat l))))"
  by pat_completeness auto
termination
  by (relation "measure (\<lambda>(_, len, offset). len - offset)") auto

declare question_compressed_loop.simps [simp del]

definition wire_question_name_compressed :: "bytes \<Rightarrow> nat \<Rightarrow> bool result" where
  "wire_question_name_compressed buf len = question_compressed_loop buf len DNS_HEADER_SIZE"

section \<open>The names of a message\<close>

text \<open>
  Specification (RFC 1035 4.1.4): the name at offset \<open>p\<close> has the labels \<open>ls\<close>, following
  compression pointers anywhere inside the first \<open>n\<close> octets; the last argument is the
  number of labels and pointers read.
\<close>

inductive wire_name :: "bytes \<Rightarrow> nat \<Rightarrow> nat \<Rightarrow> bytes list \<Rightarrow> nat \<Rightarrow> bool" for pkt :: bytes and n :: nat where
  root: "\<lbrakk>p < n; pkt ! p = 0\<rbrakk> \<Longrightarrow> wire_name pkt n p [] 0"
| label: "\<lbrakk>p < n; 0 < pkt ! p; pkt ! p \<le> 63; wire_name pkt n (p + 1 + unat (pkt ! p)) ls k\<rbrakk> \<Longrightarrow>
    wire_name pkt n p (take (unat (pkt ! p)) (drop (p + 1) pkt) # ls) (Suc k)"
| pointer: "\<lbrakk>p + 1 < n; pkt ! p AND 0xC0 = 0xC0; wire_name pkt n (ptr_target (pkt ! p) (pkt ! (p + 1))) ls k\<rbrakk> \<Longrightarrow>
    wire_name pkt n p ls (Suc k)"

definition dotted :: "bytes list \<Rightarrow> bytes" where
  "dotted ls = concat (map (\<lambda>l. label_text l @ [DOT]) ls)"

definition abs_name :: "bytes list \<Rightarrow> bytes" where
  "abs_name ls = name_text ls @ [DOT]"

lemma label_octet:
  assumes "raw \<le> (63 :: u8)"
  shows "raw AND 0xC0 = 0"
proof -
  have "unat raw < 2 ^ 6" using assms by (simp add: word_le_nat_alt)
  then have "take_bit 6 raw = raw"
    by (metis take_bit_nat_eq_self_iff unsigned_take_bit_eq word_unat_eq_iff)
  moreover have "take_bit 6 raw AND 0xC0 = raw AND take_bit 6 0xC0"
    by (simp only: take_bit_eq_mask ac_simps)
  ultimately show ?thesis by simp
qed

lemma label_octet_conv:
  assumes "raw AND 0xC0 = (0 :: u8)"
  shows "raw \<le> 63"
proof -
  have b: "\<not> bit raw 6 \<and> \<not> bit raw 7"
    using assms bit_and_iff [of raw "0xC0" 6] bit_and_iff [of raw "0xC0" 7] by simp
  have "bit raw n \<longrightarrow> bit (mask 6 :: u8) n" for n
    using b bit_u8_ge [of n raw] by (cases "n < 6"; cases "n = 6"; cases "n = 7") (auto simp: bit_simps)
  then have "raw AND mask 6 = raw" by (intro bit_eqI) (auto simp: bit_and_iff)
  then have "raw = take_bit 6 raw" by (simp add: take_bit_eq_mask)
  then have "unat raw = take_bit 6 (unat raw)" by (metis unsigned_take_bit_eq)
  then have "unat raw < 64" using take_bit_nat_less_exp [of 6 "unat raw"] by simp
  then show ?thesis by (simp add: word_le_nat_alt)
qed

lemma label_raw:
  "\<lbrakk>0 < raw; raw \<le> (63 :: u8)\<rbrakk> \<Longrightarrow> raw \<noteq> 0 \<and> \<not> 63 < raw \<and> raw AND 0xC0 = 0"
  using label_octet [of raw] by auto

inductive_cases wire_nameE: "wire_name pkt n p ls k"

lemma wire_name_valid: "wire_name pkt n p ls k \<Longrightarrow> n \<le> length pkt \<Longrightarrow> list_all valid_label ls"
proof (induction rule: wire_name.induct)
  case (label p ls k)
  have "p + 1 + unat (pkt ! p) < n" using label.hyps(4) by (auto elim: wire_nameE)
  with label show ?case
    by (auto simp: valid_label_def word_le_nat_alt word_less_nat_alt)
qed auto

lemma wire_name_det:
  "wire_name pkt n p ls k \<Longrightarrow> wire_name pkt n p ls' k' \<Longrightarrow> ls' = ls \<and> k' = k"
proof (induction arbitrary: ls' k' rule: wire_name.induct)
  case (root p)
  from root.prems root.hyps show ?case by (auto elim: wire_nameE)
next
  case (label p ls k)
  from label.prems label.hyps(1-3) label.IH show ?case
    by (cases rule: wire_name.cases) (auto dest: label_octet)
next
  case (pointer p ls k)
  from pointer.prems pointer.hyps(1,2) pointer.IH show ?case
    by (cases rule: wire_name.cases) (auto dest: label_octet)
qed

lemma dotted_simps [simp]:
  "dotted [] = []"
  "dotted (l # ls) = label_text l @ DOT # dotted ls"
  by (simp_all add: dotted_def)

lemma dotted_abs_name: "ls \<noteq> [] \<Longrightarrow> dotted ls = abs_name ls"
  by (induction ls rule: induct_list012) (simp_all add: abs_name_def)

lemma length_label_text: "length (label_text l) \<le> 4 * length l"
proof (induction l)
  case (Cons c l)
  have "length (char_text c) \<le> 4" by (simp add: char_text_def)
  with Cons show ?case by simp
qed simp

lemma length_dotted: "length (dotted ls) \<le> 4 * length (wire_labels ls)"
proof (induction ls)
  case (Cons l ls)
  then show ?case using length_label_text [of l] by simp
qed simp

text \<open>The text of a valid name fits in \<open>DNS_NAME_TEXT_SIZE\<close> octets, its NUL included.\<close>

lemma length_abs_name:
  assumes "valid_name ls"
  shows "length (abs_name ls) < DNS_NAME_TEXT_SIZE"
proof (cases "ls = []")
  case True
  then show ?thesis by (simp add: abs_name_def DNS_NAME_TEXT_SIZE_def)
next
  case False
  then show ?thesis
    using assms length_dotted [of ls] dotted_abs_name [of ls]
    by (simp add: valid_name_def wire_of_def DNS_NAME_TEXT_SIZE_def)
qed

lemma label_text_fits:
  "length out + length (label_text l) \<le> cap \<Longrightarrow> dns_label_to_text cap out l = Ok (out @ label_text l)"
  by (simp add: dns_label_to_text_spec)

lemma label_text_Ok:
  "dns_label_to_text cap out l = Ok r \<Longrightarrow> l \<noteq> [] \<Longrightarrow> r = out @ label_text l \<and> length r \<le> cap"
  by (auto simp: dns_label_to_text_spec split: if_splits)

lemma label_text_no_Fault [simp]: "dns_label_to_text cap out l \<noteq> Fault"
  by (simp add: dns_label_to_text_spec)

section \<open>Reading never leaves the buffers\<close>

lemma skip_name_inplace_no_Fault: "n \<le> length pkt \<Longrightarrow> skip_name_inplace pkt n p \<noteq> Fault"
  by (induction pkt n p rule: skip_name_inplace.induct)
     (subst skip_name_inplace.simps, auto simp: rd8_def)

lemma skip_wire_name_loop_no_Fault:
  "n \<le> length pkt \<Longrightarrow> skip_wire_name_loop pkt n p j vis \<noteq> Fault"
  by (induction pkt n p j vis rule: skip_wire_name_loop.induct)
     (subst skip_wire_name_loop.simps, auto simp: rd8_def Let_def)

text \<open>
  Induction along a walk over a message: a jump marks a new target, a label moves forward.
\<close>

lemma name_walk_induct [case_names step]:
  fixes n :: nat
  assumes step: "\<And>p vis. \<lbrakk>\<And>t. \<lbrakk>t < n; t \<notin> vis\<rbrakk> \<Longrightarrow> P t (insert t vis);
      \<And>q. \<lbrakk>p < q; p < n\<rbrakk> \<Longrightarrow> P q vis\<rbrakk> \<Longrightarrow> P p vis"
  shows "P p vis"
proof -
  let ?R = "(\<lambda>(p, vis). card ({..<n} - vis)) <*mlex*> measure (\<lambda>(p, vis). n - p)"
  have "wf ?R" by (simp add: wf_mlex)
  then have "case_prod P (p, vis)"
  proof (induction "(p, vis)" arbitrary: p vis rule: wf_induct_rule)
    case less
    show ?case
      using step [of vis p] less unvisited_card [of n _ vis]
      by (auto simp: mlex_iff not_le [symmetric])
  qed
  then show ?thesis by simp
qed

definition label_at :: "bytes \<Rightarrow> nat \<Rightarrow> bytes" where
  "label_at pkt p = take (unat (pkt ! p)) (drop (p + 1) pkt)"

lemma expand_loop_unfold:
  assumes "n \<le> length pkt" "length out < bs" "2 \<le> bs"
  shows "expand_loop pkt n bs p j vis out t =
    (if n \<le> p then Error
     else if pkt ! p AND 0xC0 = 0xC0 then
       (if n \<le> p + 1 \<or> n \<le> ptr_target (pkt ! p) (pkt ! (p + 1)) \<or> ptr_target (pkt ! p) (pkt ! (p + 1)) \<in> vis then Error
        else expand_loop pkt n bs (ptr_target (pkt ! p) (pkt ! (p + 1)))
               (case j of None \<Rightarrow> Some (p + 2) | Some j \<Rightarrow> Some j)
               (insert (ptr_target (pkt ! p) (pkt ! (p + 1))) vis) out t)
     else if 63 < pkt ! p \<or> 255 < t + (1 + unat (pkt ! p)) then Error
     else if pkt ! p = 0 then Ok (if out = [] then [DOT] else out, case j of None \<Rightarrow> p + 1 | Some j \<Rightarrow> j)
     else if n < (p + 1) + unat (pkt ! p) \<or> bs < length out + length (label_text (label_at pkt p)) + 2 then Error
     else expand_loop pkt n bs ((p + 1) + unat (pkt ! p)) j vis (out @ label_text (label_at pkt p) @ [DOT])
            (t + (1 + unat (pkt ! p))))"
proof -
  have small: "pkt ! p AND 0xC0 = 0" if "\<not> 63 < pkt ! p" using that label_octet by (simp add: not_less)
  show ?thesis
    using assms small
    by (subst expand_loop.simps; cases "n \<le> p"; cases "pkt ! p AND 0xC0 = 0xC0"; cases "pkt ! p = 0")
       (simp_all add: rd8_def wr8_def rd_label_def Let_def label_at_def dns_label_to_text_spec, auto)
qed

lemma expand_loop_no_Fault:
  assumes "n \<le> length pkt" "2 \<le> bs"
  shows "length out < bs \<Longrightarrow> expand_loop pkt n bs p j vis out t \<noteq> Fault"
proof (induction p vis arbitrary: j out t rule: name_walk_induct [of n])
  case (step p vis)
  show ?case
    using step assms by (subst expand_loop_unfold) auto
qed

section \<open>Expansion finds the name\<close>

lemma skip_wire_name_loop_unfold:
  assumes "n \<le> length pkt"
  shows "skip_wire_name_loop pkt n p j vis =
    (if n \<le> p then Error
     else if pkt ! p AND 0xC0 = 0xC0 then
       (if n \<le> p + 1 \<or> n \<le> ptr_target (pkt ! p) (pkt ! (p + 1)) \<or> ptr_target (pkt ! p) (pkt ! (p + 1)) \<in> vis then Error
        else skip_wire_name_loop pkt n (ptr_target (pkt ! p) (pkt ! (p + 1)))
               (case j of None \<Rightarrow> Some (p + 2) | Some j \<Rightarrow> Some j)
               (insert (ptr_target (pkt ! p) (pkt ! (p + 1))) vis))
     else if 63 < pkt ! p then Error
     else if pkt ! p = 0 then Ok (case j of None \<Rightarrow> p + 1 | Some j \<Rightarrow> j)
     else skip_wire_name_loop pkt n ((p + 1) + unat (pkt ! p)) j vis)"
proof -
  have small: "pkt ! p AND 0xC0 = 0" if "\<not> 63 < pkt ! p" using that label_octet by (simp add: not_less)
  show ?thesis
    using assms small by (subst skip_wire_name_loop.simps) (auto simp: rd8_def Let_def)
qed

lemma skip_name_inplace_unfold:
  assumes "n \<le> length pkt"
  shows "skip_name_inplace pkt n p =
    (if n \<le> p then Error
     else if pkt ! p AND 0xC0 = 0xC0 then (if n < p + 2 then Error else Ok (p + 2))
     else if 63 < pkt ! p then Error
     else if pkt ! p = 0 then Ok (p + 1)
     else skip_name_inplace pkt n ((p + 1) + unat (pkt ! p)))"
proof -
  have small: "pkt ! p AND 0xC0 = 0" if "\<not> 63 < pkt ! p" using that label_octet by (simp add: not_less)
  show ?thesis
    using assms small by (subst skip_name_inplace.simps) (auto simp: rd8_def)
qed

definition expanded :: "bytes \<Rightarrow> bytes list \<Rightarrow> bytes" where
  "expanded out ls = (if out = [] \<and> ls = [] then [DOT] else out @ dotted ls)"

lemma expand_loop_sound:
  assumes pkt: "n \<le> length pkt" "2 \<le> bs"
  shows "\<lbrakk>expand_loop pkt n bs p j vis out t = Ok (r, nx); length out < bs\<rbrakk> \<Longrightarrow>
    (\<exists>ls k. wire_name pkt n p ls k \<and> t + length (wire_of ls) \<le> 255 \<and> r = expanded out ls) \<and>
    skip_wire_name_loop pkt n p j vis = Ok nx \<and>
    (case j of None \<Rightarrow> skip_name_inplace pkt n p = Ok nx | Some e \<Rightarrow> nx = e)"
proof (induction p vis arbitrary: j out t rule: name_walk_induct [of n])
  case (step p vis)
  let ?raw = "pkt ! p" and ?ptr = "ptr_target (pkt ! p) (pkt ! (p + 1))"
  have run: "\<not> n \<le> p" using step.prems pkt by (auto simp: expand_loop_unfold)
  note unf = expand_loop_unfold [OF pkt(1) step.prems(2) pkt(2), of p j vis t]
  consider (ptr) "?raw AND 0xC0 = 0xC0" | (root) "?raw = 0" | (label) "?raw AND 0xC0 \<noteq> 0xC0" "?raw \<noteq> 0"
    by blast
  then show ?case
  proof cases
    case ptr
    then have c: "p + 1 < n" "?ptr < n" "?ptr \<notin> vis"
      and r: "expand_loop pkt n bs ?ptr (case j of None \<Rightarrow> Some (p + 2) | Some j \<Rightarrow> Some j) (insert ?ptr vis) out t = Ok (r, nx)"
      using step.prems(1) run unf by (auto split: if_splits)
    from step.IH(1) [OF c(2,3) r step.prems(2)] obtain ls k where
      "wire_name pkt n ?ptr ls k" "t + length (wire_of ls) \<le> 255" "r = expanded out ls"
      and sk: "skip_wire_name_loop pkt n ?ptr (case j of None \<Rightarrow> Some (p + 2) | Some j \<Rightarrow> Some j) (insert ?ptr vis) = Ok nx"
      and e: "nx = (case j of None \<Rightarrow> p + 2 | Some e \<Rightarrow> e)"
      by (auto split: option.splits)
    then show ?thesis
      using ptr c run wire_name.pointer [OF c(1) ptr]
      by (auto simp: skip_wire_name_loop_unfold [OF pkt(1), of p] skip_name_inplace_unfold [OF pkt(1), of p] split: option.splits)
  next
    case root
    then show ?thesis
      using step.prems(1) run unf wire_name.root [of p n pkt]
      by (auto simp: expanded_def skip_wire_name_loop_unfold [OF pkt(1), of p] skip_name_inplace_unfold [OF pkt(1), of p]
          split: if_splits option.splits intro!: exI [of _ "[]"])
  next
    case label
    let ?l = "label_at pkt p" and ?q = "(p + 1) + unat (pkt ! p)"
    have c: "?raw \<le> 63" "t + (1 + unat ?raw) \<le> 255" "?q \<le> n" "length (out @ label_text ?l @ [DOT]) < bs"
      and r: "expand_loop pkt n bs ?q j vis (out @ label_text ?l @ [DOT]) (t + (1 + unat ?raw)) = Ok (r, nx)"
      using step.prems(1) run label unf by (auto split: if_splits)
    have l: "length ?l = unat ?raw" using c(3) pkt(1) by (simp add: label_at_def)
    have "p < ?q" by simp
    from step.IH(2) [OF this _ r c(4)] run obtain ls k where
      ls: "wire_name pkt n ?q ls k" "t + (1 + unat ?raw) + length (wire_of ls) \<le> 255"
        "r = expanded (out @ label_text ?l @ [DOT]) ls"
      and sk: "skip_wire_name_loop pkt n ?q j vis = Ok nx"
      and e: "case j of None \<Rightarrow> skip_name_inplace pkt n ?q = Ok nx | Some e \<Rightarrow> nx = e"
      by auto
    have "wire_name pkt n p (?l # ls) (Suc k)"
      using wire_name.label [of p n pkt ls k] ls(1) c run label by (simp add: label_at_def word_neq_0_conv)
    then show ?thesis
      using ls(2,3) l sk e c label run
      by (auto simp: expanded_def skip_wire_name_loop_unfold [OF pkt(1), of p] skip_name_inplace_unfold [OF pkt(1), of p]
          not_less split: option.splits intro!: exI [of _ "?l # ls"] exI [of _ "Suc k"])
  qed
qed

text \<open>
  Conversely, no name that can be read is refused: a pointer target seen before would
  make the walk longer than itself.
\<close>

lemma wire_name_bound: "wire_name pkt n p ls k \<Longrightarrow> p < n"
  by (auto elim: wire_nameE)

lemma expand_loop_complete:
  assumes pkt: "n \<le> length pkt" "2 \<le> bs"
  shows "\<lbrakk>wire_name pkt n p ls k; \<And>v ls' m. \<lbrakk>v \<in> vis; wire_name pkt n v ls' m\<rbrakk> \<Longrightarrow> k \<le> m;
      t + length (wire_of ls) \<le> 255; length (out @ dotted ls) < bs\<rbrakk> \<Longrightarrow>
    \<exists>nx. expand_loop pkt n bs p j vis out t = Ok (expanded out ls, nx)"
proof (induction arbitrary: vis j out t rule: wire_name.induct)
  case (root p)
  have "length out < bs" using root.prems(3) by simp
  with root pkt show ?case by (simp add: expand_loop_unfold expanded_def)
next
  case (label p ls k)
  let ?l = "label_at pkt p" and ?q = "p + 1 + unat (pkt ! p)"
  have q: "?q < n" using label.hyps(4) by (rule wire_name_bound)
  then have l: "length ?l = unat (pkt ! p)" using pkt(1) by (simp add: label_at_def)
  have len: "length out < bs" using label.prems(3) by simp
  have raw: "pkt ! p AND 0xC0 = 0" using label.hyps(3) by (rule label_octet)
  have vis: "k \<le> m" if "v \<in> vis" "wire_name pkt n v ls' m" for v ls' m
    using label.prems(1) [OF that] by simp
  obtain nx where
    "expand_loop pkt n bs ?q j vis (out @ label_text ?l @ [DOT]) (t + (1 + unat (pkt ! p))) =
       Ok (expanded (out @ label_text ?l @ [DOT]) ls, nx)"
    using label.IH [of vis "t + (1 + unat (pkt ! p))" "out @ label_text ?l @ [DOT]" j] vis label.prems(2,3) l
    by (auto simp: label_at_def)
  then show ?case
    using label.hyps(1-3) label.prems(2,3) pkt len raw q l
    by (auto simp: expand_loop_unfold expanded_def label_at_def not_le not_less word_neq_0_conv)
next
  case (pointer p ls k)
  let ?ptr = "ptr_target (pkt ! p) (pkt ! (p + 1))"
  have ptr: "?ptr < n" "?ptr \<notin> vis"
    using pointer.hyps(3) wire_name_bound pointer.prems(1) [of ?ptr ls k] by auto
  have len: "length out < bs" using pointer.prems(3) by simp
  have vis: "k \<le> m" if "v \<in> insert ?ptr vis" "wire_name pkt n v ls' m" for v ls' m
    using that pointer.prems(1) [of v ls' m] wire_name_det [OF pointer.hyps(3), of ls' m] by auto
  obtain nx where
    "expand_loop pkt n bs ?ptr (case j of None \<Rightarrow> Some (p + 2) | Some j \<Rightarrow> Some j) (insert ?ptr vis) out t =
      Ok (expanded out ls, nx)"
    using pointer.IH [of "insert ?ptr vis" t out "case j of None \<Rightarrow> Some (p + 2) | Some j \<Rightarrow> Some j"]
      vis pointer.prems(2,3) by blast
  then show ?case using pointer.hyps(1,2) ptr pkt len by (auto simp: expand_loop_unfold)
qed

lemma expanded_Nil: "expanded [] ls = abs_name ls"
  using dotted_abs_name [of ls] by (cases "ls = []") (simp_all add: expanded_def abs_name_def)

lemma expand_wire_name_sound:
  assumes "n \<le> length pkt" "expand_wire_name_to_buffer pkt n p bs = Ok (t, nx)"
  shows "\<exists>ls k. wire_name pkt n p ls k \<and> valid_name ls \<and> t = abs_name ls"
    and "skip_wire_name pkt n p = Ok nx" and "skip_name_inplace pkt n p = Ok nx"
proof -
  have bs: "2 \<le> bs" "\<not> n \<le> p" and run: "expand_loop pkt n bs p None {} [] 0 = Ok (t, nx)"
    using assms(2) by (auto simp: expand_wire_name_to_buffer_def split: if_splits)
  note s = expand_loop_sound [OF assms(1) bs(1) run]
  show "\<exists>ls k. wire_name pkt n p ls k \<and> valid_name ls \<and> t = abs_name ls"
    using s bs wire_name_valid [OF _ assms(1)] by (fastforce simp: valid_name_def expanded_Nil)
  show "skip_wire_name pkt n p = Ok nx" "skip_name_inplace pkt n p = Ok nx"
    using s bs by (simp_all add: skip_wire_name_def)
qed

lemma expand_wire_name_complete:
  assumes "n \<le> length pkt" "wire_name pkt n p ls k" "valid_name ls" "length (abs_name ls) < bs"
  shows "\<exists>nx. expand_wire_name_to_buffer pkt n p bs = Ok (abs_name ls, nx)"
proof -
  have bs: "2 \<le> bs" using assms(4) by (simp add: abs_name_def)
  have "length ([] @ dotted ls) < bs" using assms(4) dotted_abs_name [of ls] by (cases "ls = []") auto
  with expand_loop_complete [OF assms(1) bs assms(2), of "{}" 0 "[]" None] assms(2,3) bs wire_name_bound show ?thesis
    by (auto simp: expand_wire_name_to_buffer_def valid_name_def expanded_Nil not_le)
qed

section \<open>The question name\<close>

text \<open>A name written without compression: its labels and the offset after it.\<close>

inductive plain_name :: "bytes \<Rightarrow> nat \<Rightarrow> nat \<Rightarrow> bytes list \<Rightarrow> nat \<Rightarrow> bool" for pkt :: bytes and n :: nat where
  root: "\<lbrakk>p < n; pkt ! p = 0\<rbrakk> \<Longrightarrow> plain_name pkt n p [] (p + 1)"
| label: "\<lbrakk>p < n; 0 < pkt ! p; pkt ! p \<le> 63; plain_name pkt n (p + 1 + unat (pkt ! p)) ls e\<rbrakk> \<Longrightarrow>
    plain_name pkt n p (take (unat (pkt ! p)) (drop (p + 1) pkt) # ls) e"

lemma plain_name_bound: "plain_name pkt n p ls e \<Longrightarrow> p < n"
  by (auto elim: plain_name.cases)

lemma plain_name_wire_name: "plain_name pkt n p ls e \<Longrightarrow> \<exists>k. wire_name pkt n p ls k"
  by (induction rule: plain_name.induct) (blast intro: wire_name.root wire_name.label)+

lemma plain_name_skip:
  assumes "n \<le> length pkt"
  shows "plain_name pkt n p ls e \<Longrightarrow> skip_name_inplace pkt n p = Ok e"
proof (induction rule: plain_name.induct)
  case (label p ls e)
  then show ?case
    using label_raw [of "pkt ! p"] by (simp add: skip_name_inplace_unfold [OF assms, of p])
qed (simp add: skip_name_inplace_unfold [OF assms])

lemma question_compressed_unfold:
  assumes "n \<le> length pkt"
  shows "question_compressed_loop pkt n p =
    (if n \<le> p \<or> pkt ! p = 0 then Ok False
     else if pkt ! p AND 0xC0 = 0xC0 then Ok True
     else if 63 < pkt ! p then Ok False
     else question_compressed_loop pkt n (p + (1 + unat (pkt ! p))))"
  using assms by (subst question_compressed_loop.simps) (auto simp: rd8_def)

lemma plain_name_not_compressed:
  assumes "n \<le> length pkt"
  shows "plain_name pkt n p ls e \<Longrightarrow> question_compressed_loop pkt n p = Ok False"
proof (induction rule: plain_name.induct)
  case (label p ls e)
  then show ?case
    using label_raw [of "pkt ! p"] by (simp add: question_compressed_unfold [OF assms, of p])
qed (simp add: question_compressed_unfold [OF assms])

lemma not_compressed_plain_name:
  assumes "n \<le> length pkt"
  shows "wire_name pkt n p ls k \<Longrightarrow> question_compressed_loop pkt n p = Ok False \<Longrightarrow> \<exists>e. plain_name pkt n p ls e"
proof (induction rule: wire_name.induct)
  case (label p ls k)
  then have "question_compressed_loop pkt n (p + 1 + unat (pkt ! p)) = Ok False"
    using label_raw [of "pkt ! p"] by (simp add: question_compressed_unfold [OF assms, of p])
  with label show ?case by (blast intro: plain_name.label)
next
  case (pointer p ls k)
  then have "pkt ! p \<noteq> 0" by auto
  with pointer show ?case by (simp add: question_compressed_unfold [OF assms, of p])
qed (auto intro: plain_name.root)

lemma qname_loop_unfold:
  assumes "n \<le> length pkt" "length out < qs"
  shows "qname_loop pkt n qs p out w =
    (if n \<le> p then Ok (out, p, False, False)
     else if pkt ! p = 0 then Ok (out, p + 1, True, False)
     else if 63 < pkt ! p \<or> n < p + 1 + unat (pkt ! p) then Ok (out, p, False, False)
     else if 255 < w + (1 + unat (pkt ! p)) \<or> qs < length out + length (label_text (label_at pkt p)) + 2
       then Ok (out, p + 1, False, True)
     else qname_loop pkt n qs (p + 1 + unat (pkt ! p)) (out @ label_text (label_at pkt p) @ [DOT]) (w + (1 + unat (pkt ! p))))"
proof -
  have small: "pkt ! p AND 0xC0 = 0" if "\<not> 63 < pkt ! p" using that label_octet by (simp add: not_less)
  show ?thesis
    using assms small
    by (subst qname_loop.simps; cases "n \<le> p"; cases "pkt ! p = 0"; cases "63 < pkt ! p")
       (simp_all add: rd8_def wr8_def rd_label_def Let_def label_at_def dns_label_to_text_spec, auto)
qed

lemma qname_loop_no_Fault:
  assumes "n \<le> length pkt"
  shows "length out < qs \<Longrightarrow> qname_loop pkt n qs p out w \<noteq> Fault"
proof (induction "n - p" arbitrary: p out w rule: less_induct)
  case less
  then show ?case using assms by (subst qname_loop_unfold) auto
qed

lemma qname_loop_sound:
  assumes "n \<le> length pkt"
  shows "\<lbrakk>qname_loop pkt n qs p out w = Ok (r, e, True, False); length out < qs; w \<le> 255\<rbrakk> \<Longrightarrow>
    \<exists>ls. plain_name pkt n p ls e \<and> r = out @ dotted ls \<and> w + length (wire_labels ls) \<le> 255 \<and> length r < qs"
proof (induction "n - p" arbitrary: p out w rule: less_induct)
  case less
  show ?case
  proof (cases "pkt ! p = 0")
    case True
    then show ?thesis
      using less.prems assms plain_name.root [of p n pkt]
      by (auto simp: qname_loop_unfold split: if_splits intro!: exI [of _ "[]"])
  next
    case False
    let ?q = "p + 1 + unat (pkt ! p)" and ?l = "label_at pkt p"
    have c: "p < n" "pkt ! p \<le> 63" "?q \<le> n" "w + (1 + unat (pkt ! p)) \<le> 255"
        "length (out @ label_text ?l @ [DOT]) < qs"
      and r: "qname_loop pkt n qs ?q (out @ label_text ?l @ [DOT]) (w + (1 + unat (pkt ! p))) = Ok (r, e, True, False)"
      using less.prems assms False by (auto simp: qname_loop_unfold [of n pkt out qs p w] split: if_splits)
    have "n - ?q < n - p" using c by simp
    from less.hyps [OF this r c(5,4)] obtain ls where
      "plain_name pkt n ?q ls e" "r = (out @ label_text ?l @ [DOT]) @ dotted ls"
      "w + (1 + unat (pkt ! p)) + length (wire_labels ls) \<le> 255" "length r < qs" by blast
    moreover have "length ?l = unat (pkt ! p)" using c(3) assms by (simp add: label_at_def)
    ultimately show ?thesis
      using plain_name.label [of p n pkt ls e] c False
      by (intro exI [of _ "?l # ls"]) (auto simp: label_at_def word_neq_0_conv)
  qed
qed

lemma qname_loop_complete:
  assumes "n \<le> length pkt"
  shows "\<lbrakk>plain_name pkt n p ls e; w + length (wire_labels ls) \<le> 255; length (out @ dotted ls) < qs\<rbrakk> \<Longrightarrow>
    qname_loop pkt n qs p out w = Ok (out @ dotted ls, e, True, False)"
proof (induction arbitrary: out w rule: plain_name.induct)
  case (root p)
  then show ?case using assms by (simp add: qname_loop_unfold)
next
  case (label p ls e)
  let ?q = "p + 1 + unat (pkt ! p)" and ?l = "label_at pkt p"
  have q: "?q < n" using label.hyps(4) by (rule plain_name_bound)
  then have l: "length ?l = unat (pkt ! p)" using assms by (simp add: label_at_def)
  have "length out < qs" using label.prems(2) by simp
  with label.hyps label.prems l q label.IH [of "w + (1 + unat (pkt ! p))" "out @ label_text ?l @ [DOT]"] show ?case
    by (simp add: qname_loop_unfold [OF assms, of out qs p w] label_at_def word_neq_0_conv not_le not_less)
qed

lemma extract_loop_unfold:
  assumes "n \<le> length pkt" "length out < bs"
  shows "extract_loop pkt n bs p out t =
    (if n \<le> p then Error
     else if pkt ! p AND 0xC0 \<noteq> 0 then Error
     else if 255 < t + (1 + unat (pkt ! p)) then Error
     else if pkt ! p = 0 then (if out = [] then (if bs < 2 then Error else Ok ([DOT], p + 1)) else Ok (out, p + 1))
     else if n < p + 1 + unat (pkt ! p) \<or> bs < length out + length (label_text (label_at pkt p)) + 1 then Error
     else extract_loop pkt n bs (p + 1 + unat (pkt ! p)) (out @ label_text (label_at pkt p) @ [DOT]) (t + (1 + unat (pkt ! p))))"
proof -
  have ne: "label_at pkt p \<noteq> []" if "pkt ! p \<noteq> 0" "\<not> n < p + 1 + unat (pkt ! p)"
    using that assms(1) unat_gt_0 [of "pkt ! p"] by (auto simp: label_at_def)
  then have "1 \<le> length (label_text (label_at pkt p))" if "pkt ! p \<noteq> 0" "\<not> n < p + 1 + unat (pkt ! p)"
    using that by (simp add: Suc_le_eq)
  then show ?thesis
    using assms
    by (subst extract_loop.simps; cases "n \<le> p"; cases "pkt ! p = 0"; cases "n < p + 1 + unat (pkt ! p)")
       (auto simp: rd8_def wr8_def rd_label_def label_at_def dns_label_to_text_spec)
qed

lemma extract_loop_full: "n \<le> length pkt \<Longrightarrow> bs \<le> length out \<Longrightarrow> out \<noteq> [] \<Longrightarrow> extract_loop pkt n bs p out t = Error"
  by (subst extract_loop.simps) (auto simp: rd8_def)

lemma extract_loop_sound:
  assumes "n \<le> length pkt"
  shows "\<lbrakk>extract_loop pkt n bs p out t = Ok (r, e); length out < bs\<rbrakk> \<Longrightarrow>
    \<exists>ls. plain_name pkt n p ls e \<and> r = expanded out ls \<and> t + length (wire_of ls) \<le> 255"
proof (induction "n - p" arbitrary: p out t rule: less_induct)
  case less
  note unf = extract_loop_unfold [OF assms less.prems(2), of p t]
  show ?case
  proof (cases "pkt ! p = 0")
    case True
    then show ?thesis
      using less.prems(1) unf plain_name.root [of p n pkt]
      by (auto simp: expanded_def split: if_splits intro!: exI [of _ "[]"])
  next
    case False
    let ?q = "p + 1 + unat (pkt ! p)" and ?l = "label_at pkt p" and ?out = "out @ label_text (label_at pkt p) @ [DOT]"
    have c: "p < n" "pkt ! p AND 0xC0 = 0" "?q \<le> n" "t + (1 + unat (pkt ! p)) \<le> 255"
      and r: "extract_loop pkt n bs ?q ?out (t + (1 + unat (pkt ! p))) = Ok (r, e)"
      using less.prems(1) False unf by (auto split: if_splits)
    have "length ?out < bs" using r extract_loop_full [OF assms, of bs ?out] by (cases "bs \<le> length ?out") auto
    moreover have "n - ?q < n - p" using c by simp
    ultimately obtain ls where ls: "plain_name pkt n ?q ls e" "r = expanded ?out ls"
      "t + (1 + unat (pkt ! p)) + length (wire_of ls) \<le> 255" using less.hyps r by blast
    have "length ?l = unat (pkt ! p)" using c(3) assms by (simp add: label_at_def)
    with ls show ?thesis
      using plain_name.label [of p n pkt ls e] c False label_octet_conv [OF c(2)]
      by (intro exI [of _ "?l # ls"]) (auto simp: label_at_def word_neq_0_conv expanded_def)
  qed
qed

lemma extract_loop_complete:
  assumes "n \<le> length pkt" "2 \<le> bs"
  shows "\<lbrakk>plain_name pkt n p ls e; t + length (wire_of ls) \<le> 255; length (out @ dotted ls) < bs\<rbrakk> \<Longrightarrow>
    extract_loop pkt n bs p out t = Ok (expanded out ls, e)"
proof (induction arbitrary: out t rule: plain_name.induct)
  case (root p)
  then show ?case using assms by (simp add: extract_loop_unfold expanded_def)
next
  case (label p ls e)
  let ?q = "p + 1 + unat (pkt ! p)" and ?l = "label_at pkt p"
  have q: "?q < n" using label.hyps(4) by (rule plain_name_bound)
  then have l: "length ?l = unat (pkt ! p)" using assms by (simp add: label_at_def)
  have raw: "pkt ! p \<noteq> 0" "pkt ! p AND 0xC0 = 0" using label_raw label.hyps by blast+
  have "length out < bs" using label.prems(2) by simp
  with label.hyps label.prems l q raw label.IH [of "t + (1 + unat (pkt ! p))" "out @ label_text ?l @ [DOT]"] show ?case
    by (simp add: extract_loop_unfold [OF assms(1), of out bs p t] label_at_def expanded_def)
qed

lemma question_safe:
  assumes "n \<le> length pkt"
  shows "parse_query_question_fast pkt n qs \<noteq> Fault"
proof (cases "n \<le> DNS_HEADER_SIZE \<or> qs = 0")
  case False
  have "qname_loop pkt n qs DNS_HEADER_SIZE [] 1 \<noteq> Fault"
    using qname_loop_no_Fault [OF assms] False by simp
  moreover have "length r < qs" if "qname_loop pkt n qs DNS_HEADER_SIZE [] 1 = Ok (r, e, True, False)" for r e
    using qname_loop_sound [OF assms that] False by auto
  ultimately show ?thesis
    using False assms
    by (cases "qname_loop pkt n qs DNS_HEADER_SIZE [] 1")
       (fastforce simp: parse_query_question_fast_def rd16_def rd8_def Let_def split: if_splits)+
qed (simp add: parse_query_question_fast_def)

section \<open>Properties\<close>

text \<open>
  C8.  Reading a name never leaves the message or the output buffer, whatever the octets of
  the message, the offset and the size of the buffer: neither \<open>skip_name_inplace\<close>,
  \<open>skip_wire_name\<close> nor \<open>expand_wire_name_to_buffer\<close> faults.  (All of them terminate on
  every input, compression loops included: they are total functions.)
\<close>

theorem wire_name_readers_safe:
  assumes "packet_len \<le> length packet"
  shows "skip_name_inplace packet packet_len p \<noteq> Fault \<and>
    skip_wire_name packet packet_len p \<noteq> Fault \<and>
    expand_wire_name_to_buffer packet packet_len p buf_size \<noteq> Fault"
  using assms skip_name_inplace_no_Fault skip_wire_name_loop_no_Fault expand_loop_no_Fault
  by (simp add: skip_wire_name_def expand_wire_name_to_buffer_def)

theorem wire_name_readers_safe_witness:
  "2 \<le> length [0xC0, 0 :: u8] \<and> skip_wire_name [0xC0, 0] 2 0 \<noteq> Fault"
  using wire_name_readers_safe [of 2 "[0xC0, 0]" 0 64] by simp



text \<open>
  C11.  Text and wire form are inverse: what \<open>expand_wire_name_to_buffer\<close> reads from a message
  is in normal form, and \<open>write_uncompressed_name_ext\<close> turns it back into the labels that
  stand in the message, with their case.
\<close>

theorem expand_write_roundtrip:
  assumes "packet_len \<le> length packet"
    and "expand_wire_name_to_buffer packet packet_len p buf_size = Ok (t, nx)"
  shows "dns_name_normalize t DNS_NAME_TEXT_SIZE = Ok t \<and>
    (\<exists>ls k. wire_name packet packet_len p ls k \<and>
       write_uncompressed_name_ext 0 255 t False = Ok (wire_of ls))"
proof -
  obtain ls k where ls: "wire_name packet packet_len p ls k" "valid_name ls" "t = abs_name ls"
    using expand_wire_name_sound(1) [OF assms] by blast
  have t: "t = name_text ls @ abs_dot True" using ls(3) by (simp add: abs_name_def)
  have "dns_name_normalize t DNS_NAME_TEXT_SIZE = Ok t"
    using dns_name_normalize_complete [OF ls(2), of True DNS_NAME_TEXT_SIZE] length_abs_name [OF ls(2)] t
    by (simp add: abs_name_def DNS_NAME_TEXT_SIZE_def)
  moreover have "write_uncompressed_name_ext 0 255 t False = Ok (wire_of ls)"
    using write_name_text [OF ls(2), of 0 255 True False] ls(2) t by (simp add: valid_name_def)
  ultimately show ?thesis using ls(1) by blast
qed

theorem expand_write_roundtrip_witness:
  "expand_wire_name_to_buffer [1, 0x2E, 0, 0xC0, 0] 5 3 64 = Ok ([BSL, DOT, DOT], 5) \<and>
   dns_name_normalize [BSL, DOT, DOT] DNS_NAME_TEXT_SIZE = Ok [BSL, DOT, DOT]"
proof -
  have e: "expand_wire_name_to_buffer [1, 0x2E, 0, 0xC0, 0] 5 3 64 = Ok ([BSL, DOT, DOT], 5)" by code_simp
  show ?thesis using expand_write_roundtrip [OF _ e] e by simp
qed


definition question_example :: bytes where
  "question_example = replicate 12 0 @ [1, 0x61, 0, 0, 1, 0, 1]"


text \<open>
  C28.  \<open>extract_wire_name_to_buffer\<close>, the reader of names that must not be compressed,
  accepts exactly the uncompressed names of at most 255 octets, and writes the same text
  as \<open>expand_wire_name_to_buffer\<close> does.
\<close>

theorem extract_wire_name_exact:
  assumes "packet_len \<le> length packet"
  shows "extract_wire_name_to_buffer packet packet_len p DNS_NAME_TEXT_SIZE = Ok (t, nx) \<longleftrightarrow>
    (\<exists>ls. plain_name packet packet_len p ls nx \<and> valid_name ls \<and> t = abs_name ls)"
proof
  assume "extract_wire_name_to_buffer packet packet_len p DNS_NAME_TEXT_SIZE = Ok (t, nx)"
  then obtain ls where ls: "plain_name packet packet_len p ls nx" "t = abs_name ls" "length (wire_of ls) \<le> 255"
    using extract_loop_sound [OF assms, of DNS_NAME_TEXT_SIZE p "[]" 0]
    by (auto simp: extract_wire_name_to_buffer_def expanded_Nil DNS_NAME_TEXT_SIZE_def)
  moreover have "list_all valid_label ls"
    using plain_name_wire_name [OF ls(1)] wire_name_valid [OF _ assms] by blast
  ultimately show "\<exists>ls. plain_name packet packet_len p ls nx \<and> valid_name ls \<and> t = abs_name ls"
    by (auto simp: valid_name_def)
next
  assume "\<exists>ls. plain_name packet packet_len p ls nx \<and> valid_name ls \<and> t = abs_name ls"
  then obtain ls where ls: "plain_name packet packet_len p ls nx" "valid_name ls" "t = abs_name ls" by blast
  have "length (dotted ls) < DNS_NAME_TEXT_SIZE"
    using length_abs_name [OF ls(2)] dotted_abs_name [of ls] by (cases "ls = []") (auto simp: DNS_NAME_TEXT_SIZE_def)
  with ls show "extract_wire_name_to_buffer packet packet_len p DNS_NAME_TEXT_SIZE = Ok (t, nx)"
    using extract_loop_complete [OF assms _ ls(1), of DNS_NAME_TEXT_SIZE 0 "[]"]
    by (simp add: extract_wire_name_to_buffer_def expanded_Nil valid_name_def DNS_NAME_TEXT_SIZE_def)
qed

theorem extract_wire_name_exact_witness:
  "(3 :: nat) \<le> length [1, 0x61, 0 :: u8] \<and>
   (\<exists>ls. plain_name [1, 0x61, 0] 3 0 ls 3 \<and> valid_name ls \<and> [0x61, DOT] = abs_name ls)"
proof -
  have "extract_wire_name_to_buffer [1, 0x61, 0] 3 0 DNS_NAME_TEXT_SIZE = Ok ([0x61, DOT], 3)" by code_simp
  then show ?thesis using extract_wire_name_exact [of 3 "[1, 0x61, 0]" 0 "[0x61, DOT]" 3] by simp
qed

end
