(* ===== verification/Message.thy ===== *)
theory Message
  imports Wire_Names
begin

text \<open>
  Whole messages (\<^verbatim>\<open>src/dns_wire.c\<close>): walking the sections, the checks of the question
  section, the serial of an IXFR request, the shape of a transfer request, finding and
  keeping the OPT record.  A C function that returns \<open>bool\<close> and stores results returns an
  option here.  \<open>try_result\<close> is the \<open>if (f(...) != 0 ...) return e;\<close> of the source.
\<close>

fun try_result :: "'a result \<Rightarrow> ('a \<Rightarrow> 'b result) \<Rightarrow> 'b result \<Rightarrow> 'b result" where
  "try_result (Ok x) k e = k x"
| "try_result Error k e = e"
| "try_result Fault k e = Fault"

section \<open>Resource records\<close>

text \<open>
  The fixed part behind an owner name at \<open>p\<close>: the offset behind the name, TYPE and
  RDLENGTH; \<open>e\<close> when the name is bad or the ten octets are not there.
\<close>

definition rr_fixed :: "bytes \<Rightarrow> nat \<Rightarrow> nat \<Rightarrow> (nat \<Rightarrow> u16 \<Rightarrow> nat \<Rightarrow> 'a result) \<Rightarrow> 'a result \<Rightarrow> 'a result" where
  "rr_fixed req req_len p k e =
    try_result (skip_wire_name req req_len p) (\<lambda>n.
      if req_len < n + 10 then e
      else rd16 req n (\<lambda>ty. rd16 req (n + 8) (\<lambda>rdlen. k n ty (unat rdlen)))) e"

text \<open>The loop of \<open>ixfr_request_client_serial\<close> over the answer section.\<close>

fun skip_rrs :: "bytes \<Rightarrow> nat \<Rightarrow> nat \<Rightarrow> nat \<Rightarrow> nat option result" where
  "skip_rrs req req_len 0 p = Ok (Some p)"
| "skip_rrs req req_len (Suc c) p =
    rr_fixed req req_len p (\<lambda>n ty rdlen.
      if req_len < n + 10 + rdlen then Ok None else skip_rrs req req_len c (n + 10 + rdlen)) (Ok None)"

definition rd32 :: "bytes \<Rightarrow> nat \<Rightarrow> (u32 \<Rightarrow> 'a result) \<Rightarrow> 'a result" where
  "rd32 buf i k = rd8 buf i (\<lambda>a. rd8 buf (i + 1) (\<lambda>b. rd8 buf (i + 2) (\<lambda>c. rd8 buf (i + 3) (\<lambda>d.
     k (be32 a b c d)))))"

definition ixfr_request_client_serial :: "bytes \<Rightarrow> nat \<Rightarrow> nat \<Rightarrow> u32 option result" where
  "ixfr_request_client_serial req req_len q_end' =
    (if req_len < DNS_HEADER_SIZE then Ok None
     else rd16 req 6 (\<lambda>ancount. rd16 req 8 (\<lambda>nscount.
       if nscount = 0 then Ok None
       else bind_result (skip_rrs req req_len (unat ancount) q_end') (\<lambda>r.
         case r of
           None \<Rightarrow> Ok None
         | Some p \<Rightarrow> rr_fixed req req_len p (\<lambda>n ty rdlen.
             let p = n + 10 in
             if ty \<noteq> 6 \<or> req_len < p + rdlen then Ok None
             else try_result (skip_wire_name req (p + rdlen) p) (\<lambda>next_p.
               try_result (skip_wire_name req (p + rdlen) next_p) (\<lambda>rp.
                 if p + rdlen < rp + 4 then Ok None
                 else rd32 req rp (\<lambda>serial. Ok (Some serial))) (Ok None)) (Ok None)) (Ok None)))))"

section \<open>The question section\<close>

text \<open>
  \<open>question_section_walk\<close>: whether the section is good, and \<open>*n_read\<close>.  The first name and
  class and the bitmap of the types seen are carried along; \<open>c\<close> questions are left.
\<close>

fun question_walk_loop ::
  "bytes \<Rightarrow> nat \<Rightarrow> u8 \<Rightarrow> nat \<Rightarrow> nat \<Rightarrow> nat \<Rightarrow> nat \<Rightarrow> bytes \<Rightarrow> u16 \<Rightarrow> u16 set \<Rightarrow> (bool \<times> nat) result" where
  "question_walk_loop req req_len opcode qd 0 i p first first_class seen = Ok (True, i)"
| "question_walk_loop req req_len opcode qd (Suc c) i p first first_class seen =
    try_result (expand_wire_name_to_buffer req req_len p DNS_NAME_TEXT_SIZE) (\<lambda>(name, nx).
      if req_len < nx + 4 then Ok (False, i)
      else rd16 req nx (\<lambda>ty. rd16 req (nx + 2) (\<lambda>cls.
        let ok0 = (\<not> ((opcode = 4 \<or> opcode = 5) \<and> (cls = 254 \<or> cls = 255)));
            ok = (if i = 0 then ok0
                  else ok0 \<and> strcaseeq first name \<and> cls = first_class \<and> ty \<notin> seen)
        in if \<not> ok then Ok (False, i)
           else question_walk_loop req req_len opcode qd c (i + 1) (nx + 4)
                  (if i = 0 then name else first) (if i = 0 then cls else first_class)
                  (if 1 < qd then insert ty (if i = 0 then {} else seen) else seen)))) (Ok (False, i))"

definition question_section_walk :: "bytes \<Rightarrow> nat \<Rightarrow> (bool \<times> nat) result" where
  "question_section_walk req req_len =
    rd8 req 2 (\<lambda>b2. rd16 req 4 (\<lambda>qd.
      if qd = 0 then Ok (True, 0)
      else bind_result (wire_question_name_compressed req req_len) (\<lambda>compressed.
        if compressed then Ok (False, 0)
        else question_walk_loop req req_len (drop_bit 3 b2 AND 0x0F) (unat qd) (unat qd) 0
               DNS_HEADER_SIZE [] 0 {})))"

definition dns_question_section_ok :: "bytes \<Rightarrow> nat \<Rightarrow> bool result" where
  "dns_question_section_ok req req_len =
    (if req_len < DNS_HEADER_SIZE then Ok False
     else bind_result (question_section_walk req req_len) (\<lambda>(ok, n). Ok ok))"

definition dns_error_qd_echo :: "bytes \<Rightarrow> nat \<Rightarrow> nat result" where
  "dns_error_qd_echo req req_len =
    (if req_len < DNS_HEADER_SIZE then Ok 0
     else rd8 req 2 (\<lambda>b2.
       let opcode = drop_bit 3 b2 AND 0x0F in
       if opcode \<noteq> 0 \<and> opcode \<noteq> 4 \<and> opcode \<noteq> 5 then Ok 0
       else bind_result (question_section_walk req req_len) (\<lambda>(ok, n).
         Ok (if ok \<or> opcode = 5 then n else 0))))"

section \<open>The OPT record\<close>

fun skip_questions :: "bytes \<Rightarrow> nat \<Rightarrow> nat \<Rightarrow> nat \<Rightarrow> nat option result" where
  "skip_questions msg msg_len 0 off = Ok (Some off)"
| "skip_questions msg msg_len (Suc c) off =
    try_result (skip_wire_name msg msg_len off) (\<lambda>n.
      if msg_len < n + 4 then Ok None else skip_questions msg msg_len c (n + 4)) (Ok None)"

fun find_opt_loop :: "bytes \<Rightarrow> nat \<Rightarrow> nat \<Rightarrow> nat \<Rightarrow> (nat \<times> nat) option result" where
  "find_opt_loop msg msg_len 0 off = Ok None"
| "find_opt_loop msg msg_len (Suc c) off =
    rr_fixed msg msg_len off (\<lambda>n ty rdlen.
      if msg_len < n + 10 + rdlen then Ok None
      else if ty = 41 then Ok (Some (off, n + 10 + rdlen - off))
      else find_opt_loop msg msg_len c (n + 10 + rdlen)) (Ok None)"

definition dns_find_opt_rr :: "bytes \<Rightarrow> nat \<Rightarrow> (nat \<times> nat) option result" where
  "dns_find_opt_rr msg msg_len =
    (if msg_len < DNS_HEADER_SIZE then Ok None
     else rd16 msg 4 (\<lambda>qd. rd16 msg 6 (\<lambda>an. rd16 msg 8 (\<lambda>ns. rd16 msg 10 (\<lambda>ar.
       bind_result (skip_questions msg msg_len (unat qd) DNS_HEADER_SIZE) (\<lambda>r.
         case r of
           None \<Rightarrow> Ok None
         | Some off \<Rightarrow> find_opt_loop msg msg_len (unat an + unat ns + unat ar) off))))))"

text \<open>\<open>memcpy(buf + i, bs, length bs)\<close> into a buffer that holds \<open>length buf\<close> octets.\<close>

definition blit :: "bytes \<Rightarrow> nat \<Rightarrow> bytes \<Rightarrow> (bytes \<Rightarrow> 'a result) \<Rightarrow> 'a result" where
  "blit buf i bs k =
    (if i + length bs \<le> length buf then k (take i buf @ bs @ drop (i + length bs) buf) else Fault)"

text \<open>\<open>dns_truncate_keep_opt\<close>: the new contents of the buffer and the new length.\<close>

definition dns_truncate_keep_opt :: "bytes \<Rightarrow> nat \<Rightarrow> nat \<Rightarrow> (bytes \<times> nat) result" where
  "dns_truncate_keep_opt res res_len qe0 =
    (if res_len < DNS_HEADER_SIZE then Ok (res, res_len)
     else
       let qe = (if qe0 < DNS_HEADER_SIZE \<or> res_len < qe0 then DNS_HEADER_SIZE else qe0) in
       bind_result (dns_find_opt_rr res res_len) (\<lambda>opt.
         blit res 6 [0, 0, 0, 0, 0, 0] (\<lambda>res1.
           case opt of
             Some (opt_off, opt_len) \<Rightarrow>
               if qe \<le> opt_off then
                 rd_label res1 opt_off opt_len (\<lambda>oct.
                   blit res1 qe oct (\<lambda>res2. blit res2 11 [1] (\<lambda>res3. Ok (res3, qe + opt_len))))
               else Ok (res1, qe)
           | None \<Rightarrow> Ok (res1, qe))))"

section \<open>Transfer requests\<close>

datatype xfr_shape_t =
    XFR_SHAPE_OK | XFR_SHAPE_SHORT | XFR_SHAPE_TOO_LONG | XFR_SHAPE_RESPONSE | XFR_SHAPE_OPCODE
  | XFR_SHAPE_RCODE | XFR_SHAPE_QDCOUNT | XFR_SHAPE_QUESTION | XFR_SHAPE_QTYPE | XFR_SHAPE_ANCOUNT
  | XFR_SHAPE_NSCOUNT | XFR_SHAPE_IXFR_SOA | XFR_SHAPE_ADDITIONAL | XFR_SHAPE_TRAILING

definition XFR_REQUEST_MAX_LEN :: nat where "XFR_REQUEST_MAX_LEN = 4096"

text \<open>\<open>xfr_shape_rr\<close>: type, offset and length of the RDATA (\<open>*start\<close> is \<open>p\<close>, the new \<open>*p\<close> their sum).\<close>

definition xfr_shape_rr :: "bytes \<Rightarrow> nat \<Rightarrow> nat \<Rightarrow> (u16 \<times> nat \<times> nat) option result" where
  "xfr_shape_rr req req_len p =
    rr_fixed req req_len p (\<lambda>n ty rdlen.
      if req_len < n + 10 + rdlen then Ok None else Ok (Some (ty, n + 10, rdlen))) (Ok None)"

text \<open>The options of the OPT record fill its RDATA exactly.\<close>

function options_fill :: "bytes \<Rightarrow> nat \<Rightarrow> nat \<Rightarrow> bool result" where
  "options_fill req rend off =
    (if off < rend then
       (if rend < off + 4 then Ok False
        else rd16 req (off + 2) (\<lambda>l.
          if rend < off + (4 + unat l) then Ok False else options_fill req rend (off + (4 + unat l))))
     else Ok True)"
  by pat_completeness auto
termination
  by (relation "measure (\<lambda>(_, rend, off). rend - off)") auto

declare options_fill.simps [simp del]

text \<open>The loop over the additional section; \<open>c\<close> records are left, the result is the offset after them.\<close>

fun xfr_additional :: "bytes \<Rightarrow> nat \<Rightarrow> nat \<Rightarrow> nat \<Rightarrow> nat \<Rightarrow> nat option result" where
  "xfr_additional req req_len 0 p n_opt = Ok (Some p)"
| "xfr_additional req req_len (Suc c) p n_opt =
    bind_result (xfr_shape_rr req req_len p) (\<lambda>r.
      case r of
        None \<Rightarrow> Ok None
      | Some (ty, rdata, rdlen) \<Rightarrow>
          if ty = 41 then
            rd8 req p (\<lambda>owner.
              if 1 < n_opt + 1 \<or> rdata \<noteq> p + 11 \<or> owner \<noteq> 0 then Ok None
              else bind_result (options_fill req (rdata + rdlen) rdata) (\<lambda>fill.
                if fill then xfr_additional req req_len c (rdata + rdlen) (n_opt + 1) else Ok None))
          else if (ty = 250 \<or> ty = 24) \<and> c = 0 then xfr_additional req req_len c (rdata + rdlen) n_opt
          else Ok None)"

definition xfr_tail :: "bytes \<Rightarrow> nat \<Rightarrow> nat \<Rightarrow> nat \<Rightarrow> u16 \<Rightarrow> nat \<Rightarrow> u32 \<Rightarrow> (xfr_shape_t + u16 \<times> nat \<times> u32) result" where
  "xfr_tail req req_len ar p qt qend serial =
    bind_result (xfr_additional req req_len ar p 0) (\<lambda>r.
      case r of
        None \<Rightarrow> Ok (Inl XFR_SHAPE_ADDITIONAL)
      | Some p \<Rightarrow> if p \<noteq> req_len then Ok (Inl XFR_SHAPE_TRAILING) else Ok (Inr (qt, qend, serial)))"

text \<open>
  \<open>xfr_request_shape\<close>: \<open>Inr (qtype, q_end, serial)\<close> is \<open>XFR_SHAPE_OK\<close>, \<open>Inl\<close> any other shape.
\<close>

definition xfr_request_shape :: "bytes \<Rightarrow> nat \<Rightarrow> (xfr_shape_t + u16 \<times> nat \<times> u32) result" where
  "xfr_request_shape req req_len =
    (if req_len < DNS_HEADER_SIZE then Ok (Inl XFR_SHAPE_SHORT)
     else if XFR_REQUEST_MAX_LEN < req_len then Ok (Inl XFR_SHAPE_TOO_LONG)
     else rd8 req 2 (\<lambda>b2. rd8 req 3 (\<lambda>b3.
       if b2 AND 0x80 \<noteq> 0 then Ok (Inl XFR_SHAPE_RESPONSE)
       else if drop_bit 3 b2 AND 0x0F \<noteq> 0 then Ok (Inl XFR_SHAPE_OPCODE)
       else if b3 AND 0x0F \<noteq> 0 then Ok (Inl XFR_SHAPE_RCODE)
       else rd16 req 4 (\<lambda>qd. rd16 req 6 (\<lambda>an. rd16 req 8 (\<lambda>ns. rd16 req 10 (\<lambda>ar.
         if qd \<noteq> 1 then Ok (Inl XFR_SHAPE_QDCOUNT)
         else bind_result (wire_question_name_compressed req req_len) (\<lambda>compressed.
           if compressed then Ok (Inl XFR_SHAPE_QUESTION)
           else try_result (skip_wire_name req req_len DNS_HEADER_SIZE) (\<lambda>p.
             if req_len < p + 4 then Ok (Inl XFR_SHAPE_QUESTION)
             else rd16 req p (\<lambda>qt.
               let p = p + 4 in
               if qt \<noteq> 252 \<and> qt \<noteq> 251 then Ok (Inl XFR_SHAPE_QTYPE)
               else if an \<noteq> 0 then Ok (Inl XFR_SHAPE_ANCOUNT)
               else if qt = 252 then
                 (if ns \<noteq> 0 then Ok (Inl XFR_SHAPE_NSCOUNT)
                  else xfr_tail req req_len (unat ar) p qt p 0)
               else if ns \<noteq> 1 then Ok (Inl XFR_SHAPE_NSCOUNT)
               else bind_result (xfr_shape_rr req req_len p) (\<lambda>r.
                 case r of
                   None \<Rightarrow> Ok (Inl XFR_SHAPE_IXFR_SOA)
                 | Some (ty, rdata, rdlen) \<Rightarrow>
                     if ty \<noteq> 6 then Ok (Inl XFR_SHAPE_IXFR_SOA)
                     else bind_result (ixfr_request_client_serial req req_len p) (\<lambda>s.
                       case s of
                         None \<Rightarrow> Ok (Inl XFR_SHAPE_IXFR_SOA)
                       | Some serial \<Rightarrow> xfr_tail req req_len (unat ar) (rdata + rdlen) qt p serial))))
             (Ok (Inl XFR_SHAPE_QUESTION))))))))))"

section \<open>Response header\<close>

text \<open>\<open>dns_init_response_header\<close> stores the first four octets of the response.\<close>

definition dns_init_response_header :: "bytes \<Rightarrow> u8 \<Rightarrow> bool \<Rightarrow> (bytes \<Rightarrow> 'a result) \<Rightarrow> 'a result" where
  "dns_init_response_header req rcode aa k =
    rd8 req 0 (\<lambda>r0. rd8 req 1 (\<lambda>r1. rd8 req 2 (\<lambda>r2. rd8 req 3 (\<lambda>r3.
      let query = (drop_bit 3 r2 AND 0x0F = 0) in
      k [r0, r1,
         0x80 OR (r2 AND 0x78) OR (if query then r2 AND 0x01 else 0) OR (if aa then 0x04 else 0),
         (if query then r3 AND 0x10 else 0) OR (rcode AND 0x0F)]))))"

section \<open>Bounds\<close>

lemma try_result_eq_Fault:
  "try_result r k e = Fault \<longleftrightarrow> r = Fault \<or> (\<exists>x. r = Ok x \<and> k x = Fault) \<or> r = Error \<and> e = Fault"
  by (cases r) auto

lemma try_result_eq_Ok:
  "try_result r k e = Ok y \<longleftrightarrow> (\<exists>x. r = Ok x \<and> k x = Ok y) \<or> r = Error \<and> e = Ok y"
  by (cases r) auto

lemma case_option_eq_Ok:
  "(case x of None \<Rightarrow> a | Some y \<Rightarrow> f y) = Ok r \<longleftrightarrow> x = None \<and> a = Ok r \<or> (\<exists>y. x = Some y \<and> f y = Ok r)"
  by (cases x) auto

lemma skip_name_inplace_bounds:
  assumes "n \<le> length pkt"
  shows "skip_name_inplace pkt n p = Ok nx \<Longrightarrow> p < nx \<and> nx \<le> n"
proof (induction "n - p" arbitrary: p rule: less_induct)
  case less
  have "n - ((p + 1) + unat (pkt ! p)) < n - p" if "\<not> n \<le> p" using that by simp
  then show ?case
    using less.prems less.hyps [of "(p + 1) + unat (pkt ! p)"]
    by (fastforce simp: skip_name_inplace_unfold [OF assms, of p] split: if_splits)
qed

lemma skip_wire_name_loop_inplace:
  assumes "n \<le> length pkt"
  shows "skip_wire_name_loop pkt n p j vis = Ok nx \<Longrightarrow>
    (case j of None \<Rightarrow> skip_name_inplace pkt n p = Ok nx | Some e \<Rightarrow> nx = e)"
proof (induction p vis arbitrary: j rule: name_walk_induct [of n])
  case (step p vis)
  have run: "skip_wire_name_loop pkt n p j vis = Ok nx" by (rule step.prems)
  show ?case
  proof (cases "pkt ! p AND 0xC0 = 0xC0")
    case True
    with run show ?thesis
      using step.IH(1) [of "ptr_target (pkt ! p) (pkt ! (p + 1))" "case j of None \<Rightarrow> Some (p + 2) | Some j \<Rightarrow> Some j"]
      by (auto simp: skip_wire_name_loop_unfold [OF assms, of p] skip_name_inplace_unfold [OF assms, of p]
          split: if_splits option.splits)
  next
    case False
    with run show ?thesis
      using step.IH(2) [of "(p + 1) + unat (pkt ! p)" j]
      by (auto simp: skip_wire_name_loop_unfold [OF assms, of p] skip_name_inplace_unfold [OF assms, of p]
          split: if_splits option.splits)
  qed
qed

lemma skip_wire_name_bounds:
  assumes "n \<le> length pkt" "skip_wire_name pkt n p = Ok nx"
  shows "p < nx" "nx \<le> n"
  using skip_wire_name_loop_inplace [OF assms(1), of p None "{}" nx] skip_name_inplace_bounds [OF assms(1), of p nx]
    assms(2) by (auto simp: skip_wire_name_def split: if_splits)

lemma skip_wire_name_no_Fault: "n \<le> length pkt \<Longrightarrow> skip_wire_name pkt n p \<noteq> Fault"
  by (simp add: skip_wire_name_def skip_wire_name_loop_no_Fault)

lemma expand_no_Fault: "n \<le> length pkt \<Longrightarrow> expand_wire_name_to_buffer pkt n p bs \<noteq> Fault"
  by (simp add: expand_wire_name_to_buffer_def expand_loop_no_Fault)

lemma rr_fixed_eq_Ok:
  assumes "n \<le> length pkt"
  shows "rr_fixed pkt n p k e = Ok y \<longleftrightarrow>
    (\<exists>q. skip_wire_name pkt n p = Ok q \<and>
       (if n < q + 10 then e = Ok y
        else k q (be16 (pkt ! q) (pkt ! (q + 1))) (unat (be16 (pkt ! (q + 8)) (pkt ! (q + 9)))) = Ok y)) \<or>
    skip_wire_name pkt n p = Error \<and> e = Ok y"
  using assms by (cases "skip_wire_name pkt n p") (auto simp: rr_fixed_def ac_simps)

lemma rr_fixed_eq_Fault:
  assumes "n \<le> length pkt"
  shows "rr_fixed pkt n p k e = Fault \<longleftrightarrow>
    (\<exists>q. skip_wire_name pkt n p = Ok q \<and>
       (if n < q + 10 then e = Fault
        else k q (be16 (pkt ! q) (pkt ! (q + 1))) (unat (be16 (pkt ! (q + 8)) (pkt ! (q + 9)))) = Fault)) \<or>
    skip_wire_name pkt n p = Error \<and> e = Fault"
  using assms skip_wire_name_no_Fault [OF assms, of p]
  by (cases "skip_wire_name pkt n p") (auto simp: rr_fixed_def ac_simps)

lemma skip_rrs_no_Fault: "n \<le> length pkt \<Longrightarrow> skip_rrs pkt n c p \<noteq> Fault"
  by (induction c arbitrary: p) (auto simp: rr_fixed_eq_Fault split: if_splits)

lemma ixfr_serial_no_Fault:
  assumes "n \<le> length pkt"
  shows "ixfr_request_client_serial pkt n q \<noteq> Fault"
  using assms skip_rrs_no_Fault [OF assms] skip_wire_name_no_Fault
  by (auto simp: ixfr_request_client_serial_def DNS_HEADER_SIZE_def bind_result_eq_Fault try_result_eq_Fault
      rr_fixed_eq_Fault [OF assms] Let_def rd32_def rd8_def split: option.splits if_splits)

lemma question_compressed_no_Fault:
  assumes "n \<le> length pkt"
  shows "question_compressed_loop pkt n p \<noteq> Fault"
proof (induction "n - p" arbitrary: p rule: less_induct)
  case less
  then show ?case by (subst question_compressed_unfold [OF assms]) auto
qed

lemma question_walk_no_Fault:
  assumes "n \<le> length pkt"
  shows "question_walk_loop pkt n oc qd c i p f fc seen \<noteq> Fault"
  using expand_no_Fault [OF assms]
proof (induction c arbitrary: i p f fc seen)
  case (Suc c)
  then show ?case using assms by (auto simp: try_result_eq_Fault Let_def)
qed simp

lemma question_section_walk_no_Fault:
  "n \<le> length pkt \<Longrightarrow> DNS_HEADER_SIZE \<le> n \<Longrightarrow> question_section_walk pkt n \<noteq> Fault"
  by (auto simp: question_section_walk_def DNS_HEADER_SIZE_def bind_result_eq_Fault question_walk_no_Fault
      wire_question_name_compressed_def question_compressed_no_Fault)

lemma skip_questions_no_Fault: "n \<le> length pkt \<Longrightarrow> skip_questions pkt n c p \<noteq> Fault"
  by (induction c arbitrary: p) (auto simp: try_result_eq_Fault skip_wire_name_no_Fault)

lemma find_opt_no_Fault: "n \<le> length pkt \<Longrightarrow> find_opt_loop pkt n c p \<noteq> Fault"
  by (induction c arbitrary: p) (auto simp: rr_fixed_eq_Fault split: if_splits)

lemma dns_find_opt_rr_no_Fault: "n \<le> length pkt \<Longrightarrow> dns_find_opt_rr pkt n \<noteq> Fault"
  by (auto simp: dns_find_opt_rr_def DNS_HEADER_SIZE_def bind_result_eq_Fault skip_questions_no_Fault
      find_opt_no_Fault split: option.splits)

lemma find_opt_bounds:
  assumes "n \<le> length pkt"
  shows "find_opt_loop pkt n c p = Ok (Some (off, l)) \<Longrightarrow> p \<le> off \<and> off + l \<le> n \<and> 11 \<le> l"
proof (induction c arbitrary: p)
  case (Suc c)
  then obtain q where q: "skip_wire_name pkt n p = Ok q"
    by (auto simp: rr_fixed_eq_Ok [OF assms])
  with Suc show ?case
    using skip_wire_name_bounds [OF assms q]
    by (fastforce simp: rr_fixed_eq_Ok [OF assms] split: if_splits)
qed simp

lemma options_fill_no_Fault:
  assumes "rend \<le> length pkt"
  shows "options_fill pkt rend off \<noteq> Fault"
proof (induction "rend - off" arbitrary: off rule: less_induct)
  case less
  then show ?case using assms by (subst options_fill.simps) auto
qed

lemma xfr_shape_rr_Some:
  assumes "n \<le> length pkt" "xfr_shape_rr pkt n p = Ok (Some (ty, rdata, rdlen))"
  shows "p < rdata \<and> rdata + rdlen \<le> n \<and> p + 11 \<le> rdata"
proof -
  obtain q where q: "skip_wire_name pkt n p = Ok q" "rdata = q + 10" "rdata + rdlen \<le> n"
    using assms(2) by (auto simp: xfr_shape_rr_def rr_fixed_eq_Ok [OF assms(1)] split: if_splits)
  with skip_wire_name_bounds [OF assms(1) q(1)] show ?thesis by simp
qed

lemma xfr_shape_rr_no_Fault: "n \<le> length pkt \<Longrightarrow> xfr_shape_rr pkt n p \<noteq> Fault"
  by (auto simp: xfr_shape_rr_def rr_fixed_eq_Fault split: if_splits)

lemma xfr_additional_no_Fault:
  assumes "n \<le> length pkt"
  shows "xfr_additional pkt n c p k \<noteq> Fault"
proof (induction c arbitrary: p k)
  case (Suc c)
  have "p < length pkt \<and> rdata + rdlen \<le> length pkt" if "xfr_shape_rr pkt n p = Ok (Some (ty, rdata, rdlen))" for ty rdata rdlen
    using xfr_shape_rr_Some [OF assms that] assms by simp
  with Suc show ?case
    using xfr_shape_rr_no_Fault [OF assms, of p] options_fill_no_Fault
    by (auto simp: bind_result_eq_Fault split: option.splits if_splits)
qed simp

lemma xfr_tail_no_Fault: "n \<le> length pkt \<Longrightarrow> xfr_tail pkt n ar p qt qe s \<noteq> Fault"
  by (auto simp: xfr_tail_def bind_result_eq_Fault xfr_additional_no_Fault split: option.splits if_splits)

lemma xfr_request_shape_no_Fault:
  assumes "n \<le> length pkt"
  shows "xfr_request_shape pkt n \<noteq> Fault"
  using assms skip_wire_name_no_Fault [OF assms]
  by (auto simp: xfr_request_shape_def DNS_HEADER_SIZE_def bind_result_eq_Fault try_result_eq_Fault Let_def
      wire_question_name_compressed_def question_compressed_no_Fault xfr_tail_no_Fault xfr_shape_rr_no_Fault
      ixfr_serial_no_Fault split: option.splits if_splits)

lemma dns_find_opt_rr_bounds:
  assumes "n \<le> length pkt" "dns_find_opt_rr pkt n = Ok (Some (off, l))"
  shows "off + l \<le> n \<and> 11 \<le> l"
  using assms find_opt_bounds [OF assms(1)]
  by (auto simp: dns_find_opt_rr_def bind_result_eq_Ok DNS_HEADER_SIZE_def split: if_splits option.splits)

lemma try_result_eq_Error:
  "try_result r k e = Error \<longleftrightarrow> (\<exists>x. r = Ok x \<and> k x = Error) \<or> r = Error \<and> e = Error"
  by (cases r) auto

lemma skip_questions_no_Error: "skip_questions pkt n c p \<noteq> Error"
  by (induction c arbitrary: p) (auto simp: try_result_eq_Error split: if_splits)

lemma find_opt_no_Error: "find_opt_loop pkt n c p \<noteq> Error"
  by (induction c arbitrary: p) (auto simp: rr_fixed_def rd16_def rd8_def try_result_eq_Error split: if_splits)

lemma dns_find_opt_rr_no_Error: "dns_find_opt_rr pkt n \<noteq> Error"
proof -
  have "bind_result (skip_questions pkt n c p) (\<lambda>r. case r of None \<Rightarrow> Ok None | Some off \<Rightarrow> find_opt_loop pkt n d off) \<noteq> Error" for c p d
    using skip_questions_no_Error [of pkt n c p] find_opt_no_Error
    by (cases "skip_questions pkt n c p") (auto split: option.splits)
  then show ?thesis by (auto simp: dns_find_opt_rr_def rd16_def rd8_def)
qed

lemma dns_truncate_keep_opt_eq:
  assumes "res_len \<le> length res" "DNS_HEADER_SIZE \<le> qe" "qe \<le> res_len"
  shows "dns_truncate_keep_opt res res_len qe =
    (case dns_find_opt_rr res res_len of
       Ok (Some (off, l)) \<Rightarrow>
         if qe \<le> off
         then Ok (take 6 res @ [0, 0, 0, 0, 0, 1] @ drop 12 (take qe res) @ take l (drop off res) @ drop (qe + l) res, qe + l)
         else Ok (take 6 res @ [0, 0, 0, 0, 0, 0] @ drop 12 res, qe)
     | _ \<Rightarrow> Ok (take 6 res @ [0, 0, 0, 0, 0, 0] @ drop 12 res, qe))"
proof -
  define a b c where "a = take 6 res" "b = take 6 (drop 6 res)" "c = drop 12 res"
  have r: "res = a @ b @ c" "length a = 6" "length b = 6"
    using assms by (simp_all add: a_b_c_def DNS_HEADER_SIZE_def flip: append_assoc take_add)
  obtain k where k: "qe = 12 + k" using assms(2) by (auto simp: DNS_HEADER_SIZE_def le_iff_add)
  consider "dns_find_opt_rr res res_len = Ok None"
    | off l where "dns_find_opt_rr res res_len = Ok (Some (off, l))"
    using dns_find_opt_rr_no_Fault [OF assms(1)] dns_find_opt_rr_no_Error [of res res_len]
    by (cases "dns_find_opt_rr res res_len") (auto, metis not_Some_eq surj_pair)
  then show ?thesis
  proof cases
    case 1
    with assms r show ?thesis by (simp add: dns_truncate_keep_opt_def DNS_HEADER_SIZE_def blit_def)
  next
    case 2
    then have l: "off + l \<le> res_len" using dns_find_opt_rr_bounds [OF assms(1)] by blast
    show ?thesis
    proof (cases "qe \<le> off")
      case True
      then obtain m where "off = 12 + k + m" using k by (auto simp: le_iff_add)
      moreover have "drop (j + 6) (0 # 0 # 0 # 0 # 0 # 0 # c) = drop j c"
        "drop 6 (take (j + 6) (0 # 0 # 0 # 0 # 0 # 0 # c)) = take j c" for j
        by (simp_all add: numeral_eq_Suc)
      note this [of "k + l"] this [of k] this [of "k + m"]
      ultimately show ?thesis
        using 2 assms r k l
        by (simp add: dns_truncate_keep_opt_def DNS_HEADER_SIZE_def blit_def rd_label_def ac_simps)
    next
      case False
      with 2 assms r show ?thesis
        by (simp add: dns_truncate_keep_opt_def DNS_HEADER_SIZE_def blit_def)
    qed
  qed
qed

lemma truncate_take:
  "\<lbrakk>length z = 6; 12 \<le> q; q \<le> length res\<rbrakk> \<Longrightarrow>
    take q (take 6 res @ z @ drop 12 res) = take 6 res @ z @ drop 12 (take q res)"
  by (simp add: drop_take)

section \<open>The records of a transfer request\<close>

text \<open>Specification: records that follow one another from \<open>p\<close> to \<open>q\<close>, by their types.\<close>

inductive rr_seq :: "bytes \<Rightarrow> nat \<Rightarrow> nat \<Rightarrow> u16 list \<Rightarrow> nat \<Rightarrow> bool" for pkt :: bytes and n :: nat where
  none: "rr_seq pkt n p [] p"
| more: "\<lbrakk>xfr_shape_rr pkt n p = Ok (Some (ty, rdata, rdlen)); rr_seq pkt n (rdata + rdlen) tys q\<rbrakk> \<Longrightarrow>
    rr_seq pkt n p (ty # tys) q"

lemma xfr_additional_seq:
  "xfr_additional pkt n c p k = Ok (Some q) \<Longrightarrow>
    \<exists>tys. rr_seq pkt n p tys q \<and> length tys = c \<and>
      (\<exists>opts sig. tys = opts @ sig \<and> opts = replicate (length opts) 41 \<and> length opts + k \<le> max k 1 \<and>
        sig \<in> {[], [250], [24]})"
proof (induction c arbitrary: p k)
  case 0
  then show ?case by (auto intro: rr_seq.none)
next
  case (Suc c)
  then obtain ty rdata rdlen where rr: "xfr_shape_rr pkt n p = Ok (Some (ty, rdata, rdlen))"
    by (auto simp: bind_result_eq_Ok split: option.splits)
  show ?case
  proof (cases "ty = 41")
    case True
    then have k: "k = 0" and "xfr_additional pkt n c (rdata + rdlen) (k + 1) = Ok (Some q)"
      using Suc.prems rr by (auto simp: bind_result_eq_Ok rd8_eq_Ok split: if_splits)
    from Suc.IH [OF this(2)] k obtain tys opts sig where
      "rr_seq pkt n (rdata + rdlen) tys q" "length tys = c" "tys = opts @ sig" "opts = []" "sig \<in> {[], [250], [24]}"
      by auto
    with rr_seq.more [OF rr] True k show ?thesis
      by (intro exI [of _ "41 # tys"] conjI exI [of _ "[41]"] exI [of _ sig]) auto
  next
    case False
    then have c: "c = 0" "ty = 250 \<or> ty = 24" "q = rdata + rdlen"
      using Suc.prems rr by (auto split: if_splits)
    with rr_seq.more [OF rr rr_seq.none] show ?thesis
      by (intro exI [of _ "[ty]"] conjI exI [of _ "[]"] exI [of _ "[ty]"]) auto
  qed
qed

lemma xfr_request_shape_cases:
  assumes "req_len \<le> length req"
    and "xfr_request_shape req req_len = Ok (Inr out)"
  obtains (axfr) p ar where "req_len \<le> XFR_REQUEST_MAX_LEN" "skip_wire_name req req_len DNS_HEADER_SIZE = Ok p"
      "xfr_tail req req_len ar (p + 4) 252 (p + 4) 0 = Ok (Inr out)"
    | (ixfr) p ar rdata rdlen s where "req_len \<le> XFR_REQUEST_MAX_LEN"
      "skip_wire_name req req_len DNS_HEADER_SIZE = Ok p"
      "xfr_shape_rr req req_len (p + 4) = Ok (Some (6, rdata, rdlen))"
      "ixfr_request_client_serial req req_len (p + 4) = Ok (Some s)"
      "xfr_tail req req_len ar (rdata + rdlen) 251 (p + 4) s = Ok (Inr out)"
  using assms
  by (auto simp: xfr_request_shape_def DNS_HEADER_SIZE_def bind_result_eq_Ok try_result_eq_Ok Let_def
      case_option_eq_Ok split: if_splits)

section \<open>Properties\<close>

text \<open>
  C21.  The functions that walk a whole message never read outside of it, for arbitrary
  octets: the question-section checks, the serial of an IXFR request, the shape of a
  transfer request, the search for the OPT record and the truncation of a response.
\<close>

theorem message_walks_safe:
  assumes "len \<le> length msg"
  shows "dns_question_section_ok msg len \<noteq> Fault \<and> dns_error_qd_echo msg len \<noteq> Fault \<and>
    ixfr_request_client_serial msg len off \<noteq> Fault \<and> xfr_request_shape msg len \<noteq> Fault \<and>
    dns_find_opt_rr msg len \<noteq> Fault \<and> dns_truncate_keep_opt msg len off \<noteq> Fault"
proof -
  have walk: "question_section_walk msg len \<noteq> Fault" if "\<not> len < DNS_HEADER_SIZE"
    using question_section_walk_no_Fault [OF assms] that by simp
  have "dns_question_section_ok msg len \<noteq> Fault"
    using walk by (auto simp: dns_question_section_ok_def bind_result_eq_Fault)
  moreover have "dns_error_qd_echo msg len \<noteq> Fault"
    using walk assms by (auto simp: dns_error_qd_echo_def bind_result_eq_Fault Let_def DNS_HEADER_SIZE_def)
  moreover have "dns_truncate_keep_opt msg len off \<noteq> Fault"
  proof (cases "len < DNS_HEADER_SIZE")
    case False
    let ?qe = "if off < DNS_HEADER_SIZE \<or> len < off then DNS_HEADER_SIZE else off"
    have "dns_truncate_keep_opt msg len off = dns_truncate_keep_opt msg len ?qe"
      by (simp add: dns_truncate_keep_opt_def DNS_HEADER_SIZE_def Let_def)
    then show ?thesis
      using dns_truncate_keep_opt_eq [OF assms, of ?qe] False by (auto split: result.splits option.splits if_splits)
  qed (simp add: dns_truncate_keep_opt_def)
  ultimately show ?thesis
    using ixfr_serial_no_Fault [OF assms] xfr_request_shape_no_Fault [OF assms] dns_find_opt_rr_no_Fault [OF assms] by blast
qed

theorem message_walks_safe_witness:
  "(13 :: nat) \<le> length (replicate 12 0 @ [0xC0 :: u8]) \<and> dns_find_opt_rr (replicate 12 0 @ [0xC0]) 13 \<noteq> Fault"
  using message_walks_safe [of 13 "replicate 12 0 @ [0xC0]" 12] by simp


definition opt_example :: bytes where
  "opt_example = [0, 1, 0x84, 0, 0, 0, 0, 0, 0, 0, 0, 2,
     0, 0, 16, 0, 1, 0, 0, 0, 0, 0, 1, 7,
     0, 0, 41, 4, 0xD0, 0, 0, 0, 0, 0, 0]"



definition axfr_example :: bytes where
  "axfr_example = [0, 1, 0, 0, 0, 1, 0, 0, 0, 0, 0, 0, 1, 0x61, 0, 0, 252, 0, 1]"


end
