(* ===== verification/Edns.thy ===== *)
theory Edns
  imports Message
begin

text \<open>
  EDNS (\<^verbatim>\<open>src/dns_wire.c\<close>): reading the OPT record of a request (\<open>parse_edns_opt\<close>), reserving
  room for and writing the OPT record of a response (\<open>edns_opt_reserve_len\<close>,
  \<open>assemble_edns_opt\<close>), and error responses (\<open>dns_build_error_response\<close>).  The fixed arrays
  of \<open>edns_info_t\<close> with their counters are lists: \<open>ede_list\<close> has \<open>ede_count\<close> entries,
  \<open>mqtypes\<close> has \<open>mqtype_count\<close>, \<open>server_cookie\<close> has \<open>server_cookie_len\<close> octets; the text of
  an EDE is its C string.
\<close>

section \<open>State\<close>

record parsed_ede_t =
  ede_code :: u16
  ede_text :: bytes

record edns_info_t =
  present :: bool
  udp_payload_size :: u16
  ext_rcode :: u8
  version :: u8
  dnssec_ok :: bool
  compact_answers_ok :: bool
  server_udp_size :: u16
  has_cookie :: bool
  has_malformed_cookie :: bool
  client_cookie :: bytes
  server_cookie :: bytes
  ede_list :: "parsed_ede_t list"
  has_nsid_query :: bool
  has_keepalive_query :: bool
  has_mqtype_query :: bool
  mqtype_query_duplicated :: bool
  saw_invalid_mqtype_response_in_query :: bool
  mqtypes :: "u16 list"
  has_ecs :: bool
  has_malformed_ecs :: bool
  ecs_family :: u16
  ecs_source_prefix :: u8
  ecs_scope_prefix :: u8
  ecs_addr :: bytes
  has_karidns_ext :: bool
  karidns_ext_version :: u8
  karidns_ext_hash :: u32
  has_expire_query :: bool
  has_expire_value :: bool
  expire_value :: u32
  send_expire :: bool
  send_expire_value :: u32

definition edns_zero :: edns_info_t where
  "edns_zero = \<lparr>present = False, udp_payload_size = 0, ext_rcode = 0, version = 0, dnssec_ok = False,
     compact_answers_ok = False, server_udp_size = 0, has_cookie = False, has_malformed_cookie = False,
     client_cookie = replicate 8 0, server_cookie = [], ede_list = [], has_nsid_query = False,
     has_keepalive_query = False, has_mqtype_query = False, mqtype_query_duplicated = False,
     saw_invalid_mqtype_response_in_query = False, mqtypes = [], has_ecs = False, has_malformed_ecs = False,
     ecs_family = 0, ecs_source_prefix = 0, ecs_scope_prefix = 0, ecs_addr = replicate 16 0,
     has_karidns_ext = False, karidns_ext_version = 0, karidns_ext_hash = 0, has_expire_query = False,
     has_expire_value = False, expire_value = 0, send_expire = False, send_expire_value = 0\<rparr>"

definition MAX_EDE_COUNT :: nat where "MAX_EDE_COUNT = 64"

section \<open>Reading options\<close>

text \<open>One option each; \<open>d\<close> is its data (\<open>opt_len\<close> octets at \<open>req + rdata_offset\<close>).\<close>

definition edns_opt_cookie :: "bytes \<Rightarrow> edns_info_t \<Rightarrow> edns_info_t" where
  "edns_opt_cookie d e =
    (if has_cookie e \<or> has_malformed_cookie e then e
     else if length d = 8 \<or> 16 \<le> length d \<and> length d \<le> 40 then
       e\<lparr>has_cookie := True, client_cookie := take 8 d,
         server_cookie := (if 8 < length d then take 32 (drop 8 d) else server_cookie e)\<rparr>
     else e\<lparr>has_malformed_cookie := True\<rparr>)"

definition c_string :: "bytes \<Rightarrow> bytes" where
  "c_string s = takeWhile (\<lambda>c. c \<noteq> 0) s"

definition edns_opt_ede :: "bytes \<Rightarrow> edns_info_t \<Rightarrow> edns_info_t" where
  "edns_opt_ede d e =
    (if 2 \<le> length d \<and> length (ede_list e) < MAX_EDE_COUNT then
       e\<lparr>ede_list := ede_list e @ [\<lparr>ede_code = be16 (d ! 0) (d ! 1),
         ede_text = (if 2 < length d then c_string (take 255 (drop 2 d)) else [])\<rparr>]\<rparr>
     else e)"

fun be16_list :: "bytes \<Rightarrow> u16 list" where
  "be16_list (a # b # r) = be16 a b # be16_list r"
| "be16_list _ = []"

definition edns_opt_mqtype :: "bytes \<Rightarrow> edns_info_t \<Rightarrow> edns_info_t" where
  "edns_opt_mqtype d e =
    (if has_mqtype_query e then e\<lparr>mqtype_query_duplicated := True\<rparr>
     else if even (length d) then e\<lparr>has_mqtype_query := True, mqtypes := take 16 (be16_list d)\<rparr>
     else e\<lparr>has_mqtype_query := True\<rparr>)"

text \<open>The checks of RFC 7871 section 6 on a client-subnet option.\<close>

definition ecs_option_ok :: "bytes \<Rightarrow> bool" where
  "ecs_option_ok d =
    (4 \<le> length d \<and>
     (let family = be16 (d ! 0) (d ! 1); source_prefix = d ! 2; scope_prefix = d ! 3;
          expected_addr_len = (unat source_prefix + 7) div 8;
          actual_addr_len = length d - 4
      in (family = 1 \<or> family = 2) \<and>
         \<not> (family = 1 \<and> 32 < source_prefix) \<and>
         \<not> (family = 2 \<and> 128 < source_prefix) \<and>
         scope_prefix = 0 \<and>
         actual_addr_len = expected_addr_len \<and>
         (unat source_prefix mod 8 \<noteq> 0 \<longrightarrow>
            d ! (4 + expected_addr_len - 1) AND word_of_nat (2 ^ (8 - unat source_prefix mod 8) - 1) = 0)))"

definition edns_opt_ecs :: "bytes \<Rightarrow> edns_info_t \<Rightarrow> edns_info_t" where
  "edns_opt_ecs d e =
    (if has_ecs e \<or> has_malformed_ecs e then e
     else if \<not> ecs_option_ok d then e\<lparr>has_malformed_ecs := True\<rparr>
     else
       let a = take 16 (drop 4 d) in
       e\<lparr>has_ecs := True, ecs_family := be16 (d ! 0) (d ! 1), ecs_source_prefix := d ! 2,
         ecs_scope_prefix := d ! 3, ecs_addr := a @ replicate (16 - length a) 0\<rparr>)"

definition edns_opt_expire :: "bytes \<Rightarrow> edns_info_t \<Rightarrow> edns_info_t" where
  "edns_opt_expire d e =
    (if d = [] then e\<lparr>has_expire_query := True\<rparr>
     else if length d = 4 \<and> \<not> has_expire_value e then
       e\<lparr>has_expire_value := True, expire_value := be32 (d ! 0) (d ! 1) (d ! 2) (d ! 3)\<rparr>
     else e)"

definition edns_opt_karidns :: "bytes \<Rightarrow> edns_info_t \<Rightarrow> edns_info_t" where
  "edns_opt_karidns d e =
    (if length d = 5 then
       e\<lparr>has_karidns_ext := True, karidns_ext_version := d ! 0,
         karidns_ext_hash := be32 (d ! 1) (d ! 2) (d ! 3) (d ! 4)\<rparr>
     else e)"

definition edns_option :: "u16 \<Rightarrow> bytes \<Rightarrow> edns_info_t \<Rightarrow> edns_info_t" where
  "edns_option opt_code d e =
    (if opt_code = 10 then edns_opt_cookie d e
     else if opt_code = 15 then edns_opt_ede d e
     else if opt_code = 3 then e\<lparr>has_nsid_query := True\<rparr>
     else if opt_code = 11 then (if has_keepalive_query e then e else e\<lparr>has_keepalive_query := True\<rparr>)
     else if opt_code = 21 then e\<lparr>saw_invalid_mqtype_response_in_query := True\<rparr>
     else if opt_code = 20 then edns_opt_mqtype d e
     else if opt_code = 8 then edns_opt_ecs d e
     else if opt_code = 9 then edns_opt_expire d e
     else if opt_code = 65153 then edns_opt_karidns d e
     else e)"

text \<open>The loop over the options between \<open>rdata_offset\<close> and \<open>rdata_end\<close>.\<close>

function edns_options_loop :: "bytes \<Rightarrow> nat \<Rightarrow> nat \<Rightarrow> edns_info_t \<Rightarrow> edns_info_t result" where
  "edns_options_loop req rdata_end rdata_offset e =
    (if rdata_offset + 4 \<le> rdata_end then
       rd16 req rdata_offset (\<lambda>opt_code. rd16 req (rdata_offset + 2) (\<lambda>opt_len.
         if rdata_end < rdata_offset + 4 + unat opt_len then Ok e
         else rd_label req (rdata_offset + 4) (unat opt_len) (\<lambda>d.
           edns_options_loop req rdata_end (rdata_offset + 4 + unat opt_len) (edns_option opt_code d e))))
     else Ok e)"
  by pat_completeness auto
termination
  by (relation "measure (\<lambda>(_, rend, off, _). rend - off)") (auto simp: rd16_def)

declare edns_options_loop.simps [simp del]

section \<open>Reading the sections of a request\<close>

text \<open>The owner name of a record or question; \<open>Error\<close> is the \<open>-1\<close> return.\<close>

function edns_scan_name :: "bytes \<Rightarrow> nat \<Rightarrow> nat \<Rightarrow> nat result" where
  "edns_scan_name req req_len scan_offset =
    (if req_len \<le> scan_offset then Ok scan_offset
     else rd8 req scan_offset (\<lambda>raw.
       if raw AND 0xC0 = 0xC0 then Ok (scan_offset + 2)
       else if raw AND 0xC0 = 0 then
         (if 63 < raw then Error
          else if raw = 0 then Ok (scan_offset + 1)
          else if req_len < scan_offset + unat raw + 1 then Error
          else edns_scan_name req req_len (scan_offset + (unat raw + 1)))
       else Error))"
  by pat_completeness auto
termination
  by (relation "measure (\<lambda>(_, n, off). n - off)") auto

declare edns_scan_name.simps [simp del]

text \<open>The fixed part of the OPT record and its options, at \<open>scan_offset\<close> behind the owner name.\<close>

definition edns_read_opt :: "bytes \<Rightarrow> nat \<Rightarrow> nat \<Rightarrow> u16 \<Rightarrow> nat \<Rightarrow> edns_info_t \<Rightarrow> edns_info_t result" where
  "edns_read_opt req req_len scan_offset rclass rdlen e =
    rd32 req (scan_offset + 4) (\<lambda>ttl.
      let e = e\<lparr>present := True, udp_payload_size := rclass,
                ext_rcode := ucast (drop_bit 24 ttl AND 0xFF), version := ucast (drop_bit 16 ttl AND 0xFF),
                dnssec_ok := (ttl AND 0x00008000 \<noteq> 0), compact_answers_ok := (ttl AND 0x00004000 \<noteq> 0)\<rparr>
      in if req_len < scan_offset + 10 + rdlen then Error
         else edns_options_loop req (scan_offset + 10 + rdlen) (scan_offset + 10) e)"

text \<open>
  The loop over all sections: \<open>c\<close> entries are left, \<open>i\<close> is the loop counter, \<open>first_ar\<close> the
  number of entries before the additional section.
\<close>

fun edns_scan :: "bytes \<Rightarrow> nat \<Rightarrow> nat \<Rightarrow> nat \<Rightarrow> nat \<Rightarrow> nat \<Rightarrow> nat \<Rightarrow> nat \<Rightarrow> edns_info_t \<Rightarrow> edns_info_t result" where
  "edns_scan req req_len qdcount first_ar 0 i scan_offset opt_rr_count e = Ok e"
| "edns_scan req req_len qdcount first_ar (Suc c) i scan_offset opt_rr_count e =
    (if req_len \<le> scan_offset then Ok e
     else bind_result (edns_scan_name req req_len scan_offset) (\<lambda>off.
       if i < qdcount then edns_scan req req_len qdcount first_ar c (i + 1) (off + 4) opt_rr_count e
       else if off + 10 \<le> req_len then
         rd16 req off (\<lambda>rtype. rd16 req (off + 2) (\<lambda>rclass. rd16 req (off + 8) (\<lambda>rdlen.
           if \<not> first_ar \<le> i \<and> rtype = 41 then Error
           else if first_ar \<le> i \<and> rtype = 41 then
             rd8 req scan_offset (\<lambda>owner.
               if off - scan_offset \<noteq> 1 \<or> owner \<noteq> 0 then Error
               else if 1 < opt_rr_count + 1 then Error
               else bind_result (edns_read_opt req req_len off rclass (unat rdlen) e) (\<lambda>e.
                 edns_scan req req_len qdcount first_ar c (i + 1) (off + (10 + unat rdlen)) (opt_rr_count + 1) e))
           else edns_scan req req_len qdcount first_ar c (i + 1) (off + (10 + unat rdlen)) opt_rr_count e)))
       else Ok e))"

definition parse_edns_opt :: "bytes \<Rightarrow> nat \<Rightarrow> nat \<Rightarrow> nat \<Rightarrow> nat \<Rightarrow> nat \<Rightarrow> edns_info_t result" where
  "parse_edns_opt req req_len qdcount ancount_req nscount_req arcount_req =
     edns_scan req req_len qdcount (qdcount + ancount_req + nscount_req)
       (qdcount + ancount_req + nscount_req + arcount_req) 0 DNS_HEADER_SIZE 0
       (edns_zero\<lparr>udp_payload_size := 512\<rparr>)"

section \<open>Writing the OPT record\<close>

text \<open>The fields of \<open>server_config_t\<close> that these functions read.\<close>

record edns_config =
  nsid_string :: "bytes option"
  tcp_connection_reuse :: bool
  tcp_advertised_set :: bool
  tcp_advertised_units :: u16
  tcp_idle_timeout :: u32
  ecs_enable :: bool

definition cfg_nsid :: "edns_config option \<Rightarrow> bytes option" where
  "cfg_nsid cfg = (case cfg of None \<Rightarrow> None | Some c \<Rightarrow> nsid_string c)"

definition cfg_reuse :: "edns_config option \<Rightarrow> bool" where
  "cfg_reuse cfg = (case cfg of None \<Rightarrow> False | Some c \<Rightarrow> tcp_connection_reuse c)"

definition cfg_ecs :: "edns_config option \<Rightarrow> bool" where
  "cfg_ecs cfg = (case cfg of None \<Rightarrow> True | Some c \<Rightarrow> ecs_enable c)"

definition edns_opt_reserve_len :: "edns_info_t option \<Rightarrow> bool \<Rightarrow> edns_config option \<Rightarrow> nat" where
  "edns_opt_reserve_len edns is_tcp cfg =
    (case edns of
       None \<Rightarrow> 11
     | Some e \<Rightarrow> 11 +
        ((if has_cookie e then 4 + 8 + 32 else 0) +
         (if has_mqtype_query e then 4 + length (mqtypes e) * 2 else 0) +
         (if has_nsid_query e then (case cfg_nsid cfg of None \<Rightarrow> 0 | Some n \<Rightarrow> 4 + length n) else 0) +
         (if is_tcp \<and> has_keepalive_query e \<and> cfg_reuse cfg then 4 + 2 else 0) +
         (if has_karidns_ext e then 4 + 5 else 0) +
         (if has_expire_query e \<or> send_expire e then 4 + 4 else 0) +
         (if has_ecs e \<and> cfg_ecs cfg then 4 + 4 + 16 else 0)))"

definition keepalive_value :: "edns_config \<Rightarrow> u16" where
  "keepalive_value c =
    (if tcp_advertised_set c then tcp_advertised_units c
     else
       let ms = (if 0 < tcp_idle_timeout c then tcp_idle_timeout c else 10000);
           v = (if 65535 < ms div 100 then 65535 else ucast (ms div 100))
       in if v = 0 then 1 else v)"

definition ecs_addr_bytes :: "edns_info_t \<Rightarrow> nat" where
  "ecs_addr_bytes e =
    (let n = (unat (ecs_source_prefix e) + 7) div 8 in
     if ecs_family e = 1 \<and> 4 < n then 4
     else if ecs_family e = 2 \<and> 16 < n then 16
     else if ecs_family e \<noteq> 1 \<and> ecs_family e \<noteq> 2 then 0
     else n)"

text \<open>\<open>ede_rdlen\<close> and the rest of \<open>rdlen\<close>, as the 16-bit sums of the source.\<close>

definition ede_rdlen :: "edns_info_t \<Rightarrow> u16" where
  "ede_rdlen e = foldl (\<lambda>s x. s + word_of_nat (4 + 2) + word_of_nat (length (ede_text x))) 0 (ede_list e)"

definition base_rdlen :: "edns_info_t \<Rightarrow> bool \<Rightarrow> edns_config option \<Rightarrow> u16" where
  "base_rdlen e is_tcp cfg =
    (if has_cookie e then word_of_nat (4 + 8 + length (server_cookie e)) else 0) +
    (if has_mqtype_query e then word_of_nat (4 + length (mqtypes e) * 2) else 0) +
    (if has_nsid_query e then (case cfg_nsid cfg of None \<Rightarrow> 0 | Some n \<Rightarrow> 4 + word_of_nat (length n)) else 0) +
    (if is_tcp \<and> has_keepalive_query e \<and> cfg_reuse cfg then 4 + 2 else 0) +
    (if has_karidns_ext e then 4 + 5 else 0) +
    (if send_expire e then 4 + 4 else 0) +
    (if has_ecs e \<and> cfg_ecs cfg then word_of_nat (4 + 4 + ecs_addr_bytes e) else 0)"

text \<open>The options in the order in which they are written: code and data.\<close>

definition opt_options :: "edns_info_t \<Rightarrow> bool \<Rightarrow> edns_config option \<Rightarrow> (u16 \<times> bytes) list" where
  "opt_options e is_tcp cfg =
    (if has_cookie e then [(10, client_cookie e @ server_cookie e)] else []) @
    map (\<lambda>x. (15, put16 (ede_code x) @ ede_text x)) (ede_list e) @
    (if has_mqtype_query e then [(21, concat (map put16 (mqtypes e)))] else []) @
    (if has_nsid_query e then (case cfg_nsid cfg of None \<Rightarrow> [] | Some n \<Rightarrow> [(3, take (unat (word_of_nat (length n) :: u16)) n)]) else []) @
    (case cfg of
       Some c \<Rightarrow> if is_tcp \<and> has_keepalive_query e \<and> cfg_reuse cfg then [(11, put16 (keepalive_value c))] else []
     | None \<Rightarrow> []) @
    (if has_karidns_ext e then [(65153, karidns_ext_version e # put32 (karidns_ext_hash e))] else []) @
    (if send_expire e then [(9, put32 (send_expire_value e))] else []) @
    (if has_ecs e \<and> cfg_ecs cfg
     then [(8, put16 (ecs_family e) @ [ecs_source_prefix e, ecs_scope_prefix e] @ take (ecs_addr_bytes e) (ecs_addr e))]
     else [])"

definition put_option :: "u16 \<times> bytes \<Rightarrow> bytes" where
  "put_option = (\<lambda>(code, d). put16 code @ put16 (word_of_nat (length d)) @ d)"

definition opt_record :: "edns_info_t option \<Rightarrow> u8 \<Rightarrow> u16 \<Rightarrow> (u16 \<times> bytes) list \<Rightarrow> bytes" where
  "opt_record edns rcode_ext rdlen opts =
    [0, 0, 41] @
    put16 (case edns of Some e \<Rightarrow> if server_udp_size e \<noteq> 0 then server_udp_size e else 1232 | None \<Rightarrow> 1232) @
    [rcode_ext, 0] @
    put16 (case edns of Some e \<Rightarrow> if dnssec_ok e then 0x8000 else 0 | None \<Rightarrow> 0) @
    put16 rdlen @ concat (map put_option opts)"

text \<open>
  \<open>assemble_edns_opt\<close>: the buffer, the offset, \<open>arcount\<close> and the (possibly trimmed) EDNS state
  afterwards.  \<open>offset\<close> is a \<open>uint16_t\<close>: a record that would carry it past 65535 would be written
  over the start of the buffer, and is a \<open>Fault\<close> here.
\<close>

definition assemble_edns_opt ::
  "bytes \<Rightarrow> nat \<Rightarrow> nat \<Rightarrow> nat \<Rightarrow> edns_info_t option \<Rightarrow> u8 \<Rightarrow> bool \<Rightarrow> edns_config option \<Rightarrow>
    (bytes \<times> nat \<times> nat \<times> edns_info_t option) result" where
  "assemble_edns_opt res max_res_len offset arcount edns rcode_ext is_tcp cfg =
    (let ede = (case edns of None \<Rightarrow> 0 | Some e \<Rightarrow> ede_rdlen e);
         full = (case edns of None \<Rightarrow> 0 | Some e \<Rightarrow> base_rdlen e is_tcp cfg + ede);
         drop_ede = (max_res_len < offset + 11 + unat full \<and> (case edns of None \<Rightarrow> False | Some e \<Rightarrow> ede_list e \<noteq> []));
         rdlen = (if drop_ede then full - ede else full);
         edns = (if drop_ede then map_option (\<lambda>e. e\<lparr>ede_list := []\<rparr>) edns else edns)
     in if offset + 11 + unat rdlen \<le> max_res_len then
          let opts = (case edns of None \<Rightarrow> [] | Some e \<Rightarrow> opt_options e is_tcp cfg);
              w = opt_record edns rcode_ext rdlen opts
          in if 65535 < offset + length w then Fault
             else blit res offset w (\<lambda>res. Ok (res, offset + length w, arcount + 1, edns))
        else Ok (res, offset, arcount, edns))"

section \<open>Error responses\<close>

text \<open>The end of the \<open>c\<close> questions from \<open>q_end\<close> on, or \<open>None\<close> when one of them is bad.\<close>

fun kept_questions :: "bytes \<Rightarrow> nat \<Rightarrow> nat \<Rightarrow> nat \<Rightarrow> nat option result" where
  "kept_questions req req_len 0 qe = Ok (Some qe)"
| "kept_questions req req_len (Suc c) qe =
    try_result (skip_wire_name req req_len qe) (\<lambda>nx.
      if req_len < nx + 4 then Ok None else kept_questions req req_len c (nx + 4)) (Ok None)"

definition dns_build_error_response ::
  "bytes \<Rightarrow> nat \<Rightarrow> bytes \<Rightarrow> nat \<Rightarrow> u8 \<Rightarrow> u8 \<Rightarrow> u16 \<Rightarrow> edns_info_t option \<Rightarrow> bool \<Rightarrow> edns_config option \<Rightarrow> (bytes \<times> nat) result" where
  "dns_build_error_response req req_len res max_res_len rcode ext_rcode' qd_keep edns is_tcp cfg =
    (if req_len < DNS_HEADER_SIZE \<or> max_res_len < DNS_HEADER_SIZE then Ok (res, 0)
     else bind_result (if rcode = 1 \<and> ext_rcode' = 0 then dns_question_section_ok req req_len else Ok True) (\<lambda>qok.
       let edns = (if qok then edns else None) in
       dns_init_response_header req rcode False (\<lambda>h. blit res 0 h (\<lambda>res.
         bind_result (kept_questions req req_len (unat qd_keep) DNS_HEADER_SIZE) (\<lambda>kept.
           let (qd, qe) = (case kept of
                 None \<Rightarrow> (0, DNS_HEADER_SIZE)
               | Some qe \<Rightarrow> if max_res_len < qe \<or> 65535 < qe then (0, DNS_HEADER_SIZE) else (qd_keep, qe))
           in rd_label req DNS_HEADER_SIZE (qe - DNS_HEADER_SIZE) (\<lambda>q.
             blit res DNS_HEADER_SIZE q (\<lambda>res. blit res 4 (put16 qd @ [0, 0, 0, 0]) (\<lambda>res.
               bind_result
                 (case edns of
                    Some e \<Rightarrow>
                      if present e
                      then assemble_edns_opt res max_res_len qe 0
                             (Some (e\<lparr>has_mqtype_query := False, mqtypes := [], send_expire := False\<rparr>)) ext_rcode' is_tcp cfg
                      else Ok (res, qe, 0, edns)
                  | None \<Rightarrow> Ok (res, qe, 0, edns))
                 (\<lambda>(res, offset, arcount, _). blit res 10 (put16 (word_of_nat arcount)) (\<lambda>res. Ok (res, offset)))))))))))"

definition dns_build_badvers_response ::
  "bytes \<Rightarrow> nat \<Rightarrow> bytes \<Rightarrow> nat \<Rightarrow> u16 \<Rightarrow> edns_info_t \<Rightarrow> bool \<Rightarrow> edns_config option \<Rightarrow> (bytes \<times> nat) result" where
  "dns_build_badvers_response req req_len res max_res_len qd_keep edns is_tcp cfg =
     dns_build_error_response req req_len res max_res_len 0 1 qd_keep (Some (edns\<lparr>version := 0\<rparr>)) is_tcp cfg"

section \<open>Lengths\<close>

text \<open>Well-formed state: the sizes of the arrays of \<open>edns_info_t\<close>, and a short NSID.\<close>

definition edns_wf :: "edns_info_t \<Rightarrow> edns_config option \<Rightarrow> bool" where
  "edns_wf e cfg \<longleftrightarrow> length (client_cookie e) = 8 \<and> length (server_cookie e) \<le> 32 \<and> length (ecs_addr e) = 16 \<and>
    length (ede_list e) \<le> MAX_EDE_COUNT \<and> list_all (\<lambda>x. length (ede_text x) \<le> 255) (ede_list e) \<and>
    length (mqtypes e) \<le> 16 \<and> (case cfg_nsid cfg of None \<Rightarrow> True | Some n \<Rightarrow> length n \<le> 40000)"

lemma length_put16 [simp]: "length (put16 x) = 2" and length_put32 [simp]: "length (put32 y) = 4"
  by (simp_all add: put16_def put32_def)

lemma length_put_option [simp]: "length (put_option (c, d)) = 4 + length d"
  by (simp add: put_option_def)

lemma ecs_addr_bytes_le: "ecs_addr_bytes e \<le> 16"
  by (auto simp: ecs_addr_bytes_def Let_def)

definition options_len :: "(u16 \<times> bytes) list \<Rightarrow> nat" where
  "options_len opts = sum_list (map (\<lambda>(c, d). 4 + length d) opts)"

lemma options_len_simps [simp]:
  "options_len [] = 0"
  "options_len ((c, d) # opts) = 4 + length d + options_len opts"
  "options_len (as @ bs) = options_len as + options_len bs"
  by (simp_all add: options_len_def)

lemma length_put_options: "length (concat (map put_option opts)) = options_len opts"
  by (induction opts) auto

lemma length_opt_record [simp]: "length (opt_record edns rc rdlen opts) = 11 + options_len opts"
  by (simp add: opt_record_def length_put_options)

lemma length_put16s [simp]: "length (concat (map put16 xs)) = 2 * length xs"
  by (induction xs) simp_all

lemma ede_rdlen_nat:
  "ede_rdlen e = word_of_nat (options_len (map (\<lambda>x. (15, put16 (ede_code x) @ ede_text x)) (ede_list e)))"
proof -
  have "foldl (\<lambda>s x. s + word_of_nat (4 + 2) + word_of_nat (length (ede_text x))) a xs =
      a + word_of_nat (options_len (map (\<lambda>x. (15, put16 (ede_code x) @ ede_text x)) xs))" for a :: u16 and xs
    by (induction xs arbitrary: a) simp_all
  from this [of 0 "ede_list e"] show ?thesis by (simp add: ede_rdlen_def)
qed

lemma unat_nsid: "length n \<le> 40000 \<Longrightarrow> unat (word_of_nat (length n) :: u16) = length n"
  by (simp add: unat_of_nat)

lemma options_len_if: "options_len (if c then a else b) = (if c then options_len a else options_len b)"
  by simp

lemma options_len_eq:
  assumes "edns_wf e cfg"
  shows "options_len (opt_options e is_tcp cfg) =
    (if has_cookie e then 12 + length (server_cookie e) else 0) +
    (options_len (map (\<lambda>x. (15, put16 (ede_code x) @ ede_text x)) (ede_list e)) +
    ((if has_mqtype_query e then 4 + 2 * length (mqtypes e) else 0) +
    ((if has_nsid_query e then (case cfg_nsid cfg of None \<Rightarrow> 0 | Some n \<Rightarrow> 4 + length n) else 0) +
    ((if is_tcp \<and> has_keepalive_query e \<and> cfg_reuse cfg then 6 else 0) +
    ((if has_karidns_ext e then 9 else 0) +
    ((if send_expire e then 8 else 0) +
     (if has_ecs e \<and> cfg_ecs cfg then 8 + ecs_addr_bytes e else 0)))))))"
proof -
  have ka: "options_len (case cfg of
       Some c \<Rightarrow> if is_tcp \<and> has_keepalive_query e \<and> cfg_reuse cfg then [(11, put16 (keepalive_value c))] else []
     | None \<Rightarrow> []) = (if is_tcp \<and> has_keepalive_query e \<and> cfg_reuse cfg then 6 else 0)"
    by (cases cfg) (simp_all add: cfg_reuse_def)
  have ec: "options_len [(8, put16 (ecs_family e) @ [ecs_source_prefix e, ecs_scope_prefix e] @ take (ecs_addr_bytes e) (ecs_addr e))] =
      8 + ecs_addr_bytes e"
    using assms ecs_addr_bytes_le [of e] by (simp add: edns_wf_def)
  have co: "options_len [(10, client_cookie e @ server_cookie e)] = 12 + length (server_cookie e)"
    using assms by (simp add: edns_wf_def)
  show ?thesis
    unfolding opt_options_def options_len_simps(3) ka options_len_if ec co
    using assms by (cases "cfg_nsid cfg") (simp_all add: edns_wf_def unat_nsid)
qed

lemma rdlen_options:
  assumes "edns_wf e cfg"
  shows "base_rdlen e is_tcp cfg + ede_rdlen e = word_of_nat (options_len (opt_options e is_tcp cfg))"
proof -
  have "(word_of_nat (if c then a else b) :: u16) = (if c then word_of_nat a else word_of_nat b)" for c a b by simp
  then show ?thesis
    unfolding options_len_eq [OF assms] base_rdlen_def ede_rdlen_nat
    by (cases "cfg_nsid cfg") (simp_all add: mult.commute add_ac)
qed

lemma options_len_ede:
  assumes "list_all (\<lambda>x. length (ede_text x) \<le> 255) xs"
  shows "options_len (map (\<lambda>x. (15, put16 (ede_code x) @ ede_text x)) xs) \<le> 261 * length xs"
  using assms by (induction xs) auto

lemma options_len_bound:
  assumes "edns_wf e cfg"
  shows "options_len (opt_options e is_tcp cfg) \<le> 60000"
proof -
  have "(case cfg_nsid cfg of None \<Rightarrow> 0 | Some n \<Rightarrow> 4 + length n) \<le> 40004"
    using assms by (cases "cfg_nsid cfg") (simp_all add: edns_wf_def)
  then show ?thesis
    using assms ecs_addr_bytes_le [of e] options_len_ede [of "ede_list e"]
    unfolding options_len_eq [OF assms] edns_wf_def MAX_EDE_COUNT_def by simp
qed

lemma unat_rdlen:
  assumes "edns_wf e cfg"
  shows "unat (base_rdlen e is_tcp cfg + ede_rdlen e) = options_len (opt_options e is_tcp cfg)"
  using options_len_bound [OF assms, of is_tcp] by (simp add: rdlen_options [OF assms] unat_of_nat)

lemma edns_wf_no_ede: "edns_wf e cfg \<Longrightarrow> edns_wf (e\<lparr>ede_list := []\<rparr>) cfg"
  by (simp add: edns_wf_def)

lemma unat_base_rdlen:
  assumes "edns_wf e cfg"
  shows "unat (base_rdlen e is_tcp cfg) = options_len (opt_options (e\<lparr>ede_list := []\<rparr>) is_tcp cfg)"
proof -
  have "base_rdlen (e\<lparr>ede_list := []\<rparr>) is_tcp cfg = base_rdlen e is_tcp cfg" "ede_rdlen (e\<lparr>ede_list := []\<rparr>) = 0"
    by (simp_all add: base_rdlen_def ede_rdlen_def ecs_addr_bytes_def cong: if_cong)
  then show ?thesis using unat_rdlen [OF edns_wf_no_ede [OF assms], of is_tcp] by simp
qed

lemma options_len_reserve:
  assumes "edns_wf e cfg" "ede_list e = []"
  shows "11 + options_len (opt_options e is_tcp cfg) \<le> edns_opt_reserve_len (Some e) is_tcp cfg"
  using assms ecs_addr_bytes_le [of e]
  unfolding options_len_eq [OF assms(1)] edns_opt_reserve_len_def edns_wf_def by simp

text \<open>What \<open>assemble_edns_opt\<close> writes.\<close>

lemma assemble_edns_opt_eq:
  assumes "edns_wf e cfg" "max_res_len \<le> length res" "max_res_len \<le> 65535"
  shows "assemble_edns_opt res max_res_len offset ar (Some e) rc is_tcp cfg =
    (let n = options_len (opt_options e is_tcp cfg);
         e' = (if max_res_len < offset + 11 + n \<and> ede_list e \<noteq> [] then e\<lparr>ede_list := []\<rparr> else e);
         opts = opt_options e' is_tcp cfg;
         w = opt_record (Some e') rc (word_of_nat (options_len opts)) opts
     in if offset + length w \<le> max_res_len
        then Ok (take offset res @ w @ drop (offset + length w) res, offset + length w, ar + 1, Some e')
        else Ok (res, offset, ar, Some e'))"
proof (cases "max_res_len < offset + 11 + options_len (opt_options e is_tcp cfg) \<and> ede_list e \<noteq> []")
  case True
  have "base_rdlen e is_tcp cfg = word_of_nat (options_len (opt_options (e\<lparr>ede_list := []\<rparr>) is_tcp cfg))"
    using arg_cong [OF unat_base_rdlen [OF assms(1), of is_tcp], of "word_of_nat :: nat \<Rightarrow> u16"] by simp
  with True assms unat_base_rdlen [OF assms(1), of is_tcp] unat_rdlen [OF assms(1), of is_tcp] show ?thesis
    by (simp add: assemble_edns_opt_def Let_def blit_def)
next
  case False
  with assms rdlen_options [OF assms(1), of is_tcp] unat_rdlen [OF assms(1), of is_tcp] show ?thesis
    by (auto simp: assemble_edns_opt_def Let_def blit_def)
qed

section \<open>Reading never leaves the message\<close>

lemma edns_options_loop_no_Fault:
  assumes "rend \<le> length req"
  shows "edns_options_loop req rend off e \<noteq> Fault"
proof (induction "rend - off" arbitrary: off e rule: less_induct)
  case less
  then show ?case using assms by (subst edns_options_loop.simps) (auto simp: rd_label_def)
qed

lemma edns_scan_name_no_Fault:
  assumes "n \<le> length req"
  shows "edns_scan_name req n off \<noteq> Fault"
proof (induction "n - off" arbitrary: off rule: less_induct)
  case less
  then show ?case using assms by (subst edns_scan_name.simps) (auto simp: rd8_def)
qed

lemma edns_read_opt_no_Fault:
  "n \<le> length req \<Longrightarrow> off + 10 \<le> n \<Longrightarrow> edns_read_opt req n off cl rdlen e \<noteq> Fault"
  by (auto simp: edns_read_opt_def rd32_def Let_def edns_options_loop_no_Fault)

lemma edns_scan_no_Fault:
  assumes "n \<le> length req"
  shows "edns_scan req n qd fa c i off k e \<noteq> Fault"
proof (induction c arbitrary: i off k e)
  case (Suc c)
  then show ?case
    using assms edns_scan_name_no_Fault [OF assms, of off] edns_read_opt_no_Fault [OF assms]
    by (auto simp: bind_result_eq_Fault)
qed simp

section \<open>Reading back what was written\<close>

text \<open>Specification: the options of a record, one after the other.\<close>

fun read_options :: "edns_info_t \<Rightarrow> (u16 \<times> bytes) list \<Rightarrow> edns_info_t" where
  "read_options e [] = e"
| "read_options e ((c, d) # opts) = read_options (edns_option c d e) opts"

lemma edns_options_loop_put:
  assumes "list_all (\<lambda>(c, d). length d < 65536) opts"
  shows "edns_options_loop (pre @ concat (map put_option opts)) (length pre + options_len opts) (length pre) e =
    Ok (read_options e opts)"
  using assms
proof (induction opts arbitrary: pre e)
  case Nil
  then show ?case by (simp add: edns_options_loop.simps)
next
  case (Cons o' opts)
  obtain c d where o': "o' = (c, d)" by (cases o')
  have d: "length d < 65536" using Cons.prems o' by simp
  define buf where "buf = pre @ concat (map put_option (o' # opts))"
  have buf: "buf = (pre @ put_option (c, d)) @ concat (map put_option opts)" by (simp add: buf_def o')
  have code: "rd16 buf (length pre) k = k c" for k :: "u16 \<Rightarrow> edns_info_t result"
    by (simp add: buf put_option_def put16_def rd16_def rd8_def nth_append be16_put16)
  have len: "rd16 buf (length pre + 2) k = k (word_of_nat (length d))" for k :: "u16 \<Rightarrow> edns_info_t result"
    by (simp add: buf put_option_def put16_def rd16_def rd8_def nth_append be16_put16)
  have data: "rd_label buf (length pre + 4) (length d) k = k d" for k :: "bytes \<Rightarrow> edns_info_t result"
    by (simp add: buf put_option_def rd_label_def)
  have ud: "unat (word_of_nat (length d) :: u16) = length d" using d by (simp add: unat_of_nat)
  have "edns_options_loop buf (length pre + options_len (o' # opts)) (length pre) e =
      edns_options_loop buf (length pre + options_len (o' # opts)) (length pre + 4 + length d) (edns_option c d e)"
    by (subst edns_options_loop.simps) (simp only: code len data ud, simp add: o')
  also have "\<dots> = Ok (read_options (edns_option c d e) opts)"
    unfolding buf using Cons.IH [of "pre @ put_option (c, d)" "edns_option c d e"] Cons.prems o'
    by (simp add: add.assoc)
  finally show ?case by (simp add: o' buf_def)
qed

text \<open>The fields an option leaves alone.\<close>

named_theorems option_frame

lemma frame_cookie [option_frame]:
  "present (edns_opt_cookie d e) = present e" "udp_payload_size (edns_opt_cookie d e) = udp_payload_size e"
  "ext_rcode (edns_opt_cookie d e) = ext_rcode e" "version (edns_opt_cookie d e) = version e"
  "dnssec_ok (edns_opt_cookie d e) = dnssec_ok e" "ede_list (edns_opt_cookie d e) = ede_list e"
  "has_expire_value (edns_opt_cookie d e) = has_expire_value e" "expire_value (edns_opt_cookie d e) = expire_value e"
  by (simp_all add: edns_opt_cookie_def Let_def)

lemma frame_ede [option_frame]:
  "present (edns_opt_ede d e) = present e" "udp_payload_size (edns_opt_ede d e) = udp_payload_size e"
  "ext_rcode (edns_opt_ede d e) = ext_rcode e" "version (edns_opt_ede d e) = version e"
  "dnssec_ok (edns_opt_ede d e) = dnssec_ok e" "has_cookie (edns_opt_ede d e) = has_cookie e"
  "client_cookie (edns_opt_ede d e) = client_cookie e" "server_cookie (edns_opt_ede d e) = server_cookie e"
  "has_expire_value (edns_opt_ede d e) = has_expire_value e" "expire_value (edns_opt_ede d e) = expire_value e"
  by (simp_all add: edns_opt_ede_def Let_def)

lemma frame_mqtype [option_frame]:
  "present (edns_opt_mqtype d e) = present e" "udp_payload_size (edns_opt_mqtype d e) = udp_payload_size e"
  "ext_rcode (edns_opt_mqtype d e) = ext_rcode e" "version (edns_opt_mqtype d e) = version e"
  "dnssec_ok (edns_opt_mqtype d e) = dnssec_ok e" "has_cookie (edns_opt_mqtype d e) = has_cookie e"
  "client_cookie (edns_opt_mqtype d e) = client_cookie e" "server_cookie (edns_opt_mqtype d e) = server_cookie e"
  "ede_list (edns_opt_mqtype d e) = ede_list e" "has_expire_value (edns_opt_mqtype d e) = has_expire_value e"
  "expire_value (edns_opt_mqtype d e) = expire_value e"
  by (simp_all add: edns_opt_mqtype_def Let_def)

lemma frame_ecs [option_frame]:
  "present (edns_opt_ecs d e) = present e" "udp_payload_size (edns_opt_ecs d e) = udp_payload_size e"
  "ext_rcode (edns_opt_ecs d e) = ext_rcode e" "version (edns_opt_ecs d e) = version e"
  "dnssec_ok (edns_opt_ecs d e) = dnssec_ok e" "has_cookie (edns_opt_ecs d e) = has_cookie e"
  "client_cookie (edns_opt_ecs d e) = client_cookie e" "server_cookie (edns_opt_ecs d e) = server_cookie e"
  "ede_list (edns_opt_ecs d e) = ede_list e" "has_expire_value (edns_opt_ecs d e) = has_expire_value e"
  "expire_value (edns_opt_ecs d e) = expire_value e"
  by (simp_all add: edns_opt_ecs_def Let_def)

lemma frame_expire [option_frame]:
  "present (edns_opt_expire d e) = present e" "udp_payload_size (edns_opt_expire d e) = udp_payload_size e"
  "ext_rcode (edns_opt_expire d e) = ext_rcode e" "version (edns_opt_expire d e) = version e"
  "dnssec_ok (edns_opt_expire d e) = dnssec_ok e" "has_cookie (edns_opt_expire d e) = has_cookie e"
  "client_cookie (edns_opt_expire d e) = client_cookie e" "server_cookie (edns_opt_expire d e) = server_cookie e"
  "ede_list (edns_opt_expire d e) = ede_list e"
  by (simp_all add: edns_opt_expire_def Let_def)

lemma frame_karidns [option_frame]:
  "present (edns_opt_karidns d e) = present e" "udp_payload_size (edns_opt_karidns d e) = udp_payload_size e"
  "ext_rcode (edns_opt_karidns d e) = ext_rcode e" "version (edns_opt_karidns d e) = version e"
  "dnssec_ok (edns_opt_karidns d e) = dnssec_ok e" "has_cookie (edns_opt_karidns d e) = has_cookie e"
  "client_cookie (edns_opt_karidns d e) = client_cookie e" "server_cookie (edns_opt_karidns d e) = server_cookie e"
  "ede_list (edns_opt_karidns d e) = ede_list e" "has_expire_value (edns_opt_karidns d e) = has_expire_value e"
  "expire_value (edns_opt_karidns d e) = expire_value e"
  by (simp_all add: edns_opt_karidns_def Let_def)

lemma edns_option_keeps [simp]:
  "present (edns_option c d e) = present e"
  "udp_payload_size (edns_option c d e) = udp_payload_size e"
  "ext_rcode (edns_option c d e) = ext_rcode e"
  "version (edns_option c d e) = version e"
  "dnssec_ok (edns_option c d e) = dnssec_ok e"
  by (simp_all add: edns_option_def option_frame)

lemma edns_option_cookie [simp]:
  assumes "c \<noteq> 10"
  shows "has_cookie (edns_option c d e) = has_cookie e" "client_cookie (edns_option c d e) = client_cookie e"
    "server_cookie (edns_option c d e) = server_cookie e"
  using assms by (simp_all add: edns_option_def option_frame)

lemma edns_option_ede [simp]: "c \<noteq> 15 \<Longrightarrow> ede_list (edns_option c d e) = ede_list e"
  by (simp add: edns_option_def option_frame)

lemma edns_option_expire [simp]:
  assumes "c \<noteq> 9"
  shows "has_expire_value (edns_option c d e) = has_expire_value e" "expire_value (edns_option c d e) = expire_value e"
  using assms by (simp_all add: edns_option_def option_frame)

lemma read_options_append: "read_options e (xs @ ys) = read_options (read_options e xs) ys"
  by (induction e xs rule: read_options.induct) simp_all

lemma read_options_keeps [simp]:
  "present (read_options e opts) = present e" "udp_payload_size (read_options e opts) = udp_payload_size e"
  "ext_rcode (read_options e opts) = ext_rcode e" "version (read_options e opts) = version e"
  "dnssec_ok (read_options e opts) = dnssec_ok e"
  by (induction e opts rule: read_options.induct) simp_all

lemma read_options_cookie:
  "list_all (\<lambda>(c, d). c \<noteq> 10) opts \<Longrightarrow> has_cookie (read_options e opts) = has_cookie e \<and>
    client_cookie (read_options e opts) = client_cookie e \<and> server_cookie (read_options e opts) = server_cookie e"
  by (induction e opts rule: read_options.induct) simp_all

lemma read_options_ede: "list_all (\<lambda>(c, d). c \<noteq> 15) opts \<Longrightarrow> ede_list (read_options e opts) = ede_list e"
  by (induction e opts rule: read_options.induct) simp_all

lemma read_options_expire:
  "list_all (\<lambda>(c, d). c \<noteq> 9) opts \<Longrightarrow> has_expire_value (read_options e opts) = has_expire_value e \<and>
    expire_value (read_options e opts) = expire_value e"
  by (induction e opts rule: read_options.induct) simp_all

text \<open>The extended errors are read back in order.\<close>

definition ede_ok :: "parsed_ede_t \<Rightarrow> bool" where
  "ede_ok x \<longleftrightarrow> length (ede_text x) \<le> 255 \<and> 0 \<notin> set (ede_text x)"

lemma edns_option_15:
  assumes "ede_ok x" "length (ede_list e) < MAX_EDE_COUNT"
  shows "edns_option 15 (put16 (ede_code x) @ ede_text x) e = e\<lparr>ede_list := ede_list e @ [x]\<rparr>"
proof -
  have "c_string (ede_text x) = ede_text x"
    using assms(1) by (simp add: ede_ok_def c_string_def takeWhile_eq_all_conv) metis
  then show ?thesis
    using assms by (cases x) (auto simp: edns_option_def edns_opt_ede_def put16_def be16_put16 ede_ok_def)
qed

lemma read_options_edes:
  assumes "list_all ede_ok xs" "length (ede_list e) + length xs \<le> MAX_EDE_COUNT"
  shows "read_options e (map (\<lambda>x. (15, put16 (ede_code x) @ ede_text x)) xs) = e\<lparr>ede_list := ede_list e @ xs\<rparr>"
  using assms by (induction xs arbitrary: e) (simp_all add: edns_option_15)

lemma opt_options_short:
  assumes "edns_wf e cfg"
  shows "list_all (\<lambda>(c, d). length d < 65536) (opt_options e is_tcp cfg)"
proof -
  have "length d \<le> options_len opts" if "(c, d) \<in> set opts" for c d opts
    using that by (induction opts) auto
  then show ?thesis
    using options_len_bound [OF assms, of is_tcp] by (fastforce simp: list_all_iff)
qed

text \<open>The message: a header without questions, and the OPT record of \<open>e\<close>.\<close>

definition opt_message :: "bytes \<Rightarrow> edns_info_t \<Rightarrow> u8 \<Rightarrow> bool \<Rightarrow> edns_config option \<Rightarrow> bytes" where
  "opt_message hdr e rc is_tcp cfg =
    (let opts = opt_options e is_tcp cfg
     in hdr @ opt_record (Some e) rc (word_of_nat (options_len opts)) opts)"

definition opt_base :: "edns_info_t \<Rightarrow> u8 \<Rightarrow> edns_info_t" where
  "opt_base e rc = edns_zero\<lparr>present := True,
     udp_payload_size := (if server_udp_size e \<noteq> 0 then server_udp_size e else 1232),
     ext_rcode := rc, version := 0, dnssec_ok := dnssec_ok e, compact_answers_ok := False\<rparr>"

lemma ttl_fields:
  fixes rc hi lo :: u8
  shows "ucast (drop_bit 24 (be32 rc 0 hi lo) AND 0xFF) = rc"
    and "ucast (drop_bit 16 (be32 rc 0 hi lo) AND 0xFF) = (0 :: u8)"
    and "be32 rc 0 hi lo AND 0x8000 = 0 \<longleftrightarrow> \<not> bit hi 7"
    and "be32 rc 0 hi lo AND 0x4000 = 0 \<longleftrightarrow> \<not> bit hi 6"
proof -
  have m: "(0xFF :: u32) = mask 8" by (simp add: mask_eq_exp_minus_1)
  show "ucast (drop_bit 24 (be32 rc 0 hi lo) AND 0xFF) = rc"
    unfolding m by (rule bit_word_eqI) (auto simp: be32_def bit_simps dest: bit_imp_le_length)
  show "ucast (drop_bit 16 (be32 rc 0 hi lo) AND 0xFF) = (0 :: u8)"
    unfolding m by (rule bit_word_eqI) (auto simp: be32_def bit_simps dest: bit_imp_le_length)
  have e: "(0x8000 :: u32) = 2 ^ 15" "(0x4000 :: u32) = 2 ^ 14" by simp_all
  show "be32 rc 0 hi lo AND 0x8000 = 0 \<longleftrightarrow> \<not> bit hi 7"
    unfolding e and_exp_eq_0_iff_not_bit by (auto simp: be32_def bit_simps dest: bit_imp_le_length)
  show "be32 rc 0 hi lo AND 0x4000 = 0 \<longleftrightarrow> \<not> bit hi 6"
    unfolding e and_exp_eq_0_iff_not_bit by (auto simp: be32_def bit_simps dest: bit_imp_le_length)
qed

lemma parse_opt_message:
  assumes "edns_wf e cfg" "length hdr = DNS_HEADER_SIZE"
  shows "parse_edns_opt (opt_message hdr e rc is_tcp cfg) (length (opt_message hdr e rc is_tcp cfg)) 0 0 0 1 =
    Ok (read_options (opt_base e rc) (opt_options e is_tcp cfg))"
proof -
  define opts where "opts = opt_options e is_tcp cfg"
  define udp where "udp = (if server_udp_size e \<noteq> 0 then server_udp_size e else 1232)"
  define flags :: u16 where "flags = (if dnssec_ok e then 0x8000 else 0)"
  define rdlen :: u16 where "rdlen = word_of_nat (options_len opts)"
  define pre where "pre = hdr @ [0, 0, 41] @ put16 udp @ [rc, 0] @ put16 flags @ put16 rdlen"
  define msg where "msg = opt_message hdr e rc is_tcp cfg"
  have hl: "length hdr = 12" using assms(2) by (simp add: DNS_HEADER_SIZE_def)
  have msg: "msg = pre @ concat (map put_option opts)"
    by (simp add: msg_def opt_message_def Let_def opts_def pre_def opt_record_def udp_def flags_def rdlen_def)
  have lp: "length pre = 23" by (simp add: pre_def hl)
  have lm: "length msg = 23 + options_len opts" by (simp add: msg lp length_put_options)
  have at: "msg ! 12 = 0" "be16 (msg ! 13) (msg ! 14) = 41" "be16 (msg ! 15) (msg ! 16) = udp"
    "msg ! 17 = rc" "msg ! 18 = 0" "msg ! 19 = ucast (drop_bit 8 flags)" "msg ! 20 = ucast flags"
    "be16 (msg ! 21) (msg ! 22) = rdlen"
    by (simp_all add: msg pre_def nth_append hl put16_def be16_put16) (simp add: be16_def)
  have ur: "unat rdlen = options_len opts"
    using options_len_bound [OF assms(1), of is_tcp] by (simp add: rdlen_def opts_def unat_of_nat)
  have hi: "bit (ucast (drop_bit 8 flags) :: u8) 7 \<longleftrightarrow> dnssec_ok e" "\<not> bit (ucast (drop_bit 8 flags) :: u8) 6"
    by (simp_all add: flags_def)
  have "edns_read_opt msg (length msg) 13 udp (options_len opts) (edns_zero\<lparr>udp_payload_size := 512\<rparr>) =
      edns_options_loop msg (23 + options_len opts) 23 (opt_base e rc)"
    using lm by (simp add: edns_read_opt_def rd32_def rd8_def at ttl_fields hi opt_base_def udp_def Let_def)
  also have "\<dots> = Ok (read_options (opt_base e rc) opts)"
    using edns_options_loop_put [OF opt_options_short [OF assms(1), of is_tcp], of pre "opt_base e rc"]
    by (simp add: msg lp opts_def)
  finally have read: "edns_read_opt msg (length msg) 13 udp (options_len opts) (edns_zero\<lparr>udp_payload_size := 512\<rparr>) =
      Ok (read_options (opt_base e rc) opts)" .
  have name: "edns_scan_name msg (length msg) 12 = Ok 13"
    using lm at(1) by (subst edns_scan_name.simps) (simp add: rd8_def)
  show ?thesis
    unfolding msg_def [symmetric] parse_edns_opt_def DNS_HEADER_SIZE_def opts_def [symmetric]
    using lm at ur read name by (simp add: rd8_def)
qed

section \<open>Stores into the response\<close>

definition upd :: "bytes \<Rightarrow> nat \<Rightarrow> bytes \<Rightarrow> bytes" where
  "upd buf i bs = take i buf @ bs @ drop (i + length bs) buf"

lemma blit_upd: "i + length bs \<le> length buf \<Longrightarrow> blit buf i bs k = k (upd buf i bs)"
  by (simp add: blit_def upd_def)

lemma length_upd [simp]: "i + length bs \<le> length buf \<Longrightarrow> length (upd buf i bs) = length buf"
  by (simp add: upd_def)

lemma nth_upd:
  "\<lbrakk>i + length bs \<le> length buf; j < length buf\<rbrakk> \<Longrightarrow>
    upd buf i bs ! j = (if i \<le> j \<and> j < i + length bs then bs ! (j - i) else buf ! j)"
  by (auto simp: upd_def nth_append)

lemma nth_0_upd:
  "0 < i \<Longrightarrow> i + length bs \<le> length buf \<Longrightarrow> upd buf i bs ! 0 = buf ! 0"
  "0 < length bs \<Longrightarrow> upd buf 0 bs ! 0 = bs ! 0"
  by (cases buf; auto simp: upd_def nth_append)+

lemma drop_upd: "\<lbrakk>i + length bs \<le> n; i + length bs \<le> length buf\<rbrakk> \<Longrightarrow> drop n (upd buf i bs) = drop n buf"
  by (simp add: upd_def)

lemma upd_Nil [simp]: "upd buf i [] = buf"
  by (simp add: upd_def)

lemma assemble_edns_opt_upd:
  assumes "edns_wf e cfg" "max_res_len \<le> length res" "max_res_len \<le> 65535" "offset \<le> max_res_len"
  shows "\<exists>w a e'. assemble_edns_opt res max_res_len offset 0 (Some e) rc is_tcp cfg =
      Ok (upd res offset w, offset + length w, a, e') \<and> offset + length w \<le> max_res_len"
proof -
  let ?n = "options_len (opt_options e is_tcp cfg)"
  define e' where "e' = (if max_res_len < offset + 11 + ?n \<and> ede_list e \<noteq> [] then e\<lparr>ede_list := []\<rparr> else e)"
  define w where "w = opt_record (Some e') rc (word_of_nat (options_len (opt_options e' is_tcp cfg))) (opt_options e' is_tcp cfg)"
  have eq: "assemble_edns_opt res max_res_len offset 0 (Some e) rc is_tcp cfg =
      (if offset + length w \<le> max_res_len then Ok (upd res offset w, offset + length w, 1, Some e') else Ok (res, offset, 0, Some e'))"
    unfolding assemble_edns_opt_eq [OF assms(1,2,3)] e'_def w_def Let_def upd_def by simp
  show ?thesis
  proof (cases "offset + length w \<le> max_res_len")
    case True
    with eq show ?thesis by (intro exI [of _ w] exI [of _ 1] exI [of _ "Some e'"]) simp
  next
    case False
    with eq assms(4) show ?thesis by (intro exI [of _ "[]"] exI [of _ 0] exI [of _ "Some e'"]) simp
  qed
qed

lemma kept_questions_bounds:
  assumes "n \<le> length req" "p \<le> n"
  shows "\<exists>r. kept_questions req n c p = Ok r \<and> (\<forall>qe. r = Some qe \<longrightarrow> p \<le> qe \<and> qe \<le> n)"
  using assms(2)
proof (induction c arbitrary: p)
  case (Suc c)
  show ?case
  proof (cases "skip_wire_name req n p")
    case (Ok nx)
    have "p < nx" using skip_wire_name_bounds [OF assms(1) Ok] by simp
    with Ok Suc.IH [of "nx + 4"] show ?thesis by force
  qed (use skip_wire_name_no_Fault [OF assms(1), of p] in auto)
qed simp

lemma question_walk_no_Error: "question_walk_loop pkt n oc qd c i p f fc seen \<noteq> Error"
proof (induction c arbitrary: i p f fc seen)
  case (Suc c)
  then show ?case by (auto simp: try_result_eq_Error Let_def rd16_def rd8_def split: if_splits prod.splits)
qed simp

lemma question_compressed_no_Error: "question_compressed_loop pkt n p \<noteq> Error"
proof (induction "n - p" arbitrary: p rule: less_induct)
  case less
  then show ?case by (subst question_compressed_loop.simps) (auto simp: rd8_def)
qed

lemma question_section_ok_Ok:
  assumes "n \<le> length req" "DNS_HEADER_SIZE \<le> n"
  shows "\<exists>b. dns_question_section_ok req n = Ok b"
proof -
  obtain c where c: "wire_question_name_compressed req n = Ok c"
    using question_compressed_no_Fault [OF assms(1)] question_compressed_no_Error
    by (metis result.exhaust wire_question_name_compressed_def)
  have "question_section_walk req n \<noteq> Error"
    using assms c question_walk_no_Error by (auto simp: question_section_walk_def DNS_HEADER_SIZE_def)
  with question_section_walk_no_Fault [OF assms] show ?thesis
    using assms(2) by (cases "question_section_walk req n") (auto simp: dns_question_section_ok_def)
qed

lemma response_flags:
  fixes r2 r3 rcode :: u8
  shows "bit (0x80 OR (r2 AND 0x78) OR (if q then r2 AND 0x01 else 0) OR (if False then 0x04 else 0)) 7"
    and "(0x80 OR (r2 AND 0x78) OR (if q then r2 AND 0x01 else 0) OR (if False then 0x04 else 0)) AND 0x78 = r2 AND 0x78"
    and "((if q then r3 AND 0x10 else 0) OR (rcode AND 0x0F)) AND 0x0F = rcode AND 0x0F"
  by (simp_all add: bit_or_iff bit.conj_disj_distrib2 and.assoc)

text \<open>The response as a sequence of stores.\<close>

lemma dns_build_error_response_stores:
  assumes "req_len \<le> length req" "max_res_len \<le> length res" "DNS_HEADER_SIZE \<le> req_len" "DNS_HEADER_SIZE \<le> max_res_len"
    and "max_res_len \<le> 65535" "case edns of None \<Rightarrow> True | Some e \<Rightarrow> edns_wf e cfg"
  shows "\<exists>h q qd w a. h = [req ! 0, req ! 1,
         0x80 OR (req ! 2 AND 0x78) OR (if drop_bit 3 (req ! 2) AND 0x0F = 0 then req ! 2 AND 0x01 else 0) OR (if False then 0x04 else 0),
         (if drop_bit 3 (req ! 2) AND 0x0F = 0 then req ! 3 AND 0x10 else 0) OR (rcode AND 0x0F)] \<and>
    12 + length q + length w \<le> max_res_len \<and>
    dns_build_error_response req req_len res max_res_len rcode ext qd_keep edns is_tcp cfg =
      Ok (upd (upd (upd (upd (upd res 0 h) 12 q) 4 (put16 qd @ [0, 0, 0, 0])) (12 + length q) w) 10 (put16 a),
          12 + length q + length w)"
proof -
  obtain qok where qok: "(if rcode = 1 \<and> ext = 0 then dns_question_section_ok req req_len else Ok True) = Ok qok"
    using question_section_ok_Ok [OF assms(1,3)] by (cases "rcode = 1 \<and> ext = 0") auto
  obtain kept where kept: "kept_questions req req_len (unat qd_keep) DNS_HEADER_SIZE = Ok kept"
    and kb: "\<And>qe. kept = Some qe \<Longrightarrow> DNS_HEADER_SIZE \<le> qe \<and> qe \<le> req_len"
    using kept_questions_bounds [OF assms(1,3)] by blast
  obtain qd qe where q: "(case kept of None \<Rightarrow> (0, DNS_HEADER_SIZE)
      | Some qe \<Rightarrow> if max_res_len < qe \<or> 65535 < qe then (0, DNS_HEADER_SIZE) else (qd_keep, qe)) = (qd, qe)" by fastforce
  then have qe: "DNS_HEADER_SIZE \<le> qe" "qe \<le> max_res_len" "qe \<le> req_len"
    using kb assms by (auto split: option.splits if_splits)
  define h where "h = [req ! 0, req ! 1,
         0x80 OR (req ! 2 AND 0x78) OR (if drop_bit 3 (req ! 2) AND 0x0F = 0 then req ! 2 AND 0x01 else 0) OR (if False then 0x04 else 0),
         (if drop_bit 3 (req ! 2) AND 0x0F = 0 then req ! 3 AND 0x10 else 0) OR (rcode AND 0x0F)]"
  define qs where "qs = take (qe - DNS_HEADER_SIZE) (drop DNS_HEADER_SIZE req)"
  define r3 where "r3 = upd (upd (upd res 0 h) 12 qs) 4 (put16 qd @ [0, 0, 0, 0])"
  have lh: "length h = 4" by (simp add: h_def)
  have lq: "length qs = qe - 12" using qe assms(1) by (simp add: qs_def DNS_HEADER_SIZE_def)
  have l: "12 \<le> qe" "qe \<le> length res" "12 \<le> length res" using qe assms by (simp_all add: DNS_HEADER_SIZE_def)
  have l3: "length r3 = length res" using lh lq l by (simp add: r3_def)
  define ed where "ed = (if qok then edns else None)"
  define step where "step = (case ed of
      Some e \<Rightarrow> if present e then assemble_edns_opt r3 max_res_len qe 0
          (Some (e\<lparr>has_mqtype_query := False, mqtypes := [], send_expire := False\<rparr>)) ext is_tcp cfg else Ok (r3, qe, 0, ed)
    | None \<Rightarrow> Ok (r3, qe, 0, ed))"
  have "\<exists>w a e'. step = Ok (upd r3 qe w, qe + length w, a, e') \<and> qe + length w \<le> max_res_len"
  proof (cases "ed = None \<or> \<not> present (the ed)")
    case True
    then have "step = Ok (r3, qe, 0, ed)" by (cases ed) (simp_all add: step_def)
    with qe show ?thesis by (intro exI [of _ "[]"] exI [of _ 0] exI [of _ ed]) simp
  next
    case False
    then obtain e where e: "ed = Some e" "present e" by auto
    then have "edns = Some e" by (simp add: ed_def split: if_splits)
    then have "edns_wf (e\<lparr>has_mqtype_query := False, mqtypes := [], send_expire := False\<rparr>) cfg"
      using assms(6) by (simp add: edns_wf_def)
    from assemble_edns_opt_upd [OF this, of max_res_len r3 qe ext is_tcp] show ?thesis
      using e qe assms(2,5) l3 by (simp add: step_def)
  qed
  then obtain w a e' where w: "step = Ok (upd r3 qe w, qe + length w, a, e')" "qe + length w \<le> max_res_len"
    by blast
  have len: "dns_init_response_header req rcode False k = k h" for k :: "bytes \<Rightarrow> (bytes \<times> nat) result"
    using assms(1,3) by (auto simp: dns_init_response_header_def DNS_HEADER_SIZE_def rd8_def h_def Let_def)
  have lab: "rd_label req DNS_HEADER_SIZE (qe - DNS_HEADER_SIZE) k = k qs" for k :: "bytes \<Rightarrow> (bytes \<times> nat) result"
    using qe assms(1) by (simp add: rd_label_def qs_def)
  have "dns_build_error_response req req_len res max_res_len rcode ext qd_keep edns is_tcp cfg =
      bind_result step (\<lambda>(res, offset, arcount, _). blit res 10 (put16 (word_of_nat arcount)) (\<lambda>res. Ok (res, offset)))"
    unfolding dns_build_error_response_def qok kept bind_result.simps Let_def len q prod.case lab step_def ed_def r3_def
    using assms(3,4) lh lq l by (simp add: blit_upd DNS_HEADER_SIZE_def)
  also have "\<dots> = Ok (upd (upd r3 qe w) 10 (put16 (word_of_nat a)), qe + length w)"
    using w l l3 assms(2) by (simp add: blit_upd)
  finally show ?thesis
    using lq l w(2) unfolding r3_def
    by (intro exI [of _ h] exI [of _ qs] exI [of _ qd] exI [of _ w] exI [of _ "word_of_nat a"]) (simp add: h_def)
qed

section \<open>Properties\<close>



lemma edns_opt_message_roundtrip:
  assumes "edns_wf e cfg" and "length hdr = DNS_HEADER_SIZE"
    and "server_cookie e = [] \<or> 8 \<le> length (server_cookie e)" and "list_all ede_ok (ede_list e)"
  shows "\<exists>r. parse_edns_opt (opt_message hdr e rc is_tcp cfg) (length (opt_message hdr e rc is_tcp cfg)) 0 0 0 1 = Ok r \<and>
    present r \<and> udp_payload_size r = (if server_udp_size e \<noteq> 0 then server_udp_size e else 1232) \<and>
    ext_rcode r = rc \<and> version r = 0 \<and> dnssec_ok r = dnssec_ok e \<and>
    has_cookie r = has_cookie e \<and>
    (if has_cookie e then client_cookie r = client_cookie e \<and> server_cookie r = server_cookie e else True) \<and>
    ede_list r = ede_list e \<and>
    has_expire_value r = send_expire e \<and> (if send_expire e then expire_value r = send_expire_value e else True)"
proof -
  define a where "a = (if has_cookie e then [(10 :: u16, client_cookie e @ server_cookie e)] else [])"
  define b where "b = map (\<lambda>x. (15 :: u16, put16 (ede_code x) @ ede_text x)) (ede_list e)"
  define x where "x = (if has_mqtype_query e then [(21 :: u16, concat (map put16 (mqtypes e)))] else []) @
    (if has_nsid_query e then (case cfg_nsid cfg of None \<Rightarrow> [] | Some n \<Rightarrow> [(3, take (unat (word_of_nat (length n) :: u16)) n)]) else []) @
    (case cfg of
       Some c \<Rightarrow> if is_tcp \<and> has_keepalive_query e \<and> cfg_reuse cfg then [(11, put16 (keepalive_value c))] else []
     | None \<Rightarrow> []) @
    (if has_karidns_ext e then [(65153, karidns_ext_version e # put32 (karidns_ext_hash e))] else [])"
  define y where "y = (if send_expire e then [(9 :: u16, put32 (send_expire_value e))] else [])"
  define z where "z = (if has_ecs e \<and> cfg_ecs cfg
     then [(8 :: u16, put16 (ecs_family e) @ [ecs_source_prefix e, ecs_scope_prefix e] @ take (ecs_addr_bytes e) (ecs_addr e))] else [])"
  have opts: "opt_options e is_tcp cfg = a @ b @ x @ y @ z"
    by (simp add: opt_options_def a_def b_def x_def y_def z_def)
  have codes: "list_all (\<lambda>(c, d). c \<noteq> 10) (b @ x @ y @ z)" "list_all (\<lambda>(c, d). c \<noteq> 15) (x @ y @ z)"
    "list_all (\<lambda>(c, d). c \<noteq> 9) (a @ b @ x)" "list_all (\<lambda>(c, d). c \<noteq> 9) z"
    by (simp_all add: a_def b_def x_def y_def z_def list.pred_map comp_def list.pred_True split: option.splits)
  define r where "r = read_options (opt_base e rc) (opt_options e is_tcp cfg)"
  define r1 where "r1 = read_options (opt_base e rc) a"
  have r1: "has_cookie r1 = has_cookie e" "has_cookie e \<Longrightarrow> client_cookie r1 = client_cookie e \<and> server_cookie r1 = server_cookie e"
    "ede_list r1 = []"
    using assms(1,3) by (auto simp: r1_def a_def opt_base_def edns_zero_def edns_option_def edns_opt_cookie_def edns_wf_def)
  have r: "r = read_options r1 (b @ x @ y @ z)" by (simp add: r_def r1_def opts read_options_append)
  have "has_cookie r = has_cookie e" "has_cookie e \<Longrightarrow> client_cookie r = client_cookie e \<and> server_cookie r = server_cookie e"
    using read_options_cookie [OF codes(1), of r1] r1 by (simp_all add: r)
  moreover have "ede_list r = ede_list e"
    using read_options_ede [OF codes(2)] read_options_edes [OF assms(4), of r1] r1 assms(1)
    by (simp add: r read_options_append b_def edns_wf_def)
  moreover have "has_expire_value r = send_expire e \<and> (if send_expire e then expire_value r = send_expire_value e else True)"
  proof -
    let ?r2 = "read_options (opt_base e rc) (a @ b @ x)"
    have "\<not> has_expire_value ?r2" using read_options_expire [OF codes(3), of "opt_base e rc"] by (simp add: opt_base_def edns_zero_def)
    then have "has_expire_value (read_options ?r2 y) = send_expire e \<and>
        (if send_expire e then expire_value (read_options ?r2 y) = send_expire_value e else True)"
      by (simp add: y_def edns_option_def edns_opt_expire_def put32_def be32_put32)
    moreover have "r = read_options (read_options ?r2 y) z" by (simp add: r_def opts read_options_append)
    ultimately show ?thesis using read_options_expire [OF codes(4)] by simp
  qed
  moreover have "parse_edns_opt (opt_message hdr e rc is_tcp cfg) (length (opt_message hdr e rc is_tcp cfg)) 0 0 0 1 = Ok r"
    using parse_opt_message [OF assms(1,2)] by (simp add: r_def)
  moreover have "present r \<and> udp_payload_size r = (if server_udp_size e \<noteq> 0 then server_udp_size e else 1232) \<and>
      ext_rcode r = rc \<and> version r = 0 \<and> dnssec_ok r = dnssec_ok e"
    by (simp add: r_def opt_base_def)
  ultimately show ?thesis by (intro exI [of _ r] conjI) (simp_all split: if_splits)
qed

text \<open>
  C6.  What is written is read back: when \<open>assemble_edns_opt\<close> has appended an OPT record to a
  header, \<open>parse_edns_opt\<close> on the message returns the advertised size, the extended RCODE,
  the DO bit, the cookies, the extended errors in order, and the EXPIRE value of the state
  that was written, and that state is the given one, up to extended errors dropped for space.
\<close>

theorem edns_opt_roundtrip:
  assumes "edns_wf e cfg" and "max_res_len \<le> length res" and "max_res_len \<le> 65535"
    and "server_cookie e = [] \<or> 8 \<le> length (server_cookie e)" and "list_all ede_ok (ede_list e)"
    and "assemble_edns_opt res max_res_len DNS_HEADER_SIZE 0 (Some e) rc is_tcp cfg = Ok (res', n, 1, Some e')"
  shows "(e' = e \<or> e' = e\<lparr>ede_list := []\<rparr>) \<and>
    (\<exists>r. parse_edns_opt (take n res') n 0 0 0 1 = Ok r \<and>
    present r \<and> udp_payload_size r = (if server_udp_size e \<noteq> 0 then server_udp_size e else 1232) \<and>
    ext_rcode r = rc \<and> version r = 0 \<and> dnssec_ok r = dnssec_ok e \<and>
    has_cookie r = has_cookie e \<and>
    (if has_cookie e then client_cookie r = client_cookie e \<and> server_cookie r = server_cookie e else True) \<and>
    ede_list r = ede_list e' \<and>
    has_expire_value r = send_expire e \<and> (if send_expire e then expire_value r = send_expire_value e else True))"
proof -
  let ?k = "options_len (opt_options e is_tcp cfg)"
  define x where "x = (if max_res_len < DNS_HEADER_SIZE + 11 + ?k \<and> ede_list e \<noteq> [] then e\<lparr>ede_list := []\<rparr> else e)"
  define w where "w = opt_record (Some x) rc (word_of_nat (options_len (opt_options x is_tcp cfg))) (opt_options x is_tcp cfg)"
  have eq: "assemble_edns_opt res max_res_len DNS_HEADER_SIZE 0 (Some e) rc is_tcp cfg =
      (if DNS_HEADER_SIZE + length w \<le> max_res_len
       then Ok (take DNS_HEADER_SIZE res @ w @ drop (DNS_HEADER_SIZE + length w) res, DNS_HEADER_SIZE + length w, 0 + 1, Some x)
       else Ok (res, DNS_HEADER_SIZE, 0, Some x))"
    unfolding assemble_edns_opt_eq [OF assms(1-3)] x_def w_def Let_def ..
  have e': "e' = x" "n = DNS_HEADER_SIZE + length w" "DNS_HEADER_SIZE + length w \<le> max_res_len"
    "res' = take DNS_HEADER_SIZE res @ w @ drop (DNS_HEADER_SIZE + length w) res"
    using assms(6) unfolding eq by (auto split: if_splits)
  have x: "x = e \<or> x = e\<lparr>ede_list := []\<rparr>" by (simp add: x_def)
  have wf: "edns_wf x cfg" using assms(1) by (simp add: x_def edns_wf_no_ede)
  have hd: "length (take DNS_HEADER_SIZE res) = DNS_HEADER_SIZE" using e'(3) assms(2) by simp
  have msg: "take n res' = opt_message (take DNS_HEADER_SIZE res) x rc is_tcp cfg"
    using hd by (simp add: e' opt_message_def w_def Let_def)
  have len: "n = length (opt_message (take DNS_HEADER_SIZE res) x rc is_tcp cfg)"
    using hd by (simp add: e'(2) opt_message_def w_def Let_def)
  from x have same: "server_cookie x = server_cookie e" "client_cookie x = client_cookie e" "has_cookie x = has_cookie e"
    "dnssec_ok x = dnssec_ok e" "server_udp_size x = server_udp_size e" "send_expire x = send_expire e"
    "send_expire_value x = send_expire_value e" and ede: "list_all ede_ok (ede_list x)"
    using assms(5) by auto
  have "server_cookie x = [] \<or> 8 \<le> length (server_cookie x)" using assms(4) by (simp add: same)
  from edns_opt_message_roundtrip [OF wf hd this ede, of rc is_tcp, folded msg len, unfolded same] x show ?thesis
    unfolding e'(1) by (rule conjI [rotated])
qed

theorem edns_opt_roundtrip_witness:
  "\<exists>res' n e' r. assemble_edns_opt (replicate 64 0) 64 DNS_HEADER_SIZE 0 (Some (edns_zero\<lparr>dnssec_ok := True\<rparr>)) 1 False None =
      Ok (res', n, 1, Some e') \<and> parse_edns_opt (take n res') n 0 0 0 1 = Ok r \<and> present r \<and> ext_rcode r = 1 \<and> dnssec_ok r"
proof -
  let ?e = "edns_zero\<lparr>dnssec_ok := True\<rparr>"
  have h: "edns_wf ?e None" "64 \<le> length (replicate 64 (0 :: u8))" "(64 :: nat) \<le> 65535"
    "server_cookie ?e = [] \<or> 8 \<le> length (server_cookie ?e)" "list_all ede_ok (ede_list ?e)" "dnssec_ok ?e"
    by (simp_all add: edns_wf_def edns_zero_def cfg_nsid_def)
  obtain res' n e' where a: "assemble_edns_opt (replicate 64 0) 64 DNS_HEADER_SIZE 0 (Some ?e) 1 False None = Ok (res', n, 1, Some e')"
    unfolding assemble_edns_opt_eq [OF h(1-3)]
    by (simp add: Let_def opt_options_def edns_zero_def DNS_HEADER_SIZE_def)
  from edns_opt_roundtrip [OF h(1-5) a] h(6) obtain r where
    "parse_edns_opt (take n res') n 0 0 0 1 = Ok r" "present r" "ext_rcode r = 1" "dnssec_ok r"
    by (elim exE conjE) (rule that, simp_all)
  with a show ?thesis by (intro exI [of _ res'] exI [of _ n] exI [of _ e'] exI [of _ r] conjI)
qed



text \<open>
  C18.  An error response is well formed, for every request of at least a header: the
  function does not fault and returns a length between 12 and \<open>max_res_len\<close>; the response
  has the ID, the opcode and QR = 1 of a reply, the RCODE asked for, no answer and no
  authority records, and octets behind \<open>max_res_len\<close> are not touched.
\<close>

theorem dns_build_error_response_wf:
  assumes "req_len \<le> length req" "max_res_len \<le> length res" "DNS_HEADER_SIZE \<le> req_len" "DNS_HEADER_SIZE \<le> max_res_len"
    and "max_res_len \<le> 65535" "case edns of None \<Rightarrow> True | Some e \<Rightarrow> edns_wf e cfg"
  shows "\<exists>res' n. dns_build_error_response req req_len res max_res_len rcode ext qd_keep edns is_tcp cfg = Ok (res', n) \<and>
    DNS_HEADER_SIZE \<le> n \<and> n \<le> max_res_len \<and> length res' = length res \<and>
    res' ! 0 = req ! 0 \<and> res' ! 1 = req ! 1 \<and> bit (res' ! 2) 7 \<and> res' ! 2 AND 0x78 = req ! 2 AND 0x78 \<and>
    res' ! 3 AND 0x0F = rcode AND 0x0F \<and> be16 (res' ! 6) (res' ! 7) = 0 \<and> be16 (res' ! 8) (res' ! 9) = 0 \<and>
    drop max_res_len res' = drop max_res_len res"
proof -
  from dns_build_error_response_stores [OF assms, of rcode ext qd_keep is_tcp] obtain h q qd w a where
    h: "h = [req ! 0, req ! 1,
         0x80 OR (req ! 2 AND 0x78) OR (if drop_bit 3 (req ! 2) AND 0x0F = 0 then req ! 2 AND 0x01 else 0) OR (if False then 0x04 else 0),
         (if drop_bit 3 (req ! 2) AND 0x0F = 0 then req ! 3 AND 0x10 else 0) OR (rcode AND 0x0F)]"
    and n: "12 + length q + length w \<le> max_res_len"
    and run: "dns_build_error_response req req_len res max_res_len rcode ext qd_keep edns is_tcp cfg =
      Ok (upd (upd (upd (upd (upd res 0 h) 12 q) 4 (put16 qd @ [0, 0, 0, 0])) (12 + length q) w) 10 (put16 a),
          12 + length q + length w)" by (elim exE conjE) (rule that)
  define res' where "res' = upd (upd (upd (upd (upd res 0 h) 12 q) 4 (put16 qd @ [0, 0, 0, 0])) (12 + length q) w) 10 (put16 a)"
  have lh: "length h = 4" by (simp add: h)
  have l: "length res' = length res" using n assms(2) lh by (simp add: res'_def)
  have nth: "res' ! 0 = h ! 0" "res' ! 1 = h ! 1" "res' ! 2 = h ! 2" "res' ! 3 = h ! 3"
    "res' ! 6 = 0" "res' ! 7 = 0" "res' ! 8 = 0" "res' ! 9 = 0"
    using n assms(2) lh by (simp_all add: res'_def nth_upd nth_0_upd nth_append put16_def)
  have "drop max_res_len res' = drop max_res_len res"
    using n assms(2) lh by (simp add: res'_def drop_upd)
  moreover have "bit (h ! 2) 7" "h ! 2 AND 0x78 = req ! 2 AND 0x78" "h ! 3 AND 0x0F = rcode AND 0x0F"
    unfolding h by (simp_all only: response_flags nth_Cons_0 numeral_2_eq_2 numeral_3_eq_3 nth_Cons_Suc One_nat_def)
  moreover have "h ! 0 = req ! 0" "h ! 1 = req ! 1" by (simp_all add: h)
  moreover have "be16 0 0 = 0" by (simp add: be16_def)
  ultimately show ?thesis
    using run n l unfolding res'_def [symmetric]
    by (intro exI [of _ res'] exI [of _ "12 + length q + length w"]) (simp add: nth nth(2) [unfolded One_nat_def] DNS_HEADER_SIZE_def)
qed

theorem dns_build_error_response_wf_witness:
  "\<exists>res' n. dns_build_error_response (replicate 12 7) 12 (replicate 512 0) 512 1 0 1 None False None = Ok (res', n) \<and>
    n \<le> 512 \<and> bit (res' ! 2) 7"
  using dns_build_error_response_wf [of 12 "replicate 12 7" 512 "replicate 512 0" None None 1 0 1 False]
  by (auto simp: DNS_HEADER_SIZE_def)

end
