(* ===== verification/Utils.thy ===== *)
theory Utils
  imports Names
begin

text \<open>
  Small helpers of \<^verbatim>\<open>src/dns_utils.c\<close>: splitting a path for \<open>openat\<close>, hexadecimal text,
  serial number arithmetic, the UTF-8 check of configured paths and the search for an
  unescaped character.
\<close>

section \<open>Paths\<close>

abbreviation SLASH :: u8 where "SLASH \<equiv> 0x2F"

text \<open>\<open>strrchr\<close>: what stands before and behind the last occurrence.\<close>

fun split_last :: "u8 \<Rightarrow> bytes \<Rightarrow> (bytes \<times> bytes) option" where
  "split_last c [] = None"
| "split_last c (x # xs) =
    (case split_last c xs of
       Some (a, b) \<Rightarrow> Some (x # a, b)
     | None \<Rightarrow> if x = c then Some ([], xs) else None)"

text \<open>
  The two buffers on success, \<open>None\<close> for \<open>false\<close>; \<open>path_max\<close> is the system's \<open>PATH_MAX\<close>.
\<close>

definition split_path_for_openat :: "nat \<Rightarrow> bytes option \<Rightarrow> nat \<Rightarrow> nat \<Rightarrow> (bytes \<times> bytes) option" where
  "split_path_for_openat path_max path dir_out_sz base_out_sz =
    (case path of
       None \<Rightarrow> None
     | Some p \<Rightarrow>
        if p = [] then None
        else if path_max \<le> length p then None
        else
          (case (case split_last SLASH p of
                   None \<Rightarrow>
                     if base_out_sz \<le> length p then None
                     else if dir_out_sz \<le> 1 then None
                     else Some ([DOT], p)
                 | Some (before, base) \<Rightarrow>
                     let dir_len = (if length before = 0 then 1 else length before) in
                     if dir_out_sz \<le> dir_len then None
                     else if base = [] \<or> base_out_sz \<le> length base then None
                     else Some (take dir_len p, base)) of
             None \<Rightarrow> None
           | Some (dir_out, base_out) \<Rightarrow>
               if base_out = [DOT, DOT] \<or> base_out = [DOT] then None
               else if SLASH \<in> set base_out then None
               else Some (dir_out, base_out)))"

definition get_base_dir :: "bytes \<Rightarrow> bytes" where
  "get_base_dir path =
    (case split_last SLASH path of
       None \<Rightarrow> [DOT]
     | Some (before, _) \<Rightarrow> take (if length before = 0 then 1 else length before) path)"

section \<open>Hexadecimal text\<close>

definition hex_char_to_val :: "u8 \<Rightarrow> int" where
  "hex_char_to_val c =
    (if 48 \<le> c \<and> c \<le> 57 then int (unat c) - 48
     else if 97 \<le> c \<and> c \<le> 102 then int (unat c) - 97 + 10
     else if 65 \<le> c \<and> c \<le> 70 then int (unat c) - 65 + 10
     else - 1)"

fun hex_loop :: "nat \<Rightarrow> int \<Rightarrow> bytes \<Rightarrow> bytes \<Rightarrow> bytes result" where
  "hex_loop out_cap high out [] = Ok out"
| "hex_loop out_cap high out (h # hs) =
    (let v = hex_char_to_val h in
     if v < 0 then hex_loop out_cap high out hs
     else if high < 0 then hex_loop out_cap v out hs
     else if out_cap \<le> length out then Error
     else wr8 out_cap out (word_of_int (high * 16 + v)) (\<lambda>out. hex_loop out_cap (- 1) out hs))"

text \<open>The octets written; \<open>Error\<close> is \<open>(size_t)-1\<close>.\<close>

definition hex_decode :: "bytes \<Rightarrow> nat \<Rightarrow> bytes result" where
  "hex_decode hex out_cap = hex_loop out_cap (- 1) [] hex"

section \<open>Serial numbers\<close>

definition serial_is_newer :: "u32 \<Rightarrow> u32 \<Rightarrow> bool" where
  "serial_is_newer s1 s2 \<longleftrightarrow> 0 < sint (s1 - s2)"

section \<open>UTF-8 paths\<close>

text \<open>The bits of a lead octet above 0x7F and the number of octets that follow it.\<close>

definition utf8_lead :: "u8 \<Rightarrow> (u32 \<times> nat) option" where
  "utf8_lead c =
    (if 0xC2 \<le> c \<and> c \<le> 0xDF then Some (ucast (c AND 0x1F), 1)
     else if 0xE0 \<le> c \<and> c \<le> 0xEF then Some (ucast (c AND 0x0F), 2)
     else if 0xF0 \<le> c \<and> c \<le> 0xF4 then Some (ucast (c AND 0x07), 3)
     else None)"

fun utf8_cont :: "u32 \<Rightarrow> bytes \<Rightarrow> u32 option" where
  "utf8_cont cp [] = Some cp"
| "utf8_cont cp (b # bs) =
    (if b AND 0xC0 \<noteq> 0x80 then None else utf8_cont (push_bit 6 cp OR ucast (b AND 0x3F)) bs)"

definition min_cp :: "u32 list" where
  "min_cp = [0, 0x80, 0x800, 0x10000]"

definition utf8_bad :: "nat \<Rightarrow> u32 \<Rightarrow> bool" where
  "utf8_bad k cp \<longleftrightarrow>
    cp < min_cp ! k \<or> 0x10FFFF < cp \<or> (0xD800 \<le> cp \<and> cp \<le> 0xDFFF) \<or> (0x80 \<le> cp \<and> cp \<le> 0x9F)"

function dns_path_is_valid_utf8 :: "bytes \<Rightarrow> bool" where
  "dns_path_is_valid_utf8 [] \<longleftrightarrow> True"
| "dns_path_is_valid_utf8 (c # rest) \<longleftrightarrow>
    (if c < 0x80 then (if c < 0x20 \<or> c = 0x7F then False else dns_path_is_valid_utf8 rest)
     else
       case utf8_lead c of
         None \<Rightarrow> False
       | Some (cp, k) \<Rightarrow>
          if length rest < k then False
          else
            (case utf8_cont cp (take k rest) of
               None \<Rightarrow> False
             | Some cp \<Rightarrow> if utf8_bad k cp then False else dns_path_is_valid_utf8 (drop k rest)))"
  by pat_completeness auto
termination
  by (relation "measure length") auto

section \<open>Unescaped characters\<close>

text \<open>The position of the first unescaped \<open>c\<close>; \<open>i\<close> is the position of the rest of the string.\<close>

fun strchr_unescaped_loop :: "u8 \<Rightarrow> nat \<Rightarrow> bytes \<Rightarrow> nat option" where
  "strchr_unescaped_loop c i [] = None"
| "strchr_unescaped_loop c i [p] = (if p = BSL then None else if p = c then Some i else None)"
| "strchr_unescaped_loop c i (p # q # rest) =
    (if p = BSL then strchr_unescaped_loop c (i + 2) rest
     else if p = c then Some i
     else strchr_unescaped_loop c (i + 1) (q # rest))"

definition strchr_unescaped :: "bytes option \<Rightarrow> u8 \<Rightarrow> nat option" where
  "strchr_unescaped s c = (case s of None \<Rightarrow> None | Some t \<Rightarrow> strchr_unescaped_loop c 0 t)"

section \<open>The octets of a code point\<close>

definition utf8_encode :: "nat \<Rightarrow> bytes" where
  "utf8_encode cp =
    (if cp < 0x80 then [word_of_nat cp]
     else if cp < 0x800 then [word_of_nat (0xC0 + cp div 64), word_of_nat (0x80 + cp mod 64)]
     else if cp < 0x10000 then
       [word_of_nat (0xE0 + cp div 4096), word_of_nat (0x80 + cp div 64 mod 64), word_of_nat (0x80 + cp mod 64)]
     else
       [word_of_nat (0xF0 + cp div 262144), word_of_nat (0x80 + cp div 4096 mod 64),
        word_of_nat (0x80 + cp div 64 mod 64), word_of_nat (0x80 + cp mod 64)])"

text \<open>The scalar values allowed in a path: no surrogate and no control character.\<close>

definition path_char :: "nat \<Rightarrow> bool" where
  "path_char cp \<longleftrightarrow> cp \<le> 0x10FFFF \<and> \<not> (0xD800 \<le> cp \<and> cp \<le> 0xDFFF) \<and> 0x20 \<le> cp \<and> \<not> (0x7F \<le> cp \<and> cp \<le> 0x9F)"

text \<open>A statement about all octets is a check of 256 cases.\<close>

lemma all_u8: "list_all (\<lambda>n. P (word_of_nat n)) [0..<256] \<Longrightarrow> P (b :: u8)"
  using u8_less_256 [of b] by (auto simp: list_all_iff dest!: bspec [of _ _ "unat b"])

lemma cont_octet:
  "(b :: u8) AND 0xC0 = 0x80 \<longleftrightarrow> unat b div 64 = 2"
  by (rule all_u8 [of "\<lambda>b. b AND 0xC0 = 0x80 \<longleftrightarrow> unat b div 64 = 2"]) code_simp

lemma unat_ucast_u8 [simp]: "unat (ucast (b :: u8) :: u32) = unat b"
  by (simp add: unsigned_ucast_eq take_bit_nat_eq_self order_less_le_trans [OF u8_less_256])

lemma unat_and_mask: "unat (w AND mask n) = unat w mod 2 ^ n"
  by (simp only: take_bit_eq_mask [symmetric] unsigned_take_bit_eq) (simp add: take_bit_eq_mod)

lemma cont_shift:
  assumes "unat (cp :: u32) < 67108864"
  shows "unat (push_bit 6 cp OR ucast (b AND 0x3F :: u8)) = unat cp * 64 + unat b mod 64"
proof -
  have mask: "0x3F = (mask 6 :: u8)" by (simp add: mask_eq_exp_minus_1)
  have "push_bit 6 cp AND ucast (b AND 0x3F :: u8) = 0"
    unfolding mask by (rule bit_eqI) (auto simp: bit_simps simp del: push_bit_numeral)
  then have "push_bit 6 cp OR ucast (b AND 0x3F :: u8) = cp * 64 + ucast (b AND 0x3F)"
    by (simp add: disjunctive_add_eq_or push_bit_eq_mult)
  moreover have "unat (b AND 0x3F) = unat b mod 64"
    unfolding mask unat_and_mask by simp
  ultimately show ?thesis using assms
    by (simp add: unat_word_ariths)
qed

lemma lead_octets:
  "0xC2 \<le> unat c \<Longrightarrow> unat c \<le> 0xDF \<Longrightarrow> unat (c AND 0x1F :: u8) = unat c - 0xC0"
  "0xE0 \<le> unat c \<Longrightarrow> unat c \<le> 0xEF \<Longrightarrow> unat (c AND 0x0F :: u8) = unat c - 0xE0"
  "0xF0 \<le> unat c \<Longrightarrow> unat c \<le> 0xF4 \<Longrightarrow> unat (c AND 0x07 :: u8) = unat c - 0xF0"
proof -
  have m: "0x1F = (mask 5 :: u8)" "0x0F = (mask 4 :: u8)" "0x07 = (mask 3 :: u8)"
    by (simp_all add: mask_eq_exp_minus_1)
  show
    "0xC2 \<le> unat c \<Longrightarrow> unat c \<le> 0xDF \<Longrightarrow> unat (c AND 0x1F :: u8) = unat c - 0xC0"
    "0xE0 \<le> unat c \<Longrightarrow> unat c \<le> 0xEF \<Longrightarrow> unat (c AND 0x0F :: u8) = unat c - 0xE0"
    "0xF0 \<le> unat c \<Longrightarrow> unat c \<le> 0xF4 \<Longrightarrow> unat (c AND 0x07 :: u8) = unat c - 0xF0"
    unfolding m unat_and_mask by (simp_all add: mod_nat_eqI)
qed

text \<open>The range checks of the code are those of a code point in its shortest form.\<close>

lemma cp_checks:
  assumes "unat cp = v" "k = 1 \<and> lo = 0x80 \<or> k = 2 \<and> lo = 0x800 \<or> k = 3 \<and> lo = 0x10000"
  shows "utf8_bad k cp \<longleftrightarrow> \<not> (path_char v \<and> lo \<le> v)"
  using assms(2) unfolding assms(1) [symmetric]
  by (auto simp: utf8_bad_def min_cp_def path_char_def word_less_nat_alt word_le_nat_alt)

lemma mod_64: "unat (b :: u8) mod 64 < 64"
  by simp

lemma utf8_step1:
  assumes "0xC2 \<le> unat c" "unat c \<le> 0xDF" "v = (unat c - 0xC0) * 64 + unat b mod 64"
  shows "dns_path_is_valid_utf8 (c # b # r) \<longleftrightarrow> unat b div 64 = 2 \<and> path_char v \<and> 0x80 \<le> v \<and> dns_path_is_valid_utf8 r"
proof -
  have c: "0xC2 \<le> c" "c \<le> 0xDF" "\<not> c < 0x80" using assms by (auto simp: word_le_nat_alt word_less_nat_alt)
  have l: "unat (c AND 0x1F) = unat c - 0xC0" using lead_octets(1) assms by blast
  have v: "unat (push_bit 6 (ucast (c AND 0x1F)) OR ucast (b AND 0x3F) :: u32) = v"
    using assms by (subst cont_shift) (simp_all add: l)
  show ?thesis
    using c cp_checks [OF v, of 1 "0x80"] by (auto simp: utf8_lead_def cont_octet)
qed

lemma utf8_step2:
  assumes "0xE0 \<le> unat c" "unat c \<le> 0xEF" "v = ((unat c - 0xE0) * 64 + unat b mod 64) * 64 + unat d mod 64"
  shows "dns_path_is_valid_utf8 (c # b # d # r) \<longleftrightarrow>
    unat b div 64 = 2 \<and> unat d div 64 = 2 \<and> path_char v \<and> 0x800 \<le> v \<and> dns_path_is_valid_utf8 r"
proof -
  have c: "0xE0 \<le> c" "c \<le> 0xEF" "\<not> c < 0x80" "\<not> c \<le> 0xDF" using assms by (auto simp: word_le_nat_alt word_less_nat_alt)
  have l: "unat (c AND 0x0F) = unat c - 0xE0" using lead_octets(2) assms by blast
  define x where "x = (push_bit 6 (ucast (c AND 0x0F)) OR ucast (b AND 0x3F) :: u32)"
  have x: "unat x = (unat c - 0xE0) * 64 + unat b mod 64"
    unfolding x_def using assms by (subst cont_shift) (simp_all add: l)
  have v: "unat (push_bit 6 x OR ucast (d AND 0x3F) :: u32) = v"
    unfolding assms(3) x [symmetric] by (rule cont_shift) (use x assms mod_64 [of b] in linarith)
  have "utf8_cont (ucast (c AND 0x0F)) [b, d] =
      (if unat b div 64 = 2 \<and> unat d div 64 = 2 then Some (push_bit 6 x OR ucast (d AND 0x3F)) else None)"
    by (simp add: cont_octet x_def)
  moreover have "utf8_lead c = Some (ucast (c AND 0x0F), 2)" using c by (simp add: utf8_lead_def)
  ultimately show ?thesis
    using c(3) cp_checks [OF v, of 2 "0x800"] by auto
qed

lemma utf8_step3:
  assumes "0xF0 \<le> unat c" "unat c \<le> 0xF4"
    "v = (((unat c - 0xF0) * 64 + unat b mod 64) * 64 + unat d mod 64) * 64 + unat e mod 64"
  shows "dns_path_is_valid_utf8 (c # b # d # e # r) \<longleftrightarrow>
    unat b div 64 = 2 \<and> unat d div 64 = 2 \<and> unat e div 64 = 2 \<and> path_char v \<and> 0x10000 \<le> v \<and> dns_path_is_valid_utf8 r"
proof -
  have c: "0xF0 \<le> c" "c \<le> 0xF4" "\<not> c < 0x80" "\<not> c \<le> 0xDF" "\<not> c \<le> 0xEF"
    using assms by (auto simp: word_le_nat_alt word_less_nat_alt)
  have l: "unat (c AND 0x07) = unat c - 0xF0" using lead_octets(3) assms by blast
  define x where "x = (push_bit 6 (ucast (c AND 0x07)) OR ucast (b AND 0x3F) :: u32)"
  define y where "y = (push_bit 6 x OR ucast (d AND 0x3F) :: u32)"
  have x: "unat x = (unat c - 0xF0) * 64 + unat b mod 64"
    unfolding x_def using assms by (subst cont_shift) (simp_all add: l)
  have y: "unat y = unat x * 64 + unat d mod 64"
    unfolding y_def by (rule cont_shift) (use x assms mod_64 [of b] in linarith)
  have v: "unat (push_bit 6 y OR ucast (e AND 0x3F) :: u32) = v"
    unfolding assms(3) x [symmetric] y [symmetric]
    by (rule cont_shift) (use x y assms mod_64 [of b] mod_64 [of d] in linarith)
  have "utf8_cont (ucast (c AND 0x07)) [b, d, e] =
      (if unat b div 64 = 2 \<and> unat d div 64 = 2 \<and> unat e div 64 = 2 then Some (push_bit 6 y OR ucast (e AND 0x3F)) else None)"
    by (simp add: cont_octet x_def y_def)
  moreover have "utf8_lead c = Some (ucast (c AND 0x07), 3)" using c by (simp add: utf8_lead_def)
  ultimately show ?thesis
    using c(3) cp_checks [OF v, of 3 "0x10000"] by auto
qed

declare dns_path_is_valid_utf8.simps(2) [simp del]

lemma unat_octet: "n < 256 \<Longrightarrow> unat (word_of_nat n :: u8) = n"
  by (simp add: unsigned_of_nat take_bit_nat_eq_self)

lemma octet_of_nat: "\<exists>b :: u8. word_of_nat n = b \<and> unat b = n" if "n < 256"
  using unat_octet [OF that] by blast

lemma cont_of_nat: "\<exists>b :: u8. word_of_nat (0x80 + n mod 64) = b \<and> unat b div 64 = 2 \<and> unat b mod 64 = n mod 64"
proof -
  have "unat (word_of_nat (0x80 + n mod 64) :: u8) = 0x80 + n mod 64"
    using mod_less_divisor [of 64 n] by (intro unat_octet) simp
  moreover have "(0x80 + n mod 64) div 64 = 2" using div_mult_self2 [of 64 "n mod 64" 2] by simp
  moreover have "(0x80 + n mod 64) mod 64 = n mod 64" using mod_mult_self2 [of "n mod 64" 64 2] by (simp add: add.commute)
  ultimately show ?thesis by metis
qed

lemma utf8_encode_valid:
  assumes "path_char cp"
  shows "dns_path_is_valid_utf8 (utf8_encode cp @ r) \<longleftrightarrow> dns_path_is_valid_utf8 r"
proof -
  have le: "cp < 1114112" using assms by (simp add: path_char_def)
  obtain z :: u8 where z: "word_of_nat (0x80 + cp mod 64) = z" "unat z div 64 = 2" "unat z mod 64 = cp mod 64"
    using cont_of_nat by blast
  obtain y :: u8 where y: "word_of_nat (0x80 + cp div 64 mod 64) = y" "unat y div 64 = 2" "unat y mod 64 = cp div 64 mod 64"
    using cont_of_nat by blast
  obtain x :: u8 where x: "word_of_nat (0x80 + cp div 4096 mod 64) = x" "unat x div 64 = 2" "unat x mod 64 = cp div 4096 mod 64"
    using cont_of_nat by blast
  have d: "cp div 64 * 64 + cp mod 64 = cp" "cp div 4096 * 64 + cp div 64 mod 64 = cp div 64"
    "cp div 262144 * 64 + cp div 4096 mod 64 = cp div 4096"
    using div_mult_mod_eq [of "cp div 64" 64] div_mult_mod_eq [of "cp div 4096" 64]
    by (simp_all add: div_mult2_eq [symmetric])
  consider "cp < 0x80" | "0x80 \<le> cp" "cp < 0x800" | "0x800 \<le> cp" "cp < 0x10000" | "0x10000 \<le> cp" by linarith
  then show ?thesis
  proof cases
    case 1
    then obtain c :: u8 where c: "word_of_nat cp = c" "unat c = cp" using octet_of_nat [of cp] by auto
    with 1 assms show ?thesis
      by (auto simp: utf8_encode_def path_char_def word_less_nat_alt dns_path_is_valid_utf8.simps)
  next
    case 2
    then have "0xC0 + cp div 64 < 256" by auto
    from octet_of_nat [OF this] obtain c :: u8 where c: "word_of_nat (0xC0 + cp div 64) = c" "unat c = 0xC0 + cp div 64" by blast
    have "2 \<le> cp div 64" "cp div 64 < 32" using 2 by auto
    with 2 c z d assms utf8_step1 [of c cp z r] show ?thesis unfolding utf8_encode_def c z by auto
  next
    case 3
    then have "0xE0 + cp div 4096 < 256" by auto
    from octet_of_nat [OF this] obtain c :: u8 where c: "word_of_nat (0xE0 + cp div 4096) = c" "unat c = 0xE0 + cp div 4096" by blast
    have "cp div 4096 < 16" using 3 by auto
    with 3 c y z d assms utf8_step2 [of c cp y z r] show ?thesis unfolding utf8_encode_def c y z by simp
  next
    case 4
    then have "0xF0 + cp div 262144 < 256" using le by auto
    from octet_of_nat [OF this] obtain c :: u8 where c: "word_of_nat (0xF0 + cp div 262144) = c" "unat c = 0xF0 + cp div 262144" by blast
    have "cp div 262144 < 5" using le by auto
    with 4 c x y z d assms utf8_step3 [of c cp x y z r] show ?thesis unfolding utf8_encode_def c x y z by simp
  qed
qed

lemma octet_back: "unat (b :: u8) = n \<Longrightarrow> word_of_nat n = b"
  by auto

lemma cont_back: "unat (b :: u8) div 64 = 2 \<Longrightarrow> word_of_nat (0x80 + unat b mod 64) = b"
  by (rule octet_back) (use div_mult_mod_eq [of "unat b" 64] in simp)

lemma cont_back_sum: "unat (b :: u8) div 64 = 2 \<Longrightarrow> 128 + word_of_nat (unat b mod 64) = b"
  using cont_back [of b] by simp

lemma lead_back: "n \<le> unat (c :: u8) \<Longrightarrow> word_of_nat (n + (unat c - n)) = c"
  by simp

lemma digits_64:
  fixes a b d e :: nat
  shows "b < 64 \<Longrightarrow> (a * 64 + b) div 64 = a" "b < 64 \<Longrightarrow> (a * 64 + b) mod 64 = b"
    "b < 64 \<Longrightarrow> d < 64 \<Longrightarrow> ((a * 64 + b) * 64 + d) div 4096 = a"
    "b < 64 \<Longrightarrow> d < 64 \<Longrightarrow> e < 64 \<Longrightarrow> (((a * 64 + b) * 64 + d) * 64 + e) div 262144 = a"
proof -
  have div: "m div 4096 = m div 64 div 64" "m div 262144 = m div 64 div 64 div 64" for m :: nat
    by (simp_all flip: div_mult2_eq)
  have one: "(x * 64 + y) div 64 = x" if "y < 64" for x y :: nat using that by simp
  show "b < 64 \<Longrightarrow> (a * 64 + b) div 64 = a" "b < 64 \<Longrightarrow> (a * 64 + b) mod 64 = b" by simp_all
  show "b < 64 \<Longrightarrow> d < 64 \<Longrightarrow> ((a * 64 + b) * 64 + d) div 4096 = a"
    "b < 64 \<Longrightarrow> d < 64 \<Longrightarrow> e < 64 \<Longrightarrow> (((a * 64 + b) * 64 + d) * 64 + e) div 262144 = a"
    unfolding div by (simp_all only: one)
qed

lemma two_digits_64: "x \<le> 1023 \<Longrightarrow> y < 64 \<Longrightarrow> x * 64 + y < (0x10000 :: nat)"
  by simp

lemma utf8_lead_nat:
  "utf8_lead c =
    (if 0xC2 \<le> unat c \<and> unat c \<le> 0xDF then Some (ucast (c AND 0x1F), 1)
     else if 0xE0 \<le> unat c \<and> unat c \<le> 0xEF then Some (ucast (c AND 0x0F), 2)
     else if 0xF0 \<le> unat c \<and> unat c \<le> 0xF4 then Some (ucast (c AND 0x07), 3)
     else None)"
  by (simp add: utf8_lead_def word_le_nat_alt cong: if_cong)

lemma valid_utf8_high:
  "128 \<le> unat c \<Longrightarrow> dns_path_is_valid_utf8 (c # rest) \<Longrightarrow> \<exists>cp k. utf8_lead c = Some (cp, k) \<and> k \<le> length rest"
  by (auto simp: dns_path_is_valid_utf8.simps word_less_nat_alt not_less split: if_splits option.splits)

lemma utf8_valid_head:
  assumes "dns_path_is_valid_utf8 (c # rest)"
  shows "\<exists>cp r. path_char cp \<and> c # rest = utf8_encode cp @ r \<and> dns_path_is_valid_utf8 r"
proof (cases "unat c < 0x80")
  case True
  with assms have "path_char (unat c)" "dns_path_is_valid_utf8 rest" "utf8_encode (unat c) = [c]"
    by (auto simp: utf8_encode_def path_char_def word_less_nat_alt dns_path_is_valid_utf8.simps word_unat_eq_iff
        split: if_splits)
  then show ?thesis by (intro exI [of _ "unat c"] exI [of _ rest]) simp
next
  case False
  with valid_utf8_high [OF _ assms] obtain cp k where lead: "utf8_lead c = Some (cp, k)" "k \<le> length rest" by auto
  consider "0xC2 \<le> unat c" "unat c \<le> 0xDF" "k = 1" | "0xE0 \<le> unat c" "unat c \<le> 0xEF" "k = 2" |
    "0xF0 \<le> unat c" "unat c \<le> 0xF4" "k = 3"
    using lead(1) by (auto simp: utf8_lead_nat split: if_splits)
  then show ?thesis
  proof cases
    case 1
    with lead(2) obtain b r where rest: "rest = b # r" by (cases rest) auto
    define v where "v = (unat c - 0xC0) * 64 + unat b mod 64"
    from utf8_step1 [OF 1(1,2) v_def, of r] assms have v: "unat b div 64 = 2" "path_char v" "0x80 \<le> v" "dns_path_is_valid_utf8 r"
      by (auto simp: rest)
    have "v < 0x800" using 1 mod_64 [of b] unfolding v_def by linarith
    moreover have "v div 64 = unat c - 0xC0" "v mod 64 = unat b mod 64" by (simp_all add: v_def)
    ultimately have "utf8_encode v = [c, b]"
      using 1 v by (simp add: utf8_encode_def lead_back cont_back_sum)
    with v show ?thesis by (intro exI [of _ v] exI [of _ r]) (simp add: rest)
  next
    case 2
    with lead(2) obtain b d r where rest: "rest = b # d # r" by (cases rest; cases "tl rest") auto
    define v where "v = ((unat c - 0xE0) * 64 + unat b mod 64) * 64 + unat d mod 64"
    from utf8_step2 [OF 2(1,2) v_def, of r] assms have v: "unat b div 64 = 2" "unat d div 64 = 2" "path_char v" "0x800 \<le> v"
      "dns_path_is_valid_utf8 r" by (auto simp: rest)
    have "(unat c - 0xE0) * 64 + unat b mod 64 \<le> 1023" using 2 mod_64 [of b] by linarith
    then have "v < 0x10000" unfolding v_def using mod_64 [of d] by (rule two_digits_64)
    moreover have "v div 4096 = unat c - 0xE0" "v div 64 mod 64 = unat b mod 64" "v mod 64 = unat d mod 64"
      unfolding v_def by (simp_all only: digits_64 mod_64)
    ultimately have "utf8_encode v = [c, b, d]"
      using 2 v by (simp add: utf8_encode_def lead_back cont_back_sum)
    with v show ?thesis by (intro exI [of _ v] exI [of _ r]) (simp add: rest)
  next
    case 3
    with lead(2) obtain b d e r where rest: "rest = b # d # e # r"
      by (cases rest; cases "tl rest"; cases "tl (tl rest)") auto
    define v where "v = (((unat c - 0xF0) * 64 + unat b mod 64) * 64 + unat d mod 64) * 64 + unat e mod 64"
    from utf8_step3 [OF 3(1,2) v_def, of r] assms have v: "unat b div 64 = 2" "unat d div 64 = 2" "unat e div 64 = 2"
      "path_char v" "0x10000 \<le> v" "dns_path_is_valid_utf8 r" by (auto simp: rest)
    moreover have "v div 262144 = unat c - 0xF0" "v div 4096 mod 64 = unat b mod 64" "v div 64 mod 64 = unat d mod 64"
      "v mod 64 = unat e mod 64"
      unfolding v_def by (simp_all only: digits_64 mod_64)
    ultimately have "utf8_encode v = [c, b, d, e]"
      using 3 by (simp add: utf8_encode_def lead_back cont_back_sum)
    with v show ?thesis by (intro exI [of _ v] exI [of _ r]) (simp add: rest)
  qed
qed

section \<open>The last slash and unescaped characters\<close>

lemma split_last_None: "split_last c xs = None \<longleftrightarrow> c \<notin> set xs"
  by (induction xs) (auto split: option.splits)

lemma split_last_Some: "split_last c xs = Some (a, b) \<Longrightarrow> xs = a @ c # b \<and> c \<notin> set b"
  by (induction xs arbitrary: a) (force simp: split_last_None split: option.splits if_splits)+

section \<open>Serial number arithmetic\<close>

text \<open>RFC 1982: \<open>s1\<close> is newer when it is \<open>s2\<close> plus an increment below 2^31.\<close>

lemma serial_is_newer_add:
  assumes "d < 2147483648"
  shows "serial_is_newer (s + word_of_nat d) s \<longleftrightarrow> 0 < d"
proof -
  have "sint (word_of_nat d :: u32) = signed_take_bit 31 (int d)"
    by (rule signed_of_nat [where 'a = int and 'b = 32, simplified])
  also have "\<dots> = int d" using assms by (intro signed_take_bit_int_eq_self) simp_all
  finally show ?thesis by (simp only: serial_is_newer_def add_diff_cancel_left' of_nat_0_less_iff)
qed

section \<open>Properties\<close>

text \<open>
  C32.  \<open>dns_path_is_valid_utf8\<close> accepts exactly the UTF-8 encodings, in shortest form, of
  sequences of Unicode scalar values without control characters (C0, DEL and C1).
\<close>

theorem dns_path_is_valid_utf8_exact:
  "dns_path_is_valid_utf8 p \<longleftrightarrow> (\<exists>cps. list_all path_char cps \<and> p = concat (map utf8_encode cps))"
proof (induction "length p" arbitrary: p rule: less_induct)
  case less
  show ?case
  proof
    assume v: "dns_path_is_valid_utf8 p"
    show "\<exists>cps. list_all path_char cps \<and> p = concat (map utf8_encode cps)"
    proof (cases p)
      case (Cons c rest)
      with v obtain cp r where h: "path_char cp" "p = utf8_encode cp @ r" "dns_path_is_valid_utf8 r"
        using utf8_valid_head by blast
      have "length r < length p" by (simp add: h(2) utf8_encode_def)
      with less h(3) obtain cps where "list_all path_char cps" "r = concat (map utf8_encode cps)" by blast
      with h show ?thesis by (intro exI [of _ "cp # cps"]) simp
    qed (auto intro: exI [of _ "[]"])
  next
    assume "\<exists>cps. list_all path_char cps \<and> p = concat (map utf8_encode cps)"
    then obtain cps where "list_all path_char cps" "p = concat (map utf8_encode cps)" by blast
    then show "dns_path_is_valid_utf8 p"
      by (induction cps arbitrary: p) (simp_all add: utf8_encode_valid)
  qed
qed

text \<open>
  C33.  A path that \<open>split_path_for_openat\<close> splits is the directory, a slash and the base name
  (or the base name alone, relative to the current directory); the base name is one
  component, not empty and neither \<open>.\<close> nor \<open>..\<close>; and both fit their buffers with the
  final NUL.
\<close>

theorem split_path_for_openat_component:
  assumes "split_path_for_openat path_max (Some p) dir_out_sz base_out_sz = Some (dir, base)"
  shows "base \<noteq> [] \<and> SLASH \<notin> set base \<and> base \<noteq> [DOT] \<and> base \<noteq> [DOT, DOT] \<and>
    length dir < dir_out_sz \<and> length base < base_out_sz \<and>
    (dir = [DOT] \<and> p = base \<or> dir = [SLASH] \<and> p = SLASH # base \<or> p = dir @ SLASH # base \<and> dir = get_base_dir p)"
proof (cases "split_last SLASH p")
  case None
  then have "SLASH \<notin> set p" by (simp add: split_last_None)
  with None assms show ?thesis
    by (auto simp: split_path_for_openat_def split: if_splits)
next
  case (Some ab)
  obtain a b where "ab = (a, b)" by (cases ab)
  with Some have s: "split_last SLASH p = Some (a, b)" "p = a @ SLASH # b" "SLASH \<notin> set b"
    using split_last_Some by auto
  have d: "dir = take (if a = [] then 1 else length a) p \<and> base = b \<and> b \<noteq> [] \<and> b \<noteq> [DOT] \<and> b \<noteq> [DOT, DOT] \<and>
      (if a = [] then 1 else length a) < dir_out_sz \<and> length b < base_out_sz"
    using assms by (auto simp: split_path_for_openat_def s(1) Let_def split: if_splits)
  have g: "get_base_dir p = take (if a = [] then 1 else length a) p" by (simp add: get_base_dir_def s(1))
  show ?thesis
    using d g s(2,3) by (cases "a = []") simp_all
qed

theorem split_path_for_openat_component_witness:
  "split_path_for_openat 1024 (Some [0x61, SLASH, 0x62]) 8 8 = Some ([0x61], [0x62]) \<and> SLASH \<notin> set [0x62 :: u8]"
proof -
  have "split_path_for_openat 1024 (Some [0x61, SLASH, 0x62]) 8 8 = Some ([0x61], [0x62])"
    by (simp add: split_path_for_openat_def)
  with split_path_for_openat_component [OF this] show ?thesis by simp
qed

end
