(* ===== verification/Canonical.thy ===== *)
theory Canonical
  imports Names "HOL-Library.List_Lexorder"
begin

text \<open>
  The canonical order of names (RFC 4034 section 6.1), \<open>compare_canonical_name\<close> of
  \<^verbatim>\<open>src/dns_utils.c\<close>: a fast path on the text of names without escapes, and a slow
  path on their wire form.  On names in normal form both paths compute the lexicographic
  order of the lower-cased labels, the rightmost first.
\<close>

section \<open>The comparison\<close>

text \<open>The position of the last dot at or before \<open>d\<close>, -1 if there is none.\<close>

function last_dot :: "bytes \<Rightarrow> int \<Rightarrow> int" where
  "last_dot name d = (if 0 \<le> d \<and> name ! nat d \<noteq> DOT then last_dot name (d - 1) else d)"
  by pat_completeness auto
termination
  by (relation "measure (\<lambda>(_, d). nat (d + 1))") auto

declare last_dot.simps [simp del]

text \<open>The loop over the octets of two labels: the first difference, 0 if there is none.\<close>

fun octets_cmp :: "bytes \<Rightarrow> bytes \<Rightarrow> int" where
  "octets_cmp (a # as) (b # bs) = (if a \<noteq> b then int (unat a) - int (unat b) else octets_cmp as bs)"
| "octets_cmp _ _ = 0"

definition label_at_text :: "bytes \<Rightarrow> int \<Rightarrow> int \<Rightarrow> bytes" where
  "label_at_text name d p = take (nat (p - d - 1)) (drop (nat (d + 1)) name)"

text \<open>The fast path; \<open>p1\<close> and \<open>p2\<close> are the ends of the labels still to be compared.\<close>

function compare_text :: "bytes \<Rightarrow> int \<Rightarrow> bytes \<Rightarrow> int \<Rightarrow> int" where
  "compare_text name1 p1 name2 p2 =
    (if 0 < p1 \<or> 0 < p2 then
       let d1 = last_dot name1 (p1 - 1); d2 = last_dot name2 (p2 - 1) in
       if p1 \<le> 0 then - 1
       else if p2 \<le> 0 then 1
       else
         let len1 = p1 - d1 - 1; len2 = p2 - d2 - 1;
             c = octets_cmp (map lower8 (label_at_text name1 d1 p1)) (map lower8 (label_at_text name2 d2 p2))
         in if c \<noteq> 0 then c
            else if len1 \<noteq> len2 then len1 - len2
            else compare_text name1 d1 name2 d2
     else 0)"
  by pat_completeness auto

lemma last_dot_le: "last_dot name d \<le> d"
proof (induction name d rule: last_dot.induct)
  case (1 name d)
  then show ?case by (subst last_dot.simps) force
qed

termination compare_text
proof (relation "measure (\<lambda>(_, p1, _, p2). nat p1 + nat p2)")
  fix name1 name2 :: bytes and p1 p2 d1 d2 len1 len2 c :: int
  assume "0 < p1 \<or> 0 < p2" "d1 = last_dot name1 (p1 - 1)" "d2 = last_dot name2 (p2 - 1)" "\<not> p1 \<le> 0" "\<not> p2 \<le> 0"
  then show "((name1, d1, name2, d2), name1, p1, name2, p2) \<in> measure (\<lambda>(_, p1, _, p2). nat p1 + nat p2)"
    using last_dot_le [of name1 "p1 - 1"] last_dot_le [of name2 "p2 - 1"] by simp
qed simp

declare compare_text.simps [simp del]

text \<open>The labels of a wire form, from position \<open>p\<close> on; \<open>n\<close> labels are already there.\<close>

function wire_label_list :: "bytes \<Rightarrow> nat \<Rightarrow> nat \<Rightarrow> bytes list option" where
  "wire_label_list wire p n =
    (if p < length wire \<and> wire ! p \<noteq> 0 then
       if 128 \<le> n then None
       else map_option ((#) (take (unat (wire ! p)) (drop (p + 1) wire)))
              (wire_label_list wire (p + (1 + unat (wire ! p))) (n + 1))
     else Some [])"
  by pat_completeness auto
termination
  by (relation "measure (\<lambda>(wire, p, _). length wire - p)") auto

declare wire_label_list.simps [simp del]

text \<open>\<open>None\<close> is the return value -1.\<close>

definition canonical_wire_labels :: "bytes \<Rightarrow> bytes list option" where
  "canonical_wire_labels name =
    (case write_uncompressed_name_ext 0 256 name True of
       Ok wire \<Rightarrow> wire_label_list wire 0 0
     | _ \<Rightarrow> None)"

text \<open>The loop over the labels, the last one first (the lists are in reverse).\<close>

fun compare_labels :: "bytes list \<Rightarrow> bytes list \<Rightarrow> int" where
  "compare_labels [] [] = 0"
| "compare_labels [] (_ # _) = - 1"
| "compare_labels (_ # _) [] = 1"
| "compare_labels (l1 # ls1) (l2 # ls2) =
    (let cmp = octets_cmp l1 l2 in
     if cmp \<noteq> 0 then cmp
     else if length l1 \<noteq> length l2 then (if length l1 < length l2 then - 1 else 1)
     else compare_labels ls1 ls2)"

text \<open>\<open>strcmp\<close>: the NUL that ends the shorter string is smaller than every octet.\<close>

definition strcmp :: "bytes \<Rightarrow> bytes \<Rightarrow> int" where
  "strcmp a b = octets_cmp (a @ [0]) (b @ [0])"

definition text_end :: "bytes \<Rightarrow> int" where
  "text_end name = (if name \<noteq> [] \<and> last name = DOT then int (length name) - 1 else int (length name))"

definition compare_canonical_name :: "bytes option \<Rightarrow> bytes option \<Rightarrow> int" where
  "compare_canonical_name name1 name2 =
    (case (name1, name2) of
       (None, None) \<Rightarrow> 0
     | (None, Some _) \<Rightarrow> - 1
     | (Some _, None) \<Rightarrow> 1
     | (Some name1, Some name2) \<Rightarrow>
        if BSL \<notin> set name1 \<and> BSL \<notin> set name2 then
          compare_text name1 (text_end name1) name2 (text_end name2)
        else
          (case (canonical_wire_labels name1, canonical_wire_labels name2) of
             (Some l1, Some l2) \<Rightarrow> compare_labels (rev l1) (rev l2)
           | (None, None) \<Rightarrow> strcmp name1 name2
           | (None, Some _) \<Rightarrow> 1
           | (Some _, None) \<Rightarrow> - 1))"

section \<open>Comparing label lists\<close>

lemma octets_cmp_refl [simp]: "octets_cmp a a = 0"
  by (induction a) simp_all

text \<open>One label: the sign of the comparison is the lexicographic order.\<close>

definition label_cmp :: "bytes \<Rightarrow> bytes \<Rightarrow> int" where
  "label_cmp a b = (let c = octets_cmp a b in if c \<noteq> 0 then c else int (length a) - int (length b))"

lemma Nil_less_iff: "[] < (xs :: 'a :: linorder list) \<longleftrightarrow> xs \<noteq> []"
  by (cases xs) simp_all

lemma label_cmp_Cons:
  "label_cmp (a # as) (b # bs) = (if a \<noteq> b then int (unat a) - int (unat b) else label_cmp as bs)"
  by (auto simp: label_cmp_def Let_def word_uint_eq_iff)

lemma label_cmp_sgn:
  "label_cmp a b < 0 \<longleftrightarrow> a < b" "label_cmp a b = 0 \<longleftrightarrow> a = b"
proof (induction a b rule: octets_cmp.induct)
  case (1 a as b bs)
  { case 1 then show ?case using 1 "1.IH" by (auto simp: label_cmp_Cons word_less_def word_uint_eq_iff)
  next case 2 then show ?case using "1.IH" by (auto simp: label_cmp_Cons word_uint_eq_iff) }
qed (auto simp: label_cmp_def Nil_less_iff)

lemma compare_labels_Cons:
  "compare_labels (a # as) (b # bs) < 0 \<longleftrightarrow> (if a \<noteq> b then label_cmp a b < 0 else compare_labels as bs < 0)"
  "compare_labels (a # as) (b # bs) = 0 \<longleftrightarrow> a = b \<and> compare_labels as bs = 0"
proof (atomize(full), cases "octets_cmp a b = 0")
  case True
  then show "(compare_labels (a # as) (b # bs) < 0) = (if a \<noteq> b then label_cmp a b < 0 else compare_labels as bs < 0) \<and>
      (compare_labels (a # as) (b # bs) = 0) = (a = b \<and> compare_labels as bs = 0)"
    using label_cmp_sgn(2) [of a b] by (cases "length a = length b") (auto simp: label_cmp_def)
next
  case False
  then show "(compare_labels (a # as) (b # bs) < 0) = (if a \<noteq> b then label_cmp a b < 0 else compare_labels as bs < 0) \<and>
      (compare_labels (a # as) (b # bs) = 0) = (a = b \<and> compare_labels as bs = 0)"
    by (auto simp: label_cmp_def Let_def)
qed

lemma compare_labels_sgn:
  "compare_labels as bs < 0 \<longleftrightarrow> as < bs" "compare_labels as bs = 0 \<longleftrightarrow> as = bs"
proof (induction as bs rule: compare_labels.induct)
  case (4 a as b bs)
  { case 1 then show ?case using "4.IH" label_cmp_sgn [of a b]
      by (cases "a = b") (simp_all only: compare_labels_Cons octets_cmp_refl Cons_less_Cons less_irrefl refl if_True if_False simp_thms)
  next case 2 then show ?case using "4.IH" label_cmp_sgn [of a b]
      by (cases "a = b") (simp_all only: compare_labels_Cons octets_cmp_refl list.inject refl simp_thms) }
qed auto

section \<open>The slow path\<close>

lemma wire_label_list_wire:
  assumes "list_all valid_label ls" "n + length ls \<le> 128"
  shows "wire_label_list (pre @ wire_labels ls @ [0]) (length pre) n = Some ls"
  using assms
proof (induction ls arbitrary: pre n)
  case Nil
  then show ?case by (subst wire_label_list.simps) simp
next
  case (Cons l ls)
  have l: "unat (word_of_nat (length l) :: u8) = length l" "0 < length l"
    using Cons.prems(1) by (auto simp: valid_label_def unsigned_of_nat take_bit_nat_eq_self)
  then have nz: "(word_of_nat (length l) :: u8) \<noteq> 0" by (metis less_numeral_extra(3) unsigned_0)
  have "wire_label_list (pre @ wire_labels (l # ls) @ [0]) (length pre) n =
      map_option ((#) l) (wire_label_list (pre @ wire_labels (l # ls) @ [0]) (length pre + (1 + length l)) (n + 1))"
    using Cons.prems(2) l nz by (subst wire_label_list.simps) (simp add: nth_append)
  also have "wire_label_list (pre @ wire_labels (l # ls) @ [0]) (length pre + (1 + length l)) (n + 1) =
      wire_label_list ((pre @ word_of_nat (length l) # l) @ wire_labels ls @ [0]) (length (pre @ word_of_nat (length l) # l)) (n + 1)"
    by simp
  also have "\<dots> = Some ls" using Cons.prems by (intro Cons.IH) simp_all
  finally show ?case by simp
qed

lemma valid_name_length: "valid_name ls \<Longrightarrow> length ls \<le> 127"
proof -
  assume "valid_name ls"
  then have "list_all valid_label ls" "length (wire_labels ls) \<le> 254" by (simp_all add: valid_name_def wire_of_def)
  moreover have "2 * length ls \<le> length (wire_labels ls)" if "list_all valid_label ls" for ls
    using that by (induction ls) (auto simp: valid_label_def neq_Nil_conv)
  ultimately show ?thesis by fastforce
qed

lemma canonical_wire_labels_text:
  assumes "valid_name ls"
  shows "canonical_wire_labels (name_text ls @ abs_dot d) = Some (fold_name ls)"
proof -
  have v: "list_all valid_label (fold_name ls)" "length (fold_name ls) \<le> 127"
    using assms valid_name_length [OF assms] by (simp_all add: valid_name_def) (simp add: fold_name_def)
  obtain as where as: "text_labels (Some (name_text ls @ abs_dot d)) = Some as" "filter (\<lambda>l. l \<noteq> []) as = ls"
    using text_labels_canonical [of ls d] assms by (auto simp: valid_name_def)
  have "length (wire_of (fold_name ls)) \<le> 255"
    using assms by (simp add: valid_name_def wire_of_def length_wire_labels fold_name_def comp_def)
  then have "write_uncompressed_name_ext 0 256 (name_text ls @ abs_dot d) True = Ok (wire_of (fold_name ls))"
    by (simp add: write_uncompressed_name_ext_spec as fold_name_def)
  then show ?thesis
    using wire_label_list_wire [of "fold_name ls" 0 "[]"] v by (simp add: canonical_wire_labels_def wire_of_def)
qed

section \<open>The fast path\<close>

lemma plain_label_text: "BSL \<notin> set (label_text l) \<Longrightarrow> label_text l = l \<and> DOT \<notin> set l"
  by (induction l) (auto simp: char_text_def split: if_splits)

lemma last_dot_here: "last_dot (q @ DOT # r) (int (length q)) = int (length q)" "last_dot r (- 1) = - 1"
  by (subst last_dot.simps, simp)+

lemma last_dot_label:
  assumes "DOT \<notin> set l"
  shows "last_dot (pre @ l @ r) (int (length pre + length l) - 1) = last_dot (pre @ l @ r) (int (length pre) - 1)"
  using assms
proof (induction l arbitrary: r rule: rev_induct)
  case (snoc x l)
  have n: "(pre @ l @ x # r) ! nat (int (length pre + length l)) = x" by (simp only: nat_int nth_append_length_plus) simp
  have "last_dot (pre @ l @ x # r) (int (length pre + length l)) = last_dot (pre @ l @ x # r) (int (length pre + length l) - 1)"
    using snoc.prems n by (subst last_dot.simps) simp
  with snoc show ?case by simp
qed simp

text \<open>The text of the labels \<open>ls\<close> at the start of a name: its end, as the loop has it.\<close>

definition names_end :: "bytes list \<Rightarrow> int \<Rightarrow> bool" where
  "names_end ls p \<longleftrightarrow> (if ls = [] then p \<le> 0 else p = int (length (name_text ls)))"

lemma fast_step:
  assumes "DOT \<notin> set l" "l \<noteq> []" "label_text l = l" "name = name_text (ls @ [l]) @ r" "p = int (length (name_text (ls @ [l])))"
  shows "names_end ls (last_dot name (p - 1))" "label_at_text name (last_dot name (p - 1)) p = l"
    "p - last_dot name (p - 1) - 1 = int (length l)" "0 < p"
proof -
  define pre where "pre = (if ls = [] then [] else name_text ls @ [DOT])"
  have t: "name_text (ls @ [l]) = pre @ l"
    using assms(3) by (cases "ls = []") (simp_all add: pre_def name_text_append)
  have p: "p = int (length pre + length l)" "name = pre @ l @ r" unfolding assms(4,5) t by simp_all
  have "last_dot name (int (length pre) - 1) = int (length pre) - 1"
    using last_dot_here(1) [of "name_text ls" "l @ r"] last_dot_here(2)
    unfolding p(2) by (cases "ls = []") (simp_all add: pre_def)
  then have d: "last_dot name (p - 1) = int (length pre) - 1"
    unfolding p using last_dot_label [OF assms(1), of pre r] by simp
  show "names_end ls (last_dot name (p - 1))" unfolding d by (simp add: names_end_def pre_def)
  show "p - last_dot name (p - 1) - 1 = int (length l)" "0 < p"
    unfolding d unfolding p(1) using assms(2) by (simp, cases l, simp_all)
  show "label_at_text name (last_dot name (p - 1)) p = l"
    unfolding label_at_text_def d unfolding p by simp
qed

text \<open>A label whose text is itself.\<close>

definition plain_label :: "bytes \<Rightarrow> bool" where
  "plain_label l \<longleftrightarrow> l \<noteq> [] \<and> DOT \<notin> set l \<and> label_text l = l"

lemma compare_text_ends:
  assumes "names_end as p1" "names_end bs p2" "as = [] \<or> bs = []" "list_all plain_label (as @ bs)"
  shows "compare_text name1 p1 name2 p2 = compare_labels (rev (fold_name as)) (rev (fold_name bs))"
proof -
  have pos: "0 < int (length (name_text ls))" if "ls \<noteq> []" "list_all plain_label ls" for ls
    using that by (cases ls) (auto simp: plain_label_def)
  have ne: "\<exists>x xs. rev (fold_name ls) = x # xs" if "ls \<noteq> []" for ls
    using that by (cases ls rule: rev_cases) simp_all
  show ?thesis
  proof (cases "as = [] \<and> bs = []")
    case True
    then show ?thesis using assms by (subst compare_text.simps) (simp add: names_end_def)
  next
    case False
    show ?thesis
    proof (cases "as = []")
      case True
      with False assms pos [of bs] ne [of bs] show ?thesis
        by (subst compare_text.simps) (auto simp: names_end_def)
    next
      case ne': False
      with assms pos [of as] ne [of as] show ?thesis
        by (subst compare_text.simps) (auto simp: names_end_def)
    qed
  qed
qed

lemma name_text_snoc_prefix: "\<exists>r'. name_text (ls @ [l]) @ r = name_text ls @ r'"
  by (cases "ls = []") (simp_all add: name_text_append)

lemma compare_text_labels:
  assumes "list_all plain_label as" "list_all plain_label bs" "names_end as p1" "names_end bs p2"
    and "name1 = name_text as @ r1" "name2 = name_text bs @ r2"
  shows "(compare_text name1 p1 name2 p2 < 0 \<longleftrightarrow> rev (fold_name as) < rev (fold_name bs)) \<and>
    (compare_text name1 p1 name2 p2 = 0 \<longleftrightarrow> rev (fold_name as) = rev (fold_name bs))"
  using assms
proof (induction as arbitrary: bs p1 p2 r1 r2 rule: rev_induct)
  case Nil
  then show ?case using compare_text_ends [of "[]" p1 bs p2] by (simp add: compare_labels_sgn)
next
  case (snoc a as)
  show ?case
  proof (cases bs rule: rev_cases)
    case Nil
    then show ?thesis using snoc.prems compare_text_ends [of "as @ [a]" p1 bs p2] by (simp add: compare_labels_sgn)
  next
    case (snoc bs' b)
    note bs = this
    have pl: "plain_label a" "plain_label b" "list_all plain_label as" "list_all plain_label bs'"
      using snoc.prems bs by simp_all
    have p: "p1 = int (length (name_text (as @ [a])))" "p2 = int (length (name_text (bs' @ [b])))"
      using snoc.prems bs by (simp_all add: names_end_def)
    note f1 = fast_step [of a name1 as r1 p1] and f2 = fast_step [of b name2 bs' r2 p2]
    note f = f1 [OF _ _ _ snoc.prems(5) p(1)] f2 [OF _ _ _ snoc.prems(6) [unfolded bs] p(2)]
    define d1 d2 where "d1 = last_dot name1 (p1 - 1)" and "d2 = last_dot name2 (p2 - 1)"
    have step: "compare_text name1 p1 name2 p2 =
        (if label_cmp (map lower8 a) (map lower8 b) \<noteq> 0 then label_cmp (map lower8 a) (map lower8 b)
         else compare_text name1 d1 name2 d2)"
      using f pl by (subst compare_text.simps) (auto simp: plain_label_def d1_def d2_def Let_def label_cmp_def)
    obtain r1' r2' where "name1 = name_text as @ r1'" "name2 = name_text bs' @ r2'"
      using name_text_snoc_prefix snoc.prems(5,6) bs by metis
    with snoc.IH [OF pl(3,4), of d1 d2 r1' r2'] f pl have ih:
      "(compare_text name1 d1 name2 d2 < 0 \<longleftrightarrow> rev (fold_name as) < rev (fold_name bs')) \<and>
       (compare_text name1 d1 name2 d2 = 0 \<longleftrightarrow> rev (fold_name as) = rev (fold_name bs'))"
      by (simp add: plain_label_def d1_def d2_def)
    show ?thesis
      using ih label_cmp_sgn [of "map lower8 a" "map lower8 b"]
      unfolding step bs by auto
  qed
qed

lemma plain_labels:
  assumes "BSL \<notin> set (name_text ls)" "list_all valid_label ls"
  shows "list_all plain_label ls"
  using assms
proof (induction ls)
  case (Cons l ls)
  then have "BSL \<notin> set (label_text l)" by simp
  with plain_label_text [OF this] Cons show ?case
    by (auto simp: plain_label_def valid_label_def split: if_splits)
qed simp

lemma text_end_names:
  assumes "list_all plain_label ls"
  shows "names_end ls (text_end (name_text ls @ abs_dot d))"
proof (cases ls rule: rev_cases)
  case Nil
  then show ?thesis by (cases d) (simp_all add: names_end_def text_end_def)
next
  case (snoc ls' l)
  with assms have "name_text ls \<noteq> [] \<and> last (name_text ls) = last l \<and> last l \<noteq> DOT"
    by (cases "ls' = []") (auto simp: plain_label_def name_text_append dest: last_in_set)
  then show ?thesis using snoc by (cases d) (simp_all add: names_end_def text_end_def)
qed

section \<open>Properties\<close>

text \<open>
  C23.  \<open>compare_canonical_name\<close> is the canonical order of RFC 4034 6.1: on names in normal
  form, with or without escapes (so on both paths, and when one name takes each), the
  result is negative exactly when the lower-cased labels, read from the right, come
  first in the lexicographic order of octet strings, and 0 exactly for the same name.
\<close>

theorem compare_canonical_name_order:
  assumes "valid_name as" and "valid_name bs"
  shows "(compare_canonical_name (Some (name_text as @ abs_dot d)) (Some (name_text bs @ abs_dot e)) < 0 \<longleftrightarrow>
      rev (fold_name as) < rev (fold_name bs)) \<and>
    (compare_canonical_name (Some (name_text as @ abs_dot d)) (Some (name_text bs @ abs_dot e)) = 0 \<longleftrightarrow>
      domain_names_match_ci (Some (name_text as @ abs_dot d)) (Some (name_text bs @ abs_dot e)))"
proof (cases "BSL \<notin> set (name_text as @ abs_dot d) \<and> BSL \<notin> set (name_text bs @ abs_dot e)")
  case True
  with assms have "list_all plain_label as" "list_all plain_label bs"
    by (auto simp: valid_name_def intro!: plain_labels)
  from compare_text_labels [OF this text_end_names [OF this(1), of d] text_end_names [OF this(2), of e] refl refl] True assms
  show ?thesis by (simp add: compare_canonical_name_def domain_names_match_text valid_name_def)
next
  case False
  then have "compare_canonical_name (Some (name_text as @ abs_dot d)) (Some (name_text bs @ abs_dot e)) =
      compare_labels (rev (fold_name as)) (rev (fold_name bs))"
    using assms by (simp only: compare_canonical_name_def canonical_wire_labels_text prod.case option.case if_False)
  with assms show ?thesis by (simp add: compare_labels_sgn domain_names_match_text valid_name_def)
qed

theorem compare_canonical_name_order_witness:
  "compare_canonical_name (Some (name_text [[0x7A], [0x65, 0x78]] @ abs_dot False)) (Some (name_text [[0x61, DOT], [0x45, 0x78]] @ abs_dot True)) < 0
    \<longleftrightarrow> rev (fold_name [[0x7A], [0x65, 0x78]]) < rev (fold_name [[0x61, DOT], [0x45, 0x78]])"
proof -
  have "valid_name [[0x7A], [0x65, 0x78]]" "valid_name [[0x61, DOT], [0x45, 0x78]]" by code_simp+
  from compare_canonical_name_order [OF this, of False True] show ?thesis by blast
qed


end
