(* ===== verification/Type_Names.thy ===== *)
theory Type_Names
  imports Prelude
begin

text \<open>
  Mnemonics of record types, classes and response codes (\<^verbatim>\<open>src/dns_utils.c\<close>):
  \<open>get_type_code\<close> reads a type, \<open>lookup_type_name\<close>, \<open>format_type_name\<close> and
  \<open>dns_type_to_string\<close> write one, \<open>dns_class_text\<close> and \<open>dns_rcode_name\<close> write a class and a
  response code.  The binary search is shown to be a lookup in the table, and writing and
  reading to be inverse for every 16-bit type.
\<close>

section \<open>Reading a type\<close>

definition toupper :: "char \<Rightarrow> char" where
  "toupper c = (if 97 \<le> (of_char c :: nat) \<and> (of_char c :: nat) \<le> 122 then char_of ((of_char c :: nat) - 32) else c)"

definition isdigit :: "char \<Rightarrow> bool" where
  "isdigit c \<longleftrightarrow> 48 \<le> (of_char c :: nat) \<and> (of_char c :: nat) \<le> 57"

definition isspace :: "char \<Rightarrow> bool" where
  "isspace c \<longleftrightarrow> (of_char c :: nat) = 32 \<or> 9 \<le> (of_char c :: nat) \<and> (of_char c :: nat) \<le> 13"

text \<open>\<open>strtol\<close> with base 10: the value (saturated at \<open>LONG_MAX\<close> and \<open>LONG_MIN\<close>) and what is left at \<open>endptr\<close>.\<close>

definition LONG_MAX :: int where "LONG_MAX = 9223372036854775807"

definition text_digits :: "string \<Rightarrow> int" where
  "text_digits ds = foldl (\<lambda>a c. a * 10 + (int (of_char c) - 48)) 0 ds"

definition strtol_text :: "string \<Rightarrow> int \<times> string" where
  "strtol_text s =
    (let t = dropWhile isspace s;
         neg = (t \<noteq> [] \<and> hd t = CHR ''-'');
         u = (if t \<noteq> [] \<and> (hd t = CHR ''-'' \<or> hd t = CHR ''+'') then tl t else t);
         ds = takeWhile isdigit u
     in if ds = [] then (0, s)
        else (if neg then max (- LONG_MAX - 1) (- text_digits ds) else min LONG_MAX (text_digits ds), dropWhile isdigit u))"

text \<open>The cases of the switch on the first character: the spellings compared, in order, and the code returned.\<close>

definition type_cases_A_M :: "(char \<times> (string \<times> u16) list) list" where
  "type_cases_A_M =
   [(CHR ''A'', [(''A'', 1), (''AAAA'', 28), (''AFSDB'', 18), (''ATMA'', 34), (''A6'', 38),
       (''APL'', 42), (''ANY'', 255), (''AVC'', 258), (''AMTRELAY'', 260), (''AXFR'', 252)]),
    (CHR ''B'', [(''BRID'', 68)]),
    (CHR ''C'', [(''CNAME'', 5), (''CERT'', 37), (''CDS'', 59), (''CDNSKEY'', 60), (''CSYNC'', 62),
       (''CAA'', 257)]),
    (CHR ''D'', [(''DS'', 43), (''DNAME'', 39), (''DNSKEY'', 48), (''DHCID'', 49), (''DOA'', 259),
       (''DLV'', 32769), (''DSYNC'', 66)]),
    (CHR ''E'', [(''EID'', 31), (''EUI48'', 108), (''EUI64'', 109)]),
    (CHR ''G'', [(''GPOS'', 27), (''GID'', 102)]),
    (CHR ''H'', [(''HINFO'', 13), (''HTTPS'', 65), (''HIP'', 55), (''HHIT'', 67)]),
    (CHR ''I'', [(''ISDN'', 20), (''IPSECKEY'', 45), (''IXFR'', 251)]),
    (CHR ''K'', [(''KEY'', 25), (''KX'', 36)]),
    (CHR ''L'', [(''LOC'', 29), (''L32'', 105), (''L64'', 106), (''LP'', 107)]),
    (CHR ''M'', [(''MX'', 15), (''MD'', 3), (''MF'', 4), (''MB'', 7), (''MG'', 8), (''MR'', 9),
       (''MINFO'', 14), (''MAILB'', 253), (''MAILA'', 254)])]"

definition type_cases_N_Z :: "(char \<times> (string \<times> u16) list) list" where
  "type_cases_N_Z =
   [(CHR ''N'', [(''NS'', 2), (''NULL'', 10), (''NSAP'', 22), (''NSAP-PTR'', 23), (''NXT'', 30),
       (''NIMLOC'', 32), (''NXNAME'', 128), (''NAPTR'', 35), (''NSEC'', 47), (''NSEC3'', 50),
       (''NSEC3PARAM'', 51), (''NINFO'', 56), (''NID'', 104)]),
    (CHR ''O'', [(''OPT'', 41), (''OPENPGPKEY'', 61)]),
    (CHR ''P'', [(''PTR'', 12), (''PX'', 26)]),
    (CHR ''R'', [(''RP'', 17), (''RT'', 21), (''RKEY'', 57), (''RRSIG'', 46), (''RESINFO'', 261)]),
    (CHR ''S'', [(''SOA'', 6), (''SRV'', 33), (''SIG'', 24), (''SINK'', 40), (''SSHFP'', 44),
       (''SMIMEA'', 53), (''SVCB'', 64), (''SPF'', 99)]),
    (CHR ''T'', [(''TXT'', 16), (''TLSA'', 52), (''TALINK'', 58), (''TKEY'', 249), (''TSIG'', 250),
       (''TA'', 32768)]),
    (CHR ''U'', [(''URI'', 256), (''UINFO'', 100), (''UID'', 101), (''UNSPEC'', 103)]),
    (CHR ''W'', [(''WKS'', 11), (''WALLET'', 262)]),
    (CHR ''X'', [(''X25'', 19)]),
    (CHR ''Z'', [(''ZONEMD'', 63)])]"

definition type_code_upper :: "string \<Rightarrow> u16" where
  "type_code_upper s =
    (case s of
       [] \<Rightarrow> 0
     | c # _ \<Rightarrow>
        (case map_of (type_cases_A_M @ type_cases_N_Z) c of
           None \<Rightarrow> 0
         | Some ifs \<Rightarrow>
            (case map_of ifs s of
               Some code \<Rightarrow> code
             | None \<Rightarrow>
                if take 4 s = ''TYPE'' then
                  (case strtol_text (drop 4 s) of
                     (tval, endptr) \<Rightarrow> if endptr = [] \<and> 0 < tval \<and> tval \<le> 65535 then word_of_int tval else 0)
                else 0)))"

text \<open>\<open>upper\<close> has 24 octets: a longer text is no type.\<close>

definition get_type_code :: "string option \<Rightarrow> u16" where
  "get_type_code type_str =
    (case type_str of
       None \<Rightarrow> 0
     | Some s \<Rightarrow> if 24 \<le> length s then 0 else type_code_upper (map toupper s))"

section \<open>Writing a type\<close>

definition TYPE_NAMES :: "(u16 \<times> string) list" where
  "TYPE_NAMES =
   [(1, ''A''), (2, ''NS''), (3, ''MD''), (4, ''MF''), (5, ''CNAME''), (6, ''SOA''), (7, ''MB''),
    (8, ''MG''), (9, ''MR''), (10, ''NULL''), (11, ''WKS''), (12, ''PTR''), (13, ''HINFO''),
    (14, ''MINFO''), (15, ''MX''), (16, ''TXT''), (17, ''RP''), (18, ''AFSDB''), (19, ''X25''),
    (20, ''ISDN''), (21, ''RT''), (22, ''NSAP''), (23, ''NSAP-PTR''), (24, ''SIG''), (25, ''KEY''),
    (26, ''PX''), (27, ''GPOS''), (28, ''AAAA''), (29, ''LOC''), (30, ''NXT''), (31, ''EID''),
    (32, ''NIMLOC''), (33, ''SRV''), (34, ''ATMA''), (35, ''NAPTR''), (36, ''KX''), (37, ''CERT''),
    (38, ''A6''), (39, ''DNAME''), (40, ''SINK''), (41, ''OPT''), (42, ''APL''), (43, ''DS''),
    (44, ''SSHFP''), (45, ''IPSECKEY''), (46, ''RRSIG''), (47, ''NSEC''), (48, ''DNSKEY''),
    (49, ''DHCID''), (50, ''NSEC3''), (51, ''NSEC3PARAM''), (52, ''TLSA''), (53, ''SMIMEA''),
    (55, ''HIP''), (56, ''NINFO''), (57, ''RKEY''), (58, ''TALINK''), (59, ''CDS''),
    (60, ''CDNSKEY''), (61, ''OPENPGPKEY''), (62, ''CSYNC''), (63, ''ZONEMD''), (64, ''SVCB''),
    (65, ''HTTPS''), (66, ''DSYNC''), (67, ''HHIT''), (68, ''BRID''), (99, ''SPF''),
    (100, ''UINFO''), (101, ''UID''), (102, ''GID''), (103, ''UNSPEC''), (104, ''NID''),
    (105, ''L32''), (106, ''L64''), (107, ''LP''), (108, ''EUI48''), (109, ''EUI64''),
    (128, ''NXNAME''), (249, ''TKEY''), (250, ''TSIG''), (251, ''IXFR''), (252, ''AXFR''),
    (253, ''MAILB''), (254, ''MAILA''), (255, ''ANY''), (256, ''URI''), (257, ''CAA''),
    (258, ''AVC''), (259, ''DOA''), (260, ''AMTRELAY''), (261, ''RESINFO''), (262, ''WALLET''),
    (32768, ''TA''), (32769, ''DLV'')]"

text \<open>The binary search; \<open>None\<close> is NULL.\<close>

function lookup_loop :: "u16 \<Rightarrow> int \<Rightarrow> int \<Rightarrow> string option" where
  "lookup_loop type left right =
    (if left \<le> right then
       let mid = left + (right - left) div 2; entry = TYPE_NAMES ! nat mid
       in if fst entry = type then Some (snd entry)
          else if fst entry < type then lookup_loop type (mid + 1) right
          else lookup_loop type left (mid - 1)
     else None)"
  by pat_completeness auto
termination
  by (relation "measure (\<lambda>(_, left, right). nat (right - left + 1))") auto

declare lookup_loop.simps [simp del]

definition lookup_type_name :: "u16 \<Rightarrow> string option" where
  "lookup_type_name type = lookup_loop type 0 (int (length TYPE_NAMES) - 1)"

text \<open>\<open>%u\<close>, and \<open>snprintf\<close> into \<open>buf_size\<close> octets (of which the last is the NUL).\<close>

fun decimal :: "nat \<Rightarrow> string" where
  "decimal n = (if n < 10 then [char_of (48 + n)] else decimal (n div 10) @ [char_of (48 + n mod 10)])"

declare decimal.simps [simp del]

definition snprintf :: "nat \<Rightarrow> string \<Rightarrow> string" where
  "snprintf buf_size s = take (buf_size - 1) s"

definition format_type_name :: "u16 \<Rightarrow> nat \<Rightarrow> string" where
  "format_type_name type buf_size =
    (case lookup_type_name type of
       Some n \<Rightarrow> n
     | None \<Rightarrow> snprintf buf_size (''TYPE'' @ decimal (unat type)))"

definition dns_type_to_string :: "u16 \<Rightarrow> string" where
  "dns_type_to_string type_code =
    (case lookup_type_name type_code of
       Some n \<Rightarrow> n
     | None \<Rightarrow> snprintf 32 (''TYPE'' @ decimal (unat type_code)))"

definition dns_class_text :: "u16 \<Rightarrow> nat \<Rightarrow> string" where
  "dns_class_text qclass buf_size =
    (if qclass = 1 then ''IN''
     else if qclass = 3 then ''CH''
     else if qclass = 4 then ''HS''
     else if qclass = 254 then ''NONE''
     else if qclass = 255 then ''ANY''
     else snprintf buf_size (''CLASS'' @ decimal (unat qclass)))"

definition dns_rcode_name :: "nat \<Rightarrow> string" where
  "dns_rcode_name rcode =
    (let names = [''NOERROR'', ''FORMERR'', ''SERVFAIL'', ''NXDOMAIN'', ''NOTIMP'', ''REFUSED'',
                  ''YXDOMAIN'', ''YXRRSET'', ''NXRRSET'', ''NOTAUTH'', ''NOTZONE'']
     in if rcode < length names then names ! rcode else ''RCODE'')"

definition is_meta_rrtype :: "u16 \<Rightarrow> bool" where
  "is_meta_rrtype type_code \<longleftrightarrow> type_code \<in> {41, 128, 249, 250, 251, 252, 253, 254, 255}"

text \<open>The constructor that aborts the program when the table is not strictly sorted.\<close>

definition verify_type_names_sorted :: bool where
  "verify_type_names_sorted = successively (<) (map fst TYPE_NAMES)"

section \<open>The binary search is a lookup\<close>

lemma type_names_sorted: "verify_type_names_sorted"
  unfolding verify_type_names_sorted_def by code_simp

lemma type_names_mono: "\<lbrakk>i < j; j < length TYPE_NAMES\<rbrakk> \<Longrightarrow> fst (TYPE_NAMES ! i) < fst (TYPE_NAMES ! j)"
  using type_names_sorted sorted_wrt_nth_less [of "(<)" "map fst TYPE_NAMES" i j]
  by (simp add: verify_type_names_sorted_def successively_conv_sorted_wrt)

lemma lookup_loop_exact:
  assumes "0 \<le> left" "right < int (length TYPE_NAMES)"
  shows "lookup_loop type left right = Some n \<longleftrightarrow>
    (\<exists>i. left \<le> int i \<and> int i \<le> right \<and> TYPE_NAMES ! i = (type, n))"
  using assms
proof (induction type left right rule: lookup_loop.induct)
  case (1 type left right)
  show ?case
  proof (cases "left \<le> right")
    case False
    then show ?thesis by (subst lookup_loop.simps) auto
  next
    case True
    obtain k where k: "left + (right - left) div 2 = int k" "left \<le> int k" "int k \<le> right"
      using True 1(3) by (intro that [of "nat (left + (right - left) div 2)"]) auto
    obtain t m where e: "TYPE_NAMES ! k = (t, m)" by (cases "TYPE_NAMES ! k")
    have step: "lookup_loop type left right =
        (if t = type then Some m else if t < type then lookup_loop type (int k + 1) right else lookup_loop type left (int k - 1))"
      using True by (subst lookup_loop.simps) (simp add: k(1) e)
    have at: "if i < k then type < t else if k < i then t < type else t = type \<and> n = m"
      if "int i \<le> right" "TYPE_NAMES ! i = (type, n)" for i
      using type_names_mono [of i k] type_names_mono [of k i] that k 1(4) e by (auto simp: not_less)
    consider "t = type" | "t < type" | "type < t" by fastforce
    then show ?thesis
    proof cases
      case eq: 1
      have "n = m" if "int i \<le> right" "TYPE_NAMES ! i = (type, n)" for i
        using at [OF that] eq by (auto split: if_splits)
      with eq e k(2,3) show ?thesis unfolding step by auto
    next
      case lt: 2
      have "left \<le> int i \<and> int i \<le> right \<and> TYPE_NAMES ! i = (type, n) \<longleftrightarrow>
          int k + 1 \<le> int i \<and> int i \<le> right \<and> TYPE_NAMES ! i = (type, n)" for i
        using at [of i] lt k(2) by (auto split: if_splits)
      with 1(1) [OF True refl refl, unfolded k(1) nat_int e] 1(3,4) lt less_imp_neq [OF lt] k(2) show ?thesis
        by (simp add: step)
    next
      case gt: 3
      have "left \<le> int i \<and> int i \<le> right \<and> TYPE_NAMES ! i = (type, n) \<longleftrightarrow>
          left \<le> int i \<and> int i \<le> int k - 1 \<and> TYPE_NAMES ! i = (type, n)" for i
        using at [of i] gt k(3) by (auto split: if_splits)
      with 1(2) [OF True refl refl, unfolded k(1) nat_int e] 1(3,4) less_not_sym [OF gt] less_imp_neq [OF gt, symmetric] k(3) show ?thesis
        by (simp add: step)
    qed
  qed
qed

lemma lookup_type_name_exact: "lookup_type_name type = Some n \<longleftrightarrow> (type, n) \<in> set TYPE_NAMES"
  unfolding lookup_type_name_def by (subst lookup_loop_exact) (auto simp: in_set_conv_nth)

section \<open>Decimal numbers\<close>

lemma of_char_digit [simp]: "n < 10 \<Longrightarrow> (of_char (char_of (48 + n) :: char) :: nat) = 48 + n"
  by simp

lemma decimal_digits: "list_all isdigit (decimal n)"
proof (induction n rule: decimal.induct)
  case (1 n)
  have "isdigit (char_of (48 + m))" if "m < 10" for m :: nat using that by (simp add: isdigit_def)
  with 1 show ?case by (subst decimal.simps) simp
qed

lemma decimal_nonempty [simp]: "decimal n \<noteq> []"
  by (subst decimal.simps) simp

lemma text_digits_snoc: "text_digits (ds @ [c]) = text_digits ds * 10 + (int (of_char c) - 48)"
  by (simp add: text_digits_def)

lemma text_digits_decimal: "text_digits (decimal n) = int n"
proof (induction n rule: decimal.induct)
  case (1 n)
  then show ?case
    by (subst decimal.simps) (auto simp: text_digits_snoc text_digits_def [of "[_]"] zdiv_int zmod_int)
qed

lemma length_decimal: "n < 10 ^ k \<Longrightarrow> 0 < k \<Longrightarrow> length (decimal n) \<le> k"
proof (induction k arbitrary: n)
  case (Suc k)
  then show ?case by (subst decimal.simps) (cases "k = 0", auto simp: less_mult_imp_div_less mult.commute)
qed simp

lemma isdigit_plain: "isdigit c \<Longrightarrow> \<not> isspace c \<and> c \<noteq> CHR ''-'' \<and> c \<noteq> CHR ''+'' \<and> toupper c = c"
  by (auto simp: isdigit_def isspace_def toupper_def)

lemma toupper_decimal: "map toupper (decimal n) = decimal n"
  using decimal_digits [of n] by (intro map_idI) (auto simp: list_all_iff dest: isdigit_plain)

lemma strtol_text_decimal:
  assumes "int n \<le> LONG_MAX"
  shows "strtol_text (decimal n) = (int n, [])"
proof -
  have d: "takeWhile isdigit (decimal n) = decimal n" "dropWhile isdigit (decimal n) = []"
    using decimal_digits [of n] by (simp_all add: takeWhile_eq_all_conv list_all_iff)
  have "isdigit (hd (decimal n))" using decimal_digits [of n] by (simp add: list_all_iff)
  from isdigit_plain [OF this] have "dropWhile isspace (decimal n) = decimal n"
    "hd (decimal n) \<noteq> CHR ''-''" "hd (decimal n) \<noteq> CHR ''+''"
    by (simp_all add: dropWhile_eq_self_iff)
  with assms show ?thesis by (simp add: strtol_text_def text_digits_decimal Let_def d)
qed

lemma toupper_idem [simp]: "toupper (toupper c) = toupper c"
  by (auto simp: toupper_def)

lemma unat_16_less: "unat (t :: u16) < 100000"
  using unsigned_less [where 'a = nat and w = t] by (rule less_le_trans) simp

lemma type_code_decimal: "type_code_upper (''TYPE'' @ decimal (unat (t :: u16))) = t"
proof -
  have n: "int (unat t) \<le> 65535" using unsigned_less [where 'a = int and w = t] by simp
  then have "strtol_text (decimal (unat t)) = (int (unat t), [])"
    by (intro strtol_text_decimal) (simp add: LONG_MAX_def)
  moreover have "0 < uint t \<or> t = 0" by (metis less_le unsigned_greater_eq unsigned_eq_0_iff)
  ultimately show ?thesis
    using n by (auto simp: type_code_upper_def type_cases_A_M_def type_cases_N_Z_def)
qed

lemma type_names_read: "list_all (\<lambda>(t, n). map toupper n = n \<and> get_type_code (Some n) = t) TYPE_NAMES"
  unfolding TYPE_NAMES_def by code_simp

section \<open>Properties\<close>

text \<open>
  C30.  Types written as text are read back: for every 16-bit type, what \<open>format_type_name\<close>
  writes into a buffer of at least 10 octets, and any spelling of it with other case, is
  read by \<open>get_type_code\<close> as that type, and \<open>dns_type_to_string\<close> writes the same text.
\<close>

theorem type_name_roundtrip:
  assumes "10 \<le> buf_size" and "map toupper s = map toupper (format_type_name t buf_size)"
  shows "get_type_code (Some s) = t \<and> dns_type_to_string t = format_type_name t buf_size"
proof (cases "lookup_type_name t")
  case None
  have "length (decimal (unat t)) \<le> 5" by (rule length_decimal) (simp_all add: unat_16_less)
  then have f: "format_type_name t buf_size = ''TYPE'' @ decimal (unat t)" "dns_type_to_string t = ''TYPE'' @ decimal (unat t)"
    using None assms(1) by (simp_all add: format_type_name_def dns_type_to_string_def snprintf_def)
  have u: "map toupper s = ''TYPE'' @ decimal (unat t)"
    unfolding assms(2) f(1) by (simp add: toupper_decimal) (simp add: toupper_def)
  have "length s < 24" using arg_cong [OF u, of length] \<open>length (decimal (unat t)) \<le> 5\<close> by simp
  with f u show ?thesis by (simp add: get_type_code_def type_code_decimal del: append_Cons)
next
  case (Some n)
  then have f: "format_type_name t buf_size = n" "dns_type_to_string t = n"
    by (simp_all add: format_type_name_def dns_type_to_string_def)
  have "map toupper n = n" "get_type_code (Some n) = t"
    using type_names_read Some unfolding lookup_type_name_exact by (auto simp: list_all_iff)
  moreover have "length s = length n" using arg_cong [OF assms(2), of length] f by simp
  ultimately show ?thesis using assms(2) f by (cases "24 \<le> length n") (simp_all add: get_type_code_def)
qed

theorem type_name_roundtrip_witness:
  "get_type_code (Some ''nsec3param'') = 51 \<and> get_type_code (Some ''TYPE65280'') = 65280"
proof -
  have "lookup_type_name 51 = Some ''NSEC3PARAM''" by (simp add: lookup_type_name_exact TYPE_NAMES_def)
  then have "map toupper ''nsec3param'' = map toupper (format_type_name 51 10)"
    by (simp add: format_type_name_def toupper_def char_of_def bit_iff_odd)
  moreover have "lookup_type_name 65280 \<noteq> Some n" for n by (simp add: lookup_type_name_exact TYPE_NAMES_def)
  then have "lookup_type_name 65280 = None" by (cases "lookup_type_name 65280") auto
  then have "''TYPE65280'' = format_type_name 65280 10"
    by (simp add: format_type_name_def snprintf_def decimal.simps char_of_def bit_iff_odd)
  ultimately show ?thesis
    using type_name_roundtrip [of 10 "''nsec3param''" 51] type_name_roundtrip [of 10 "''TYPE65280''" 65280] by simp
qed

text \<open>
  C31.  The binary search over \<open>TYPE_NAMES\<close> is a lookup: for every type it returns the name of
  its entry, and NULL exactly when the table has none; the check that the table is sorted,
  which it relies on, succeeds.
\<close>

theorem lookup_type_name_correct: "verify_type_names_sorted \<and> lookup_type_name type = map_of TYPE_NAMES type"
proof -
  have "sorted_wrt (<) (map fst TYPE_NAMES)"
    using type_names_sorted by (simp add: verify_type_names_sorted_def successively_conv_sorted_wrt)
  then have "distinct (map fst TYPE_NAMES)" by (simp add: strict_sorted_iff)
  then have "lookup_type_name type = Some n \<longleftrightarrow> map_of TYPE_NAMES type = Some n" for n
    by (simp add: lookup_type_name_exact)
  then show ?thesis using type_names_sorted by (metis option.exhaust)
qed

end
