(* ===== verification/Logev.thy ===== *)
theory Logev
  imports Type_Names
begin

text \<open>
  Event messages (\<^verbatim>\<open>src/dns_utils.c\<close>, \<^verbatim>\<open>src/dns_log.h\<close>): the mask of wanted levels, the
  rate limit per category and second, and the text of a line.  Handing a line to the
  thread's sink or to the channels is modelled as the list of the lines handed over.
  The atomic operations are taken one call at a time.
\<close>

section \<open>Categories and levels\<close>

definition LOGC_XFER_OUT :: int where "LOGC_XFER_OUT = 9"
definition LOGC_UPDATE :: int where "LOGC_UPDATE = 23"
definition LOGC_UPDATE_SECURITY :: int where "LOGC_UPDATE_SECURITY = 25"
definition LOGC_QUERY_ERRORS :: int where "LOGC_QUERY_ERRORS = 26"
definition LOGC_COUNT :: int where "LOGC_COUNT = 32"
definition LOG_LVL_INFO :: int where "LOG_LVL_INFO = - 1"
definition LOGEV_LEVEL_MIN :: int where "LOGEV_LEVEL_MIN = - 5"
definition LOGEV_LEVEL_MAX :: int where "LOGEV_LEVEL_MAX = 10"

text \<open>\<open>g_logev_mask\<close> is an argument: the mask of each category.\<close>

definition logev_wanted :: "(int \<Rightarrow> u32) \<Rightarrow> int \<Rightarrow> int \<Rightarrow> bool" where
  "logev_wanted g_mask cat level =
    (if cat < 0 \<or> LOGC_COUNT \<le> cat \<or> level < LOGEV_LEVEL_MIN \<or> LOGEV_LEVEL_MAX < level then False
     else bit (g_mask cat) (nat (level - LOGEV_LEVEL_MIN)))"

definition logev_set_mask :: "(int \<Rightarrow> u32) \<Rightarrow> int \<Rightarrow> u32 \<Rightarrow> int \<Rightarrow> u32" where
  "logev_set_mask g_mask cat m = (if 0 \<le> cat \<and> cat < LOGC_COUNT then g_mask(cat := m) else g_mask)"

section \<open>The rate limit\<close>

definition logev_rate_limit :: "int \<Rightarrow> u32" where
  "logev_rate_limit cat =
    (if cat = LOGC_UPDATE_SECURITY then 10
     else if cat = LOGC_UPDATE then 20
     else if cat = LOGC_QUERY_ERRORS then 20
     else if cat = LOGC_XFER_OUT then 50
     else 20)"

record logev_rl =
  rl_sec :: int
  rl_count :: u32
  rl_suppressed :: u32
  rl_level :: int

type_synonym logev_state = "int \<Rightarrow> logev_rl"

definition logev_rate_reset :: "logev_state \<Rightarrow> logev_state" where
  "logev_rate_reset st =
    (\<lambda>i. if 0 \<le> i \<and> i < LOGC_COUNT then \<lparr>rl_sec = 0, rl_count = 0, rl_suppressed = 0, rl_level = LOG_LVL_INFO\<rparr> else st i)"

text \<open>
  One message: the new state, whether it passes, \<open>*report\<close>, and \<open>*report_level\<close> (which keeps
  the caller's value \<open>rep_level\<close> unless a new second begins).
\<close>

definition logev_admit_at :: "logev_state \<Rightarrow> int \<Rightarrow> int \<Rightarrow> int \<Rightarrow> int \<Rightarrow> logev_state \<times> bool \<times> u32 \<times> int" where
  "logev_admit_at st cat level now rep_level =
    (if cat < 0 \<or> LOGC_COUNT \<le> cat then (st, False, 0, rep_level)
     else
       let e = st cat;
           (e, report, report_level) =
             (if rl_sec e \<noteq> now
              then (e\<lparr>rl_sec := now, rl_count := 0, rl_suppressed := 0\<rparr>, rl_suppressed e, rl_level e)
              else (e, 0, rep_level))
       in if logev_rate_limit cat \<le> rl_count e
          then (st(cat := e\<lparr>rl_suppressed := rl_suppressed e + 1, rl_level := level\<rparr>), False, report, report_level)
          else (st(cat := e\<lparr>rl_count := rl_count e + 1\<rparr>), True, report, report_level))"

section \<open>Lines\<close>

definition LOGEV_MSG_MAX :: nat where "LOGEV_MSG_MAX = 256"

text \<open>The octet escaped as \<open>\DDD\<close>.\<close>

definition escaped :: "char \<Rightarrow> string" where
  "escaped c =
    (let n = (of_char c :: nat)
     in [char_of (92 :: nat), char_of (48 + n div 100), char_of (48 + n div 10 mod 10), char_of (48 + n mod 10)])"

fun name_text_loop :: "nat \<Rightarrow> string \<Rightarrow> string \<Rightarrow> string" where
  "name_text_loop n out [] = out"
| "name_text_loop n out (c # cs) =
    (if 33 \<le> (of_char c :: nat) \<and> (of_char c :: nat) \<le> 126 \<and> c \<noteq> char_of (34 :: nat) \<and> c \<noteq> CHR '';'' then
       (if n \<le> length out + 1 then out else name_text_loop n (out @ [c]) cs)
     else if n \<le> length out + 4 then out
     else name_text_loop n (out @ escaped c) cs)"

text \<open>The text for the buffer of \<open>n\<close> octets, \<open>None\<close> when nothing is written.\<close>

definition logev_name_text :: "string option \<Rightarrow> nat \<Rightarrow> string option" where
  "logev_name_text name n =
    (if n = 0 then None
     else
       let s = (case name of None \<Rightarrow> [] | Some s \<Rightarrow> s);
           len = length s;
           len = (if 1 < len \<and> s ! (len - 1) = CHR ''.'' \<and> s ! (len - 2) \<noteq> char_of (92 :: nat) then len - 1 else len)
       in Some (name_text_loop n [] (take len s)))"

text \<open>The line and its length; \<open>snprintf\<close> does not fail.\<close>

definition int_decimal :: "int \<Rightarrow> string" where
  "int_decimal i = (if i < 0 then CHR ''-'' # decimal (nat (- i)) else decimal (nat i))"

definition logev_format_line :: "nat \<Rightarrow> string option \<Rightarrow> int \<Rightarrow> string \<Rightarrow> string" where
  "logev_format_line n client_ip client_port msg =
    (if n = 0 then []
     else
       (case client_ip of
          Some ip \<Rightarrow>
            if ip \<noteq> [] \<and> 0 < client_port
            then snprintf n (''client '' @ ip @ ''#'' @ int_decimal client_port @ '': '' @ msg)
            else if ip \<noteq> [] then snprintf n (''client '' @ ip @ '': '' @ msg)
            else snprintf n msg
        | None \<Rightarrow> snprintf n msg))"

text \<open>A line handed to the sink or the channels: category, level, client, port and text.\<close>

type_synonym logev_line = "int \<times> int \<times> string option \<times> int \<times> string"

definition logev_report :: "int \<Rightarrow> int \<Rightarrow> u32 \<Rightarrow> logev_line" where
  "logev_report cat level n =
    (cat, level, None, 0,
     snprintf LOGEV_MSG_MAX (decimal (unat n) @ '' message(s) suppressed by the rate limit of '' @
       decimal (unat (logev_rate_limit cat)) @ '' per second''))"

text \<open>One category of \<open>logev_flush_suppressed\<close>: the state and the count taken, if any.\<close>

definition flush_cat :: "logev_state \<Rightarrow> int \<Rightarrow> int \<Rightarrow> logev_state \<times> u32" where
  "flush_cat st now c =
    (if rl_suppressed (st c) = 0 then (st, 0)
     else if rl_sec (st c) = now then (st, 0)
     else (st(c := (st c)\<lparr>rl_suppressed := 0\<rparr>), rl_suppressed (st c)))"

definition logev_flush_cats :: "int list" where
  "logev_flush_cats = [LOGC_UPDATE_SECURITY, LOGC_UPDATE, LOGC_QUERY_ERRORS, LOGC_XFER_OUT]"

fun flush_loop :: "(int \<Rightarrow> u32) \<Rightarrow> int \<Rightarrow> int list \<Rightarrow> logev_state \<Rightarrow> logev_state \<times> logev_line list" where
  "flush_loop g_mask now [] st = (st, [])"
| "flush_loop g_mask now (c # cs) st =
    (let (st', n) = flush_cat st now c; (st'', out) = flush_loop g_mask now cs st'
     in (st'', (if n \<noteq> 0 \<and> logev_wanted g_mask c (rl_level (st' c)) then [logev_report c (rl_level (st' c)) n] else []) @ out))"

definition logev_flush_suppressed :: "(int \<Rightarrow> u32) \<Rightarrow> int \<Rightarrow> logev_state \<Rightarrow> logev_state \<times> logev_line list" where
  "logev_flush_suppressed g_mask now st = flush_loop g_mask now logev_flush_cats st"

text \<open>A message: \<open>text\<close> is what \<open>vsnprintf\<close> makes of the format and its arguments, before it is cut.\<close>

definition logev_vpost ::
  "(int \<Rightarrow> u32) \<Rightarrow> logev_state \<Rightarrow> int \<Rightarrow> int \<Rightarrow> string option \<Rightarrow> int \<Rightarrow> int \<Rightarrow> string \<Rightarrow> logev_state \<times> logev_line list" where
  "logev_vpost g_mask st cat level client_ip client_port now text =
    (if \<not> logev_wanted g_mask cat level then (st, [])
     else
       let (st, pass, rep, rep_level) = logev_admit_at st cat level now level
       in if \<not> pass then (st, [])
          else (st, (if rep \<noteq> 0 \<and> logev_wanted g_mask cat rep_level then [logev_report cat rep_level rep] else []) @
                    [(cat, level, client_ip, client_port, snprintf LOGEV_MSG_MAX text)]))"

section \<open>Runs\<close>

text \<open>The messages of a run (category, level, time), and for each whether it passed and what it reported.\<close>

fun logev_run :: "logev_state \<Rightarrow> (int \<times> int \<times> int) list \<Rightarrow> logev_state \<times> (bool \<times> u32) list" where
  "logev_run st [] = (st, [])"
| "logev_run st ((cat, level, now) # cs) =
    (let (st', pass, report, _) = logev_admit_at st cat level now level; (st'', out) = logev_run st' cs
     in (st'', (pass, report) # out))"

text \<open>How many messages of category \<open>c\<close> pass at time \<open>t\<close>; how many are refused; what is reported for it.\<close>

fun passed :: "int \<Rightarrow> int \<Rightarrow> logev_state \<Rightarrow> (int \<times> int \<times> int) list \<Rightarrow> nat" where
  "passed c t st [] = 0"
| "passed c t st ((cat, level, now) # cs) =
    (let (st', pass, _, _) = logev_admit_at st cat level now level
     in (if cat = c \<and> now = t \<and> pass then 1 else 0) + passed c t st' cs)"

fun refused :: "int \<Rightarrow> logev_state \<Rightarrow> (int \<times> int \<times> int) list \<Rightarrow> nat" where
  "refused c st [] = 0"
| "refused c st ((cat, level, now) # cs) =
    (let (st', pass, _, _) = logev_admit_at st cat level now level
     in (if cat = c \<and> \<not> pass then 1 else 0) + refused c st' cs)"

fun reported :: "int \<Rightarrow> logev_state \<Rightarrow> (int \<times> int \<times> int) list \<Rightarrow> u32" where
  "reported c st [] = 0"
| "reported c st ((cat, level, now) # cs) =
    (let (st', _, report, _) = logev_admit_at st cat level now level
     in (if cat = c then report else 0) + reported c st' cs)"

lemma rate_limit_le: "unat (logev_rate_limit c) \<le> 50" "0 < unat (logev_rate_limit c)"
  by (simp_all add: logev_rate_limit_def)

lemma rate_limit_pos: "logev_rate_limit c \<noteq> 0"
  by (simp add: logev_rate_limit_def)

lemma admit_other: "c \<noteq> cat \<Longrightarrow> fst (logev_admit_at st cat level now rl) c = st c"
  by (simp add: logev_admit_at_def Let_def)

lemma admit_same:
  assumes "0 \<le> c" "c < LOGC_COUNT" "logev_admit_at st c level now rl = (st', pass, rep, rlv)"
  defines "k \<equiv> (if rl_sec (st c) = now then rl_count (st c) else 0)"
  shows "rl_sec (st' c) = now" "pass \<longleftrightarrow> k < logev_rate_limit c"
    "rl_count (st' c) = (if pass then k + 1 else k)"
    "rl_suppressed (st' c) = (if rl_sec (st c) = now then rl_suppressed (st c) else 0) + (if pass then 0 else 1)"
    "rep = (if rl_sec (st c) = now then 0 else rl_suppressed (st c))"
  using assms rate_limit_pos [of c]
  by (auto simp: logev_admit_at_def Let_def k_def not_le not_less word_gt_0 split: if_splits)

lemma unat_suc_u32: "unat (k :: u32) < 50 \<Longrightarrow> unat (k + 1) = unat k + 1"
  by (simp add: unat_word_ariths)

lemma passed_bound:
  assumes "0 \<le> c" "c < LOGC_COUNT" "sorted (map (\<lambda>(_, _, now). now) cs)"
    and "rl_count (st c) \<le> logev_rate_limit c"
    and "rl_sec (st c) = t \<and> rl_count (st c) \<noteq> 0 \<Longrightarrow> list_all (\<lambda>(_, _, now). t \<le> now) cs"
  shows "passed c t st cs + (if rl_sec (st c) = t then unat (rl_count (st c)) else 0) \<le> unat (logev_rate_limit c)"
  using assms(3-)
proof (induction cs arbitrary: st)
  case Nil
  then show ?case by (simp add: word_le_nat_alt)
next
  case (Cons x cs)
  obtain cat level now where x: "x = (cat, level, now)" by (cases x)
  obtain st' pass rep rlv where a: "logev_admit_at st cat level now level = (st', pass, rep, rlv)"
    by (metis prod_cases4)
  show ?case
  proof (cases "cat = c")
    case False
    then have "st' c = st c" using admit_other [of c cat st level now level] a by simp
    moreover have "list_all (\<lambda>(_, _, now). t \<le> now) cs" if "rl_sec (st c) = t \<and> rl_count (st c) \<noteq> 0"
      using Cons.prems(3) that by simp
    ultimately show ?thesis using Cons.IH [of st'] Cons.prems x a False by (auto simp: Let_def split: if_splits)
  next
    case True
    note s = admit_same [OF assms(1,2) a [unfolded True]]
    have lim: "unat (rl_count (st' c)) = (if pass then 1 else 0) + (if rl_sec (st c) = now then unat (rl_count (st c)) else 0)"
      using s(2,3) rate_limit_le(1) [of c] Cons.prems(2)
      by (auto simp: unat_suc_u32 word_less_nat_alt word_le_nat_alt)
    have le: "rl_count (st' c) \<le> logev_rate_limit c"
      using s(2,3) lim Cons.prems(2) by (auto simp: word_less_nat_alt word_le_nat_alt split: if_splits)
    have srt: "sorted (map (\<lambda>(_, _, now). now) cs)" "list_all (\<lambda>(_, _, t). now \<le> t) cs"
      using Cons.prems(1) x by (auto simp: list_all_iff)
    have ih: "passed c t st' cs + (if now = t then unat (rl_count (st' c)) else 0) \<le> unat (logev_rate_limit c)"
      using Cons.IH [of st', OF srt(1) le] srt(2) s(1) by auto
    have none: "passed c t st' cs = 0" if "t < now"
      using srt(2) that by (induction cs arbitrary: st') (auto simp: Let_def split: prod.splits)
    show ?thesis
      using ih lim none Cons.prems(2,3) True x a
      by (cases "now = t"; cases "rl_sec (st c) = t"; cases "rl_count (st c) = 0") (auto simp: Let_def word_le_nat_alt not_less unat_eq_zero)
  qed
qed

lemma refused_reported:
  assumes "0 \<le> c" "c < LOGC_COUNT"
  shows "rl_suppressed (st c) + of_nat (refused c st cs) = reported c st cs + rl_suppressed (fst (logev_run st cs) c)"
proof (induction cs arbitrary: st)
  case (Cons x cs)
  obtain cat level now where x: "x = (cat, level, now)" by (cases x)
  obtain st' pass rep rlv where a: "logev_admit_at st cat level now level = (st', pass, rep, rlv)"
    by (metis prod_cases4)
  have "rl_suppressed (st c) + (if cat = c \<and> \<not> pass then 1 else 0) = (if cat = c then rep else 0) + rl_suppressed (st' c)"
  proof (cases "cat = c")
    case True
    show ?thesis using admit_same [OF assms a [unfolded True]] True by auto
  next
    case False
    then show ?thesis using admit_other [of c cat st level now level] a by simp
  qed
  then have "rl_suppressed (st c) + (if cat = c \<and> \<not> pass then 1 else 0) + of_nat (refused c st' cs) =
      (if cat = c then rep else 0) + (rl_suppressed (st' c) + of_nat (refused c st' cs))"
    by (simp add: add.assoc)
  then show ?case unfolding Cons [of st'] using x a by (auto simp: Let_def add.assoc split: prod.splits if_splits)
qed simp

section \<open>Properties\<close>



end
