(* ===== verification/Rrl.thy ===== *)
theory Rrl
  imports Message Siphash Match_Cidr
begin

text \<open>
  Response rate limiting (\<^verbatim>\<open>src/dns_rrl.c\<close>): the class and the key of a response, the
  bucket table with its four-way probing, the token buckets, and the decision for one
  response.  The table is shared and each bucket is locked while it is used; a call is
  taken as one step.  Of the system, \<open>inet_pton\<close>, \<open>inet_ntop\<close>, the value of \<open>AF_INET6\<close>, the
  clock and the random hash key are parameters.
\<close>

section \<open>Responses and keys\<close>

datatype rrl_response_class_t =
  RRL_RESP_NOERROR | RRL_RESP_NODATA | RRL_RESP_NXDOMAIN | RRL_RESP_ERROR | RRL_RESP_REFERRAL | RRL_RESP_ALL

fun class_octet :: "rrl_response_class_t \<Rightarrow> u8" where
  "class_octet RRL_RESP_NOERROR = 0"
| "class_octet RRL_RESP_NODATA = 1"
| "class_octet RRL_RESP_NXDOMAIN = 2"
| "class_octet RRL_RESP_ERROR = 3"
| "class_octet RRL_RESP_REFERRAL = 4"
| "class_octet RRL_RESP_ALL = 5"

record rrl_key_t =
  k_cls :: rrl_response_class_t
  k_name :: "bytes option"
  k_wildcard :: bool
  k_qtype :: u16
  k_qclass :: u16

definition get_rrl_class :: "bytes \<Rightarrow> nat \<Rightarrow> rrl_response_class_t result" where
  "get_rrl_class res_buf res_len =
    (if res_len < DNS_HEADER_SIZE then Ok RRL_RESP_ERROR
     else rd8 res_buf 3 (\<lambda>b3. rd16 res_buf 6 (\<lambda>ancount. rd16 res_buf 8 (\<lambda>nscount. rd8 res_buf 2 (\<lambda>b2.
       let rcode = b3 AND 0x0F in
       Ok (if rcode = 3 then RRL_RESP_NXDOMAIN
           else if rcode = 0 then
             (if 0 < ancount then RRL_RESP_NOERROR
              else if b2 AND 0x04 = 0 \<and> 0 < nscount then RRL_RESP_REFERRAL
              else RRL_RESP_NODATA)
           else RRL_RESP_ERROR))))))"

text \<open>The owner of the first authority record; \<open>None\<close> is \<open>false\<close>.\<close>

definition rrl_referral_name :: "bytes \<Rightarrow> nat \<Rightarrow> nat \<Rightarrow> bytes option result" where
  "rrl_referral_name res res_len cap =
    rd16 res 4 (\<lambda>qdcount. rd16 res 6 (\<lambda>ancount.
      bind_result (skip_questions res res_len (unat qdcount) DNS_HEADER_SIZE) (\<lambda>q.
        case q of
          None \<Rightarrow> Ok None
        | Some off \<Rightarrow>
            bind_result (skip_rrs res res_len (unat ancount) off) (\<lambda>a.
              case a of
                None \<Rightarrow> Ok None
              | Some off \<Rightarrow>
                  try_result (expand_wire_name_to_buffer res res_len off cap) (\<lambda>(out, _).
                    Ok (Some (if 2 < length out + 1 \<and> last out = DOT then butlast out else out))) (Ok None)))))"

text \<open>\<open>namebuf_cap\<close> is \<open>None\<close> when \<open>namebuf\<close> is NULL.\<close>

definition rrl_make_key ::
  "bytes \<Rightarrow> nat \<Rightarrow> bytes option \<Rightarrow> u16 \<Rightarrow> u16 \<Rightarrow> bytes option \<Rightarrow> bool \<Rightarrow> nat option \<Rightarrow> rrl_key_t result" where
  "rrl_make_key res res_len qname qtype qclass zone wildcard namebuf_cap =
    bind_result (get_rrl_class res res_len) (\<lambda>cls.
      let key = \<lparr>k_cls = cls, k_name = None, k_wildcard = False, k_qtype = qtype, k_qclass = qclass\<rparr> in
      case cls of
        RRL_RESP_NOERROR \<Rightarrow>
          Ok (if wildcard \<and> zone \<noteq> None then key\<lparr>k_name := zone, k_wildcard := True\<rparr> else key\<lparr>k_name := qname\<rparr>)
      | RRL_RESP_NODATA \<Rightarrow>
          Ok (if wildcard \<and> zone \<noteq> None then key\<lparr>k_name := zone, k_wildcard := True\<rparr> else key\<lparr>k_name := qname\<rparr>)
      | RRL_RESP_NXDOMAIN \<Rightarrow> Ok (key\<lparr>k_name := (if zone \<noteq> None then zone else qname)\<rparr>)
      | RRL_RESP_REFERRAL \<Rightarrow>
          (case namebuf_cap of
             None \<Rightarrow> Ok (key\<lparr>k_name := qname\<rparr>)
           | Some cap \<Rightarrow>
               bind_result (rrl_referral_name res res_len cap) (\<lambda>n.
                 Ok (key\<lparr>k_name := (case n of Some t \<Rightarrow> Some t | None \<Rightarrow> qname)\<rparr>)))
      | _ \<Rightarrow> Ok key)"

section \<open>Configuration\<close>

text \<open>
  \<open>exempt_clients\<close> and \<open>exempt_clients_parsed\<close>: \<open>None\<close> is NULL; both arrays have
  \<open>exempt_clients_count\<close> entries.
\<close>

record rate_limit_config_t =
  configured :: bool
  early_drop :: bool
  log_only :: bool
  responses_per_second :: u32
  nodata_per_second :: u32
  nodata_per_second_set :: bool
  nxdomains_per_second :: u32
  errors_per_second :: u32
  referrals_per_second :: u32
  referrals_per_second_set :: bool
  all_per_second :: u32
  ipv4_prefix_length :: u8
  ipv6_prefix_length :: u8
  ipv4_prefix_length_set :: bool
  ipv6_prefix_length_set :: bool
  window_seconds :: u32
  rl_slip :: u32
  exempt_clients :: "bytes list option"
  exempt_clients_parsed :: "cidr_entry_t list option"
  exempt_clients_count :: nat

definition rrl_rate :: "rate_limit_config_t \<Rightarrow> rrl_response_class_t \<Rightarrow> u32" where
  "rrl_rate cfg cls =
    (case cls of
       RRL_RESP_NOERROR \<Rightarrow> responses_per_second cfg
     | RRL_RESP_NODATA \<Rightarrow> nodata_per_second cfg
     | RRL_RESP_NXDOMAIN \<Rightarrow> nxdomains_per_second cfg
     | RRL_RESP_REFERRAL \<Rightarrow> referrals_per_second cfg
     | RRL_RESP_ALL \<Rightarrow> all_per_second cfg
     | RRL_RESP_ERROR \<Rightarrow> errors_per_second cfg)"

text \<open>The system: \<open>inet_pton\<close>, \<open>inet_ntop\<close>, the octet of \<open>AF_INET6\<close> and \<open>AF_INET\<close>, and the hash key.\<close>

record rrl_env =
  pton4 :: "bytes \<Rightarrow> bytes option"
  pton6 :: "bytes \<Rightarrow> bytes option"
  ntop4 :: "bytes \<Rightarrow> bytes"
  ntop6 :: "bytes \<Rightarrow> bytes"
  af_octet4 :: u8
  af_octet6 :: u8
  rrl_hash_key :: "u64 \<times> u64"

definition rrl_is_exempt :: "rrl_env \<Rightarrow> sockaddr \<Rightarrow> rate_limit_config_t \<Rightarrow> bool" where
  "rrl_is_exempt env client_addr cfg =
    (if 0 < exempt_clients_count cfg \<and> exempt_clients_parsed cfg \<noteq> None then
       list_ex (\<lambda>e. cidr_entry_match_sockaddr e (Some client_addr)) (the (exempt_clients_parsed cfg))
     else if 0 < exempt_clients_count cfg \<and> exempt_clients cfg \<noteq> None then
       (let ip_str = (case client_addr of SA_INET a \<Rightarrow> ntop4 env a | SA_INET6 a \<Rightarrow> ntop6 env a | SA_OTHER \<Rightarrow> [])
        in list_ex (\<lambda>ip. match_cidr (pton4 env) (pton6 env) (Some ip_str) (Some ip)) (the (exempt_clients cfg)))
     else False)"

section \<open>The hash of a key\<close>

definition RRL_KEY_BUF :: nat where "RRL_KEY_BUF = 2 + 16 + 4 + 2 + DNS_NAME_TEXT_SIZE"

text \<open>The address octets with the bits behind the first \<open>plen\<close> cleared.\<close>

definition masked_addr :: "nat \<Rightarrow> bytes \<Rightarrow> bytes" where
  "masked_addr plen addr =
    map (\<lambda>i. let bits = (if i * 8 < plen then plen - i * 8 else 0);
                 m = (if 8 \<le> bits then 0xFF else push_bit (8 - bits) 0xFF) :: u8
             in addr ! i AND m) [0..<length addr]"

definition client_octets :: "rrl_env \<Rightarrow> sockaddr \<Rightarrow> rate_limit_config_t \<Rightarrow> bytes" where
  "client_octets env client_addr cfg =
    (case client_addr of
       SA_INET6 a \<Rightarrow> af_octet6 env # masked_addr (if ipv6_prefix_length_set cfg then unat (ipv6_prefix_length cfg) else 56) a
     | SA_INET a \<Rightarrow> af_octet4 env # masked_addr (if ipv4_prefix_length_set cfg then unat (ipv4_prefix_length cfg) else 24) a
     | SA_OTHER \<Rightarrow> [])"

text \<open>What is hashed: \<open>buf\<close> up to \<open>n\<close>.\<close>

definition rrl_key_octets :: "rrl_env \<Rightarrow> sockaddr \<Rightarrow> rrl_key_t \<Rightarrow> rate_limit_config_t \<Rightarrow> bytes" where
  "rrl_key_octets env client_addr key cfg =
    (let cls = k_cls key;
         buf = class_octet cls # client_octets env client_addr cfg;
         buf = (if cls = RRL_RESP_NOERROR then buf @ put16 (k_qtype key) else buf);
         buf = (if cls = RRL_RESP_NOERROR \<or> cls = RRL_RESP_NODATA \<or> cls = RRL_RESP_REFERRAL
                then buf @ put16 (k_qclass key) else buf)
     in case k_name key of
          Some name \<Rightarrow>
            if cls \<noteq> RRL_RESP_ERROR \<and> cls \<noteq> RRL_RESP_ALL then
              let buf = (if k_wildcard key then buf @ [0x2A, DOT] else buf);
                  name_len = length name;
                  name_len = (if 1 < name_len \<and> name ! (name_len - 1) = DOT \<and> \<not> dns_char_is_escaped name (name_len - 1)
                              then name_len - 1 else name_len)
              in buf @ take (RRL_KEY_BUF - length buf) (map lower8 (take name_len name))
            else buf
        | None \<Rightarrow> buf)"

definition rrl_key_hash :: "rrl_env \<Rightarrow> sockaddr \<Rightarrow> rrl_key_t \<Rightarrow> rate_limit_config_t \<Rightarrow> u64" where
  "rrl_key_hash env client_addr key cfg =
    (let h = dns_siphash24 (rrl_key_octets env client_addr key cfg) (rrl_hash_key env)
     in if h \<noteq> 0 then h else 1)"

section \<open>The table\<close>

definition RRL_TABLE_SIZE :: nat where "RRL_TABLE_SIZE = 131072"
definition RRL_PROBE_WAYS :: nat where "RRL_PROBE_WAYS = 4"

record rrl_bucket_t =
  key_hash :: u64
  last_refill_ms :: int
  tokens :: int
  slip_counter :: u32

type_synonym rrl_table = "nat \<Rightarrow> rrl_bucket_t"

definition rrl_zero :: rrl_table where
  "rrl_zero = (\<lambda>_. \<lparr>key_hash = 0, last_refill_ms = 0, tokens = 0, slip_counter = 0\<rparr>)"

text \<open>The candidate buckets of a hash, in the order they are probed.\<close>

definition probe_slots :: "u64 \<Rightarrow> nat list" where
  "probe_slots hash =
    map (\<lambda>probe. unat ((hash AND 131071) + word_of_nat probe AND (131071 :: u64))) [0..<RRL_PROBE_WAYS]"

text \<open>The first pass, then the second pass over empty and expired buckets.\<close>

definition rrl_select :: "rrl_table \<Rightarrow> u64 \<Rightarrow> u32 \<Rightarrow> int \<Rightarrow> nat option" where
  "rrl_select tab hash window_sec now_ms =
    (case find (\<lambda>i. key_hash (tab i) = hash) (probe_slots hash) of
       Some i \<Rightarrow> Some i
     | None \<Rightarrow>
        find (\<lambda>i. key_hash (tab i) = 0 \<or> int (unat window_sec) * 1000 < now_ms - last_refill_ms (tab i)) (probe_slots hash))"

definition rrl_max_cap :: "u32 \<Rightarrow> u32 \<Rightarrow> nat" where
  "rrl_max_cap rate window_sec = min (unat rate * unat window_sec) 0x7FFFFFFF"

text \<open>The state of the selected bucket before a token is taken.\<close>

definition rrl_refill :: "rrl_bucket_t \<Rightarrow> u64 \<Rightarrow> u32 \<Rightarrow> u32 \<Rightarrow> int \<Rightarrow> rrl_bucket_t" where
  "rrl_refill b hash rate window_sec now_ms =
    (let max_cap = int (rrl_max_cap rate window_sec) in
     if key_hash b \<noteq> hash then
       b\<lparr>key_hash := hash, last_refill_ms := now_ms, tokens := max_cap, slip_counter := 0\<rparr>
     else
       let elapsed_ms = now_ms - last_refill_ms b in
       if 0 < elapsed_ms then
         let add_t = uint (((word_of_int elapsed_ms :: u64) * ucast rate) div 1000) in
         if 0 < add_t then
           let add_t = min add_t max_cap;
               t = tokens b + add_t;
               t = min t max_cap;
               t = max t 0
           in b\<lparr>tokens := t, last_refill_ms := now_ms\<rparr>
         else b
       else b)"

datatype rrl_debit_result = Allow | Limit bool | Busy

definition rrl_debit :: "rrl_table \<Rightarrow> u64 \<Rightarrow> u32 \<Rightarrow> u32 \<Rightarrow> u32 \<Rightarrow> int \<Rightarrow> rrl_table \<times> rrl_debit_result" where
  "rrl_debit tab hash rate window_sec slip now_ms =
    (case rrl_select tab hash window_sec now_ms of
       None \<Rightarrow> (tab, Busy)
     | Some i \<Rightarrow>
        let b = rrl_refill (tab i) hash rate window_sec now_ms in
        if 0 < tokens b then (tab(i := b\<lparr>tokens := tokens b - 1\<rparr>), Allow)
        else
          let b = b\<lparr>slip_counter := slip_counter b + 1\<rparr>
          in (tab(i := b), Limit (0 < slip \<and> slip_counter b mod slip = 0)))"

section \<open>The decision\<close>

definition rrl_window :: "rate_limit_config_t \<Rightarrow> u32" where
  "rrl_window cfg =
    (let window_sec = (if 0 < window_seconds cfg then window_seconds cfg else 15)
     in if 3600 < window_sec then 3600 else window_sec)"

record rrl_state =
  rrl_tab :: rrl_table
  rrl_dropped_total :: u64
  rrl_slip_total :: u64

text \<open>One limit with its rate: \<open>allow\<close> and \<open>*out_slip\<close> change only when the debit says 0.\<close>

definition rrl_limit ::
  "u64 \<Rightarrow> u32 \<Rightarrow> u32 \<Rightarrow> u32 \<Rightarrow> int \<Rightarrow> rrl_table \<times> bool \<times> bool \<Rightarrow> rrl_table \<times> bool \<times> bool" where
  "rrl_limit hash rate window_sec slip now_ms = (\<lambda>(tab, allow, out_slip).
    if 0 < rate then
      (case rrl_debit tab hash rate window_sec slip now_ms of
         (tab, Limit s) \<Rightarrow> (tab, False, s)
       | (tab, _) \<Rightarrow> (tab, allow, out_slip))
    else (tab, allow, out_slip))"

text \<open>The two totals.\<close>

definition rrl_count :: "bool \<Rightarrow> bool \<Rightarrow> rrl_state \<Rightarrow> rrl_state" where
  "rrl_count allow out_slip st =
    (if \<not> allow \<and> \<not> out_slip then st\<lparr>rrl_dropped_total := rrl_dropped_total st + 1\<rparr>
     else if \<not> allow \<and> out_slip then st\<lparr>rrl_slip_total := rrl_slip_total st + 1\<rparr>
     else st)"

text \<open>The key of the all-per-second bucket.\<close>

definition rrl_all_key :: rrl_key_t where
  "rrl_all_key = \<lparr>k_cls = RRL_RESP_ALL, k_name = None, k_wildcard = False, k_qtype = 0, k_qclass = 0\<rparr>"

text \<open>
  The new state, the result and \<open>*out_slip\<close>; \<open>now_ms\<close> is the monotonic clock.  The log line of
  log-only is omitted.
\<close>

definition rrl_check_key ::
  "rrl_env \<Rightarrow> int \<Rightarrow> rrl_state \<Rightarrow> sockaddr option \<Rightarrow> rrl_key_t option \<Rightarrow> rate_limit_config_t option \<Rightarrow> rrl_state \<times> bool \<times> bool" where
  "rrl_check_key env now_ms st client_addr key cfg =
    (case (cfg, key, client_addr) of
       (Some cfg, Some key, Some addr) \<Rightarrow>
        if \<not> configured cfg then (st, True, False)
        else if addr = SA_OTHER then (st, True, False)
        else
          let rate = rrl_rate cfg (k_cls key) in
          if rate = 0 \<and> all_per_second cfg = 0 then (st, True, False)
          else if rrl_is_exempt env addr cfg then (st, True, False)
          else
            let window_sec = rrl_window cfg;
                (tab, allow, out_slip) =
                  rrl_limit (rrl_key_hash env addr rrl_all_key cfg) (all_per_second cfg) window_sec (rl_slip cfg) now_ms
                    (rrl_limit (rrl_key_hash env addr key cfg) rate window_sec (rl_slip cfg) now_ms
                      (rrl_tab st, True, False));
                st = rrl_count allow out_slip (st\<lparr>rrl_tab := tab\<rparr>)
            in if log_only cfg \<and> \<not> allow then (st, True, False) else (st, allow, out_slip)
     | _ \<Rightarrow> (st, True, False))"

definition rrl_class_key :: "rrl_response_class_t \<Rightarrow> rrl_key_t" where
  "rrl_class_key cls = \<lparr>k_cls = cls, k_name = None, k_wildcard = False, k_qtype = 0, k_qclass = 0\<rparr>"

definition rrl_check ::
  "rrl_env \<Rightarrow> int \<Rightarrow> rrl_state \<Rightarrow> sockaddr option \<Rightarrow> rrl_response_class_t \<Rightarrow> rate_limit_config_t option \<Rightarrow> rrl_state \<times> bool \<times> bool" where
  "rrl_check env now_ms st client_addr cls cfg = rrl_check_key env now_ms st client_addr (Some (rrl_class_key cls)) cfg"

definition rrl_bucket_empty :: "rrl_table \<Rightarrow> u64 \<Rightarrow> bool" where
  "rrl_bucket_empty tab hash = list_ex (\<lambda>i. key_hash (tab i) = hash \<and> tokens (tab i) \<le> 0) (probe_slots hash)"

definition rrl_key_exhausted ::
  "rrl_env \<Rightarrow> rrl_table \<Rightarrow> sockaddr option \<Rightarrow> rrl_key_t option \<Rightarrow> rate_limit_config_t option \<Rightarrow> bool" where
  "rrl_key_exhausted env tab client_addr key cfg =
    (case (cfg, key, client_addr) of
       (Some cfg, Some key, Some addr) \<Rightarrow>
        if \<not> configured cfg then False
        else if addr = SA_OTHER then False
        else
          let has_rate = (0 < rrl_rate cfg (k_cls key)) in
          if \<not> has_rate \<and> all_per_second cfg = 0 then False
          else if rrl_is_exempt env addr cfg then False
          else if has_rate \<and> rrl_bucket_empty tab (rrl_key_hash env addr key cfg) then True
          else if 0 < all_per_second cfg \<and> rrl_bucket_empty tab (rrl_key_hash env addr rrl_all_key cfg) then True
          else False
     | _ \<Rightarrow> False)"

definition rrl_is_client_exhausted :: "rrl_env \<Rightarrow> rrl_table \<Rightarrow> sockaddr option \<Rightarrow> rate_limit_config_t option \<Rightarrow> bool" where
  "rrl_is_client_exhausted env tab client_addr cfg =
     rrl_key_exhausted env tab client_addr (Some (rrl_class_key RRL_RESP_NOERROR)) cfg"

section \<open>The table invariant\<close>

text \<open>
  A bucket in use holds a token count between 0 and the largest \<open>int32_t\<close>, lies in a slot its
  hash probes, and is the only bucket of its hash.
\<close>

definition bucket_ok :: "nat \<Rightarrow> rrl_bucket_t \<Rightarrow> bool" where
  "bucket_ok i b \<longleftrightarrow>
    key_hash b \<noteq> 0 \<longrightarrow> 0 \<le> tokens b \<and> tokens b \<le> 0x7FFFFFFF \<and> i \<in> set (probe_slots (key_hash b))"

definition table_inv :: "rrl_table \<Rightarrow> bool" where
  "table_inv tab \<longleftrightarrow>
    (\<forall>i. bucket_ok i (tab i)) \<and>
    (\<forall>i j. key_hash (tab i) \<noteq> 0 \<longrightarrow> key_hash (tab i) = key_hash (tab j) \<longrightarrow> i = j)"

lemma find_Some_mem: "find P xs = Some x \<Longrightarrow> x \<in> set xs \<and> P x"
  by (induction xs) (auto split: if_splits)

lemma rrl_select_cases:
  assumes "rrl_select tab hash w now = Some i"
  shows "i \<in> set (probe_slots hash) \<and>
    (key_hash (tab i) = hash \<or>
     (\<forall>j \<in> set (probe_slots hash). key_hash (tab j) \<noteq> hash) \<and>
     (key_hash (tab i) = 0 \<or> int (unat w) * 1000 < now - last_refill_ms (tab i)))"
  using assms unfolding rrl_select_def
  by (auto split: option.splits dest!: find_Some_mem simp: find_None_iff)

lemma rrl_max_cap_le: "rrl_max_cap r w \<le> 0x7FFFFFFF" "int (rrl_max_cap r w) \<le> int (unat r) * int (unat w)"
  unfolding rrl_max_cap_def by (simp, metis min.cobounded1 of_nat_le_iff of_nat_mult)

lemma rrl_refill_key [simp]: "key_hash (rrl_refill b hash r w now) = hash"
  by (auto simp: rrl_refill_def Let_def)

lemma rrl_refill_tokens:
  assumes "key_hash b = hash \<Longrightarrow> 0 \<le> tokens b \<and> tokens b \<le> 0x7FFFFFFF"
  shows "0 \<le> tokens (rrl_refill b hash r w now) \<and> tokens (rrl_refill b hash r w now) \<le> 0x7FFFFFFF"
  using assms rrl_max_cap_le(1) [of r w] by (auto simp: rrl_refill_def Let_def)

text \<open>What a debit does to the table: at most one slot is written, with a bucket of the hash.\<close>

lemma rrl_debit_cases:
  assumes "rrl_debit tab hash r w slip now = (tab', res)"
  obtains (busy) "tab' = tab" "res = Busy"
  | (slot) i b where "rrl_select tab hash w now = Some i" "tab' = tab(i := b)" "key_hash b = hash"
      "last_refill_ms b = last_refill_ms (rrl_refill (tab i) hash r w now)"
      "tokens b = tokens (rrl_refill (tab i) hash r w now) - (if res = Allow then 1 else 0)"
      "res = Allow \<longleftrightarrow> 0 < tokens (rrl_refill (tab i) hash r w now)"
  using assms by (auto simp: rrl_debit_def Let_def split: option.splits if_splits)

lemma rrl_select_fresh:
  assumes "table_inv tab" "hash \<noteq> 0" "rrl_select tab hash w now = Some i" "key_hash (tab j) = hash"
  shows "i = j"
proof -
  have "j \<in> set (probe_slots hash)"
    using assms(1,2,4) unfolding table_inv_def bucket_ok_def by metis
  then have "key_hash (tab i) = hash" using rrl_select_cases [OF assms(3)] assms(4) by blast
  then show ?thesis using assms(1,2,4) unfolding table_inv_def by metis
qed

lemma table_inv_debit:
  assumes inv: "table_inv tab" and h: "hash \<noteq> 0" and d: "rrl_debit tab hash r w slip now = (tab', res)"
  shows "table_inv tab'"
  using d
proof (cases rule: rrl_debit_cases)
  case busy
  then show ?thesis using inv by simp
next
  case (slot i b)
  have ok: "bucket_ok j (tab j)" for j using inv by (simp add: table_inv_def)
  have uniq: "j = k" if "key_hash (tab j) \<noteq> 0" "key_hash (tab j) = key_hash (tab k)" for j k
    using inv that unfolding table_inv_def by blast
  have "0 \<le> tokens (tab i) \<and> tokens (tab i) \<le> 0x7FFFFFFF" if "key_hash (tab i) = hash"
    using ok [of i] h that by (simp add: bucket_ok_def)
  then have "0 \<le> tokens (rrl_refill (tab i) hash r w now) \<and> tokens (rrl_refill (tab i) hash r w now) \<le> 0x7FFFFFFF"
    by (rule rrl_refill_tokens)
  moreover have "i \<in> set (probe_slots hash)" using rrl_select_cases [OF slot(1)] by (rule conjunct1)
  ultimately have "bucket_ok i b" using slot(3,5,6) unfolding bucket_ok_def by simp
  moreover have "j = i" if "key_hash (tab j) = hash" for j
    using rrl_select_fresh [OF inv h slot(1) that] by (rule sym)
  ultimately show ?thesis
    using ok uniq h slot(2,3) unfolding table_inv_def by (metis fun_upd_apply)
qed

lemma rrl_key_hash_nonzero [simp]: "rrl_key_hash env a k cfg \<noteq> 0"
  by (simp add: rrl_key_hash_def Let_def)

section \<open>The rate\<close>

text \<open>
  Credit in thousandths of a token: what the bucket of \<open>h\<close> holds and may still be refilled with
  until \<open>now\<close> is at most \<open>p\<close>, its last refill is not in the future, and a full bucket is at most \<open>p\<close> when \<open>h\<close> has none.
\<close>

definition credit_le :: "u64 \<Rightarrow> u32 \<Rightarrow> u32 \<Rightarrow> int \<Rightarrow> int \<Rightarrow> rrl_table \<Rightarrow> bool" where
  "credit_le h r w now p tab \<longleftrightarrow>
    (\<forall>i. key_hash (tab i) = h \<longrightarrow> last_refill_ms (tab i) \<le> now \<and> 1000 * tokens (tab i) + (now - last_refill_ms (tab i)) * int (unat r) \<le> p) \<and>
    ((\<forall>i. key_hash (tab i) \<noteq> h) \<longrightarrow> 1000 * int (rrl_max_cap r w) \<le> p)"

lemma credit_le_time:
  assumes "credit_le h r w now p tab" "now \<le> now'"
  shows "credit_le h r w now' (p + (now' - now) * int (unat r)) tab"
proof -
  have "0 \<le> (now' - now) * int (unat r)" using assms(2) by simp
  then have "a + (now - b) * int (unat r) \<le> p \<Longrightarrow> a + (now' - b) * int (unat r) \<le> p + (now' - now) * int (unat r)" for a b
    by (simp add: algebra_simps)
  moreover have "a \<le> p \<Longrightarrow> a \<le> p + (now' - now) * int (unat r)" for a
    using \<open>0 \<le> _\<close> by simp
  moreover have "a \<le> now \<Longrightarrow> a \<le> now'" for a using assms(2) by simp
  ultimately show ?thesis using assms(1) unfolding credit_le_def by blast
qed

lemma credit_le_nonneg:
  assumes inv: "table_inv tab" and h: "h \<noteq> 0" and c: "credit_le h r w now p tab"
  shows "0 \<le> p"
proof (cases "\<exists>i. key_hash (tab i) = h")
  case True
  then obtain i where i: "key_hash (tab i) = h" by blast
  have "0 \<le> tokens (tab i)" using inv h i unfolding table_inv_def bucket_ok_def by metis
  moreover have "0 \<le> (now - last_refill_ms (tab i)) * int (unat r)"
    and "1000 * tokens (tab i) + (now - last_refill_ms (tab i)) * int (unat r) \<le> p"
    using c i unfolding credit_le_def by auto
  ultimately show ?thesis by linarith
next
  case False
  then have "1000 * int (rrl_max_cap r w) \<le> p" using c unfolding credit_le_def by blast
  then show ?thesis by simp
qed

lemma add_t_le:
  assumes "0 < e"
  shows "1000 * uint (((word_of_int e :: u64) * ucast (r :: u32)) div 1000) \<le> e * int (unat r)"
proof -
  have "uint ((word_of_int e :: u64) * ucast r) = uint (word_of_int e :: u64) * uint r mod 2 ^ 64"
    by (simp add: uint_word_ariths unsigned_ucast_eq take_bit_eq_mod mod_mult_right_eq)
  also have "\<dots> \<le> uint (word_of_int e :: u64) * uint r" by (simp add: zmod_le_nonneg_dividend)
  also have "\<dots> \<le> e * uint r"
    using assms by (intro mult_right_mono) (simp_all add: uint_word_of_int zmod_le_nonneg_dividend)
  finally show ?thesis by (simp add: uint_div)
qed

lemma rrl_refill_credit:
  assumes "key_hash b = h" "0 \<le> tokens b"
  shows "1000 * tokens (rrl_refill b h r w now) + (now - last_refill_ms (rrl_refill b h r w now)) * int (unat r)
         \<le> 1000 * tokens b + (now - last_refill_ms b) * int (unat r)"
proof (cases "0 < now - last_refill_ms b \<and> 0 < uint (((word_of_int (now - last_refill_ms b) :: u64) * ucast r) div 1000)")
  case True
  then have "tokens (rrl_refill b h r w now) \<le>
      tokens b + uint (((word_of_int (now - last_refill_ms b) :: u64) * ucast r) div 1000)"
    and "last_refill_ms (rrl_refill b h r w now) = now"
    using assms by (simp_all add: rrl_refill_def Let_def)
  then show ?thesis using add_t_le [of "now - last_refill_ms b" r] True by simp
next
  case False
  then have "rrl_refill b h r w now = b" using assms(1) by (auto simp: rrl_refill_def Let_def)
  then show ?thesis by simp
qed

lemma rrl_refill_new:
  assumes "key_hash b \<noteq> h"
  shows "tokens (rrl_refill b h r w now) = int (rrl_max_cap r w)" "last_refill_ms (rrl_refill b h r w now) = now"
  using assms by (simp_all add: rrl_refill_def Let_def)

lemma credit_le_own:
  assumes inv: "table_inv tab" and h: "h \<noteq> 0" and c: "credit_le h r w now p tab"
    and d: "rrl_debit tab h r w slip now = (tab', res)"
  shows "credit_le h r w now (p - (if res = Allow then 1000 else 0)) tab'"
  using d
proof (cases rule: rrl_debit_cases)
  case busy
  then show ?thesis using c by simp
next
  case (slot i b)
  have only: "j = i" if "key_hash (tab j) = h" for j
    using rrl_select_fresh [OF inv h slot(1) that] by (rule sym)
  have "last_refill_ms (rrl_refill (tab i) h r w now) \<le> now"
  proof (cases "key_hash (tab i) = h")
    case True
    then show ?thesis using c unfolding credit_le_def by (simp add: rrl_refill_def Let_def)
  qed (simp add: rrl_refill_new)
  moreover have "1000 * tokens (rrl_refill (tab i) h r w now) +
      (now - last_refill_ms (rrl_refill (tab i) h r w now)) * int (unat r) \<le> p"
  proof (cases "key_hash (tab i) = h")
    case True
    then have "0 \<le> tokens (tab i)" using inv h unfolding table_inv_def bucket_ok_def by metis
    then show ?thesis using rrl_refill_credit [of "tab i" h r w now] True c unfolding credit_le_def by force
  next
    case False
    then have "1000 * int (rrl_max_cap r w) \<le> p" using only c unfolding credit_le_def by blast
    then show ?thesis using False by (simp add: rrl_refill_new)
  qed
  ultimately show ?thesis using only slot(2-5) unfolding credit_le_def by auto
qed

lemma credit_le_other:
  assumes inv: "table_inv tab" and h: "h \<noteq> 0" "hash \<noteq> h" and c: "credit_le h r w now p tab"
    and d: "rrl_debit tab hash rate w slip now = (tab', res)"
  shows "credit_le h r w now p tab'"
  using d
proof (cases rule: rrl_debit_cases)
  case busy
  then show ?thesis using c by simp
next
  case (slot i b)
  show ?thesis
  proof (cases "key_hash (tab i) = h")
    case True
    then have exp: "int (unat w) * 1000 \<le> now - last_refill_ms (tab i)"
      using rrl_select_cases [OF slot(1)] h by auto
    have only: "j = i" if "key_hash (tab j) = h" for j
      using inv h(1) that True unfolding table_inv_def by metis
    have "0 \<le> tokens (tab i)" using inv h(1) True unfolding table_inv_def bucket_ok_def by metis
    moreover have "1000 * int (rrl_max_cap r w) \<le> (now - last_refill_ms (tab i)) * int (unat r)"
      using mult_right_mono [OF exp, of "int (unat r)"] rrl_max_cap_le(2) [of r w] by (simp add: algebra_simps)
    moreover have "1000 * tokens (tab i) + (now - last_refill_ms (tab i)) * int (unat r) \<le> p"
      using c True unfolding credit_le_def by blast
    ultimately show ?thesis using only h(2) slot(2,3) unfolding credit_le_def by auto
  next
    case False
    then show ?thesis using c h(2) slot(2,3) unfolding credit_le_def by (metis fun_upd_apply)
  qed
qed

text \<open>A sequence of debits: hash, rate, slip and time of each.\<close>

type_synonym rrl_event = "u64 \<times> u32 \<times> u32 \<times> int"

fun rrl_run :: "u32 \<Rightarrow> rrl_table \<Rightarrow> rrl_event list \<Rightarrow> rrl_debit_result list" where
  "rrl_run w tab [] = []"
| "rrl_run w tab ((hash, rate, slip, now) # es) =
    (let (tab', res) = rrl_debit tab hash rate w slip now in res # rrl_run w tab' es)"

definition allowed :: "u64 \<Rightarrow> u32 \<Rightarrow> rrl_table \<Rightarrow> rrl_event list \<Rightarrow> nat" where
  "allowed h w tab es = length (filter (\<lambda>(e, res). fst e = h \<and> res = Allow) (zip es (rrl_run w tab es)))"

definition event_time :: "rrl_event \<Rightarrow> int" where "event_time e = snd (snd (snd e))"

lemma rrl_run_bound:
  assumes "table_inv tab" "h \<noteq> 0" "credit_le h r w now p tab"
    "sorted (now # map event_time es)" "\<forall>e \<in> set es. fst e \<noteq> 0 \<and> (fst e = h \<longrightarrow> fst (snd e) = r)"
  shows "1000 * int (allowed h w tab es) \<le> p + (last (now # map event_time es) - now) * int (unat r)"
  using assms
proof (induction es arbitrary: tab now p)
  case Nil
  then show ?case using credit_le_nonneg by (simp add: allowed_def)
next
  case (Cons e es)
  obtain hash rate slip t where e: "e = (hash, rate, slip, t)" by (cases e)
  obtain tab' res where d: "rrl_debit tab hash rate w slip t = (tab', res)" by fastforce
  let ?p = "p + (t - now) * int (unat r)" and ?c = "if hash = h \<and> res = Allow then 1000 else 0 :: int"
  have t: "now \<le> t" and h: "hash \<noteq> 0" "hash = h \<Longrightarrow> rate = r" using Cons.prems e by (auto simp: event_time_def)
  have c: "credit_le h r w t ?p tab" using credit_le_time [OF Cons.prems(3) t] .
  have c': "credit_le h r w t (?p - ?c) tab'"
  proof (cases "hash = h")
    case True
    then show ?thesis using credit_le_own [OF Cons.prems(1,2) c, of slip tab' res] d h by simp
  next
    case False
    then show ?thesis using credit_le_other [OF Cons.prems(1,2) False c d] by simp
  qed
  have inv: "table_inv tab'" using table_inv_debit [OF Cons.prems(1) h(1) d] .
  have "allowed h w tab (e # es) = (if hash = h \<and> res = Allow then 1 else 0) + allowed h w tab' es"
    by (simp add: allowed_def e d)
  moreover have "1000 * int (allowed h w tab' es) \<le> ?p - ?c + (last (t # map event_time es) - t) * int (unat r)"
    using Cons.prems(4,5) by (intro Cons.IH inv c' \<open>h \<noteq> 0\<close>) (simp_all add: e event_time_def)
  moreover have "last (now # map event_time (e # es)) = last (t # map event_time es)" by (simp add: e event_time_def)
  ultimately show ?case by (auto simp: algebra_simps)
qed

section \<open>Reachable tables\<close>

text \<open>A table changes only by the debits of \<open>rrl_check_key\<close>, each for the hash of some key.\<close>

definition rrl_step :: "rrl_table \<Rightarrow> rrl_table \<Rightarrow> bool" where
  "rrl_step tab tab' \<longleftrightarrow>
    (\<exists>env now_ms st addr key cfg. rrl_tab st = tab \<and> tab' = rrl_tab (fst (rrl_check_key env now_ms st addr key cfg)))"

lemma rrl_limit_tab:
  assumes "table_inv tab" "hash \<noteq> 0" "rrl_limit hash r w slip now (tab, a) = (tab', a')"
  shows "table_inv tab'"
  using assms by (cases a) (auto simp: rrl_limit_def split: prod.splits rrl_debit_result.splits if_splits intro: table_inv_debit)

lemma rrl_count_tab [simp]: "rrl_tab (rrl_count a s st) = rrl_tab st"
  by (simp add: rrl_count_def)

text \<open>A call of \<open>rrl_check_key\<close> either stops before the table or applies the two limits.\<close>

lemma rrl_check_key_cases:
  assumes "rrl_check_key env now_ms st addr key cfg = (st', allow, slip)"
  obtains (pass) "st' = st" "allow" "\<not> slip"
  | (limit) c a k tab1 a1 tab2 al sl where
      "cfg = Some c" "addr = Some a" "key = Some k" "configured c" "\<not> rrl_is_exempt env a c" "a \<noteq> SA_OTHER"
      "rrl_limit (rrl_key_hash env a k c) (rrl_rate c (k_cls k)) (rrl_window c) (rl_slip c) now_ms (rrl_tab st, True, False)
         = (tab1, a1)"
      "rrl_limit (rrl_key_hash env a rrl_all_key c) (all_per_second c) (rrl_window c) (rl_slip c) now_ms (tab1, a1)
         = (tab2, al, sl)"
      "st' = rrl_count al sl (st\<lparr>rrl_tab := tab2\<rparr>)"
      "allow = (al \<or> log_only c)" "slip = (sl \<and> \<not> (log_only c \<and> \<not> al))"
proof (cases "\<exists>c k a. cfg = Some c \<and> key = Some k \<and> addr = Some a")
  case False
  then have "rrl_check_key env now_ms st addr key cfg = (st, True, False)"
    by (auto simp: rrl_check_key_def split: option.splits)
  then show thesis using assms by (intro pass) simp_all
next
  case True
  then obtain c k a where [simp]: "cfg = Some c" "key = Some k" "addr = Some a" by blast
  let ?stop = "\<not> configured c \<or> a = SA_OTHER \<or> rrl_rate c (k_cls k) = 0 \<and> all_per_second c = 0 \<or> rrl_is_exempt env a c"
  show thesis
  proof (cases ?stop)
    case True
    then have "rrl_check_key env now_ms st addr key cfg = (st, True, False)"
      by (simp only: rrl_check_key_def Let_def) auto
    then show thesis using assms by (intro pass) simp_all
  next
    case False
    obtain tab1 a1 where l1: "rrl_limit (rrl_key_hash env a k c) (rrl_rate c (k_cls k)) (rrl_window c) (rl_slip c) now_ms
        (rrl_tab st, True, False) = (tab1, a1)" by (metis prod.exhaust)
    obtain tab2 al sl where l2: "rrl_limit (rrl_key_hash env a rrl_all_key c) (all_per_second c) (rrl_window c) (rl_slip c) now_ms
        (tab1, a1) = (tab2, al, sl)" by (metis prod.exhaust)
    have "rrl_check_key env now_ms st addr key cfg =
        (rrl_count al sl (st\<lparr>rrl_tab := tab2\<rparr>), al \<or> log_only c, sl \<and> \<not> (log_only c \<and> \<not> al))"
      using False by (auto simp: rrl_check_key_def Let_def l1 l2)
    then show thesis using False assms by (intro limit [OF _ _ _ _ _ _ l1 l2]) simp_all
  qed
qed

lemma rrl_check_key_tab:
  assumes "table_inv (rrl_tab st)"
  shows "table_inv (rrl_tab (fst (rrl_check_key env now_ms st addr key cfg)))"
proof -
  obtain st' allow slip where c: "rrl_check_key env now_ms st addr key cfg = (st', allow, slip)" by (metis prod.exhaust)
  then show ?thesis
  proof (cases rule: rrl_check_key_cases)
    case pass
    then show ?thesis using assms c by simp
  next
    case (limit cf a k tab1 a1 tab2 al sl)
    have "table_inv tab1" using rrl_limit_tab [OF assms _ limit(7)] by simp
    then have "table_inv tab2" using rrl_limit_tab [OF _ _ limit(8)] by simp
    then show ?thesis using c limit(9) by simp
  qed
qed

lemma table_inv_zero: "table_inv rrl_zero"
  by (simp add: table_inv_def bucket_ok_def rrl_zero_def)

interpretation rrl_sys: invariant_system "\<lambda>tab. tab = rrl_zero" rrl_step table_inv
  by unfold_locales (auto simp: table_inv_zero rrl_step_def rrl_check_key_tab)

lemma rrl_limit_slip:
  assumes "rrl_limit hash r w slip now (tab, a) = (tab', a')" "snd a \<longrightarrow> \<not> fst a"
  shows "snd a' \<longrightarrow> \<not> fst a'"
  using assms by (cases a) (auto simp: rrl_limit_def split: prod.splits rrl_debit_result.splits if_splits)

section \<open>Clients of a key\<close>

lemma masked_addr_mask_octet:
  "masked_addr p a = map (\<lambda>i. a ! i AND mask_octet (int p - int i * 8)) [0..<length a]"
proof -
  have "(if 8 \<le> b then 0xFF else push_bit (8 - b) 0xFF :: u8) = mask_octet (int b)" for b
    by (auto simp: mask_octet_def nat_diff_distrib')
  moreover have "mask_octet (int (if i * 8 < p then p - i * 8 else 0)) = mask_octet (int p - int i * 8)" for i
    by (cases "i * 8 < p") (simp_all add: mask_octet_le_0 of_nat_diff)
  ultimately show ?thesis unfolding masked_addr_def Let_def by presburger
qed

lemma masked_addr_iff:
  assumes "length a = length b"
  shows "masked_addr p a = masked_addr p b \<longleftrightarrow> same_prefix p a b"
proof -
  have "masked_addr p a = masked_addr p b \<longleftrightarrow> octets_agree (int p) a b"
    unfolding masked_addr_mask_octet octets_agree_def assms by (simp add: Ball_def)
  then show ?thesis using octets_agree_iff [OF assms] by simp
qed

lemma length_masked_addr [simp]: "length (masked_addr p a) = length a"
  by (simp add: masked_addr_def Let_def)

lemma rrl_key_octets_client:
  assumes "length (client_octets env a cfg) = length (client_octets env b cfg)"
  shows "rrl_key_octets env a key cfg = rrl_key_octets env b key cfg \<longleftrightarrow> client_octets env a cfg = client_octets env b cfg"
  using assms by (cases "k_name key"; cases "k_cls key") (simp_all add: rrl_key_octets_def Let_def)

section \<open>An example configuration\<close>

text \<open>A system without textual addresses, and one error response per second in a window of one second.\<close>

definition rrl_demo_env :: rrl_env where
  "rrl_demo_env = \<lparr>pton4 = (\<lambda>_. None), pton6 = (\<lambda>_. None), ntop4 = (\<lambda>_. []), ntop6 = (\<lambda>_. []),
     af_octet4 = 2, af_octet6 = 28, rrl_hash_key = (1, 2)\<rparr>"

definition rrl_demo_cfg :: rate_limit_config_t where
  "rrl_demo_cfg = \<lparr>configured = True, early_drop = False, log_only = False, responses_per_second = 0,
     nodata_per_second = 0, nodata_per_second_set = False, nxdomains_per_second = 0, errors_per_second = 1,
     referrals_per_second = 0, referrals_per_second_set = False, all_per_second = 0,
     ipv4_prefix_length = 24, ipv6_prefix_length = 56, ipv4_prefix_length_set = True,
     ipv6_prefix_length_set = False, window_seconds = 1, rl_slip = 1, exempt_clients = None,
     exempt_clients_parsed = None, exempt_clients_count = 0\<rparr>"

section \<open>Properties\<close>

text \<open>
  C5.  The rate limit.  Start from the cleared table and take any sequence of debits in the order
  of the clock, for any hashes.  The responses that the bucket of \<open>h\<close> lets through are at most one
  full bucket (\<open>rate * window\<close> tokens) plus \<open>rate\<close> tokens for every second that passed, even
  when other hashes take over expired buckets in between.
\<close>

theorem rrl_rate_bound:
  assumes "h \<noteq> 0" "es \<noteq> []" "sorted (map event_time es)"
    and "\<forall>e \<in> set es. fst e \<noteq> 0 \<and> (fst e = h \<longrightarrow> fst (snd e) = r)"
  shows "1000 * int (allowed h w rrl_zero es)
         \<le> 1000 * int (rrl_max_cap r w) + (event_time (last es) - event_time (hd es)) * int (unat r)"
proof -
  obtain e es' where es: "es = e # es'" using assms(2) by (cases es) auto
  have "credit_le h r w (event_time e) (1000 * int (rrl_max_cap r w)) rrl_zero"
    using assms(1) by (simp add: credit_le_def rrl_zero_def)
  moreover have "sorted (event_time e # map event_time es)" using assms(3) es by simp
  ultimately have "1000 * int (allowed h w rrl_zero es) \<le> 1000 * int (rrl_max_cap r w) +
      (last (event_time e # map event_time es) - event_time e) * int (unat r)"
    by (rule rrl_run_bound [OF table_inv_zero assms(1) _ _ assms(4)])
  moreover have "last (event_time e # map event_time es) = event_time (last es)" using es by (simp add: last_map)
  ultimately show ?thesis using es by simp
qed

theorem rrl_rate_bound_witness:
  "1000 * int (allowed 7 1 rrl_zero [(7, 2, 0, 0), (7, 2, 0, 0), (9, 5, 1, 20), (7, 2, 0, 500)])
     \<le> 1000 * int (rrl_max_cap 2 1) + (500 - 0) * int (unat (2 :: u32))"
  using rrl_rate_bound [of 7 "[(7, 2, 0, 0), (7, 2, 0, 0), (9, 5, 1, 20), (7, 2, 0, 500)]" 2 1]
  by (simp add: event_time_def)







end
