(* ===== verification/Park.thy ===== *)
theory Park
  imports Prelude
begin

text \<open>
  Parked queries (\<^verbatim>\<open>src/dns_park.c\<close>, \<^verbatim>\<open>src/dns_park.h\<close>): the table in which a worker keeps the
  queries that wait for a zone to be fetched.  A table is owned by one thread, so an
  operation is a function from tables to tables.  \<open>udp_ipc_t\<close> is only copied: it is the type parameter
  \<open>'ipc\<close>.  The pointers \<open>e\<close> and \<open>free_idx\<close> are arrays of \<open>cap\<close> elements, empty for NULL.
\<close>

section \<open>Keys\<close>

definition PARK_ZONE_MAX :: nat where "PARK_ZONE_MAX = 255"
definition PARK_VIEW_MAX :: nat where "PARK_VIEW_MAX = 63"
definition PARK_UDP_MAX :: nat where "PARK_UDP_MAX = 4096"

definition key_fits :: "bytes option \<Rightarrow> bytes option \<Rightarrow> bool" where
  "key_fits view zone =
    (let vl = (case view of Some v \<Rightarrow> length v | None \<Rightarrow> 0);
         zl = (case zone of Some z \<Rightarrow> length z | None \<Rightarrow> 0)
     in 0 < vl \<and> vl \<le> PARK_VIEW_MAX \<and> 0 < zl \<and> zl \<le> PARK_ZONE_MAX)"

section \<open>The table\<close>

datatype park_state_t = PARK_FREE | PARK_WAIT | PARK_READY | PARK_TIMEOUT
datatype park_kind_t = PARK_NONE | PARK_UDP | PARK_TCP

text \<open>The union: its descriptor and the member that was written last; \<open>U_ZERO\<close> is zeroed memory.\<close>

datatype 'ipc park_union = U_ZERO | U_UDP int 'ipc bytes | U_TCP int u32 u32

record 'ipc park_entry_t =
  pstate :: park_state_t
  pkind :: park_kind_t
  udp_len :: u16
  pgen :: u32
  deadline_ms :: int
  pview :: bytes
  pzone :: bytes
  punion :: "'ipc park_union"

definition INT64_MAX :: int where "INT64_MAX = 2 ^ 63 - 1"

record 'ipc park_table_t =
  ents :: "'ipc park_entry_t list"
  pcap :: nat
  free_idx :: "nat list"
  nfree :: nat
  nwait :: nat
  nready :: nat
  min_deadline_ms :: int
  next_gen :: u32
  n_parked :: u64
  n_full :: u64
  n_toobig :: u64
  n_timeout :: u64
  n_woken :: u64
  n_failed :: u64
  n_cancelled :: u64

definition zero_entry :: "'ipc park_entry_t" where
  "zero_entry = \<lparr>pstate = PARK_FREE, pkind = PARK_NONE, udp_len = 0, pgen = 0, deadline_ms = 0, pview = [], pzone = [], punion = U_ZERO\<rparr>"

definition zero_table :: "'ipc park_table_t" where
  "zero_table = \<lparr>ents = [], pcap = 0, free_idx = [], nfree = 0, nwait = 0, nready = 0, min_deadline_ms = 0, next_gen = 0,
     n_parked = 0, n_full = 0, n_toobig = 0, n_timeout = 0, n_woken = 0, n_failed = 0, n_cancelled = 0\<rparr>"

text \<open>\<open>mem\<close>: the two allocations succeed.\<close>

definition park_init :: "nat \<Rightarrow> bool \<Rightarrow> 'ipc park_table_t \<times> bool" where
  "park_init cap mem =
    (if cap = 0 \<or> 2 ^ 20 < cap then (zero_table, False)
     else if \<not> mem then (zero_table, False)
     else (zero_table\<lparr>ents := replicate cap zero_entry, pcap := cap, free_idx := map (\<lambda>i. cap - 1 - i) [0..<cap],
             nfree := cap, min_deadline_ms := INT64_MAX, next_gen := 1\<rparr>, True))"

definition park_free :: "'ipc park_table_t \<Rightarrow> 'ipc park_table_t" where
  "park_free t = zero_table"

text \<open>The table and the index of the entry; the union of the entry is still the old one.\<close>

definition park_take ::
  "'ipc park_table_t \<Rightarrow> int \<Rightarrow> u32 \<Rightarrow> bytes option \<Rightarrow> bytes option \<Rightarrow> park_kind_t \<Rightarrow> 'ipc park_table_t \<times> nat option" where
  "park_take t now_ms timeout_ms view zone kind =
    (if ents t = [] \<or> \<not> key_fits view zone then (t, None)
     else if nfree t = 0 then (t\<lparr>n_full := n_full t + 1\<rparr>, None)
     else
       let nf = nfree t - 1;
           idx = free_idx t ! nf;
           gen = next_gen t;
           ng = next_gen t + 1;
           ng = (if ng = 0 then 1 else ng);
           d = now_ms + int (unat timeout_ms);
           e = \<lparr>pstate = PARK_WAIT, pkind = kind, udp_len = 0, pgen = gen, deadline_ms = d,
                pview = the view, pzone = the zone, punion = punion (ents t ! idx)\<rparr>
       in (t\<lparr>nfree := nf, next_gen := ng, ents := (ents t)[idx := e],
             min_deadline_ms := (if d < min_deadline_ms t then d else min_deadline_ms t),
             nwait := nwait t + 1, n_parked := n_parked t + 1\<rparr>, Some idx))"

definition park_udp ::
  "'ipc park_table_t \<Rightarrow> int \<Rightarrow> u32 \<Rightarrow> bytes option \<Rightarrow> bytes option \<Rightarrow> int \<Rightarrow> 'ipc \<Rightarrow> bytes \<Rightarrow> 'ipc park_table_t \<times> nat option" where
  "park_udp t now_ms timeout_ms view zone fd ipc payload =
    (if PARK_UDP_MAX < length payload then (t\<lparr>n_toobig := n_toobig t + 1\<rparr>, None)
     else case park_take t now_ms timeout_ms view zone PARK_UDP of
            (t, None) \<Rightarrow> (t, None)
          | (t, Some idx) \<Rightarrow>
              (t\<lparr>ents := (ents t)[idx := (ents t ! idx)\<lparr>udp_len := word_of_nat (length payload), punion := U_UDP fd ipc payload\<rparr>]\<rparr>,
               Some idx))"

definition park_tcp ::
  "'ipc park_table_t \<Rightarrow> int \<Rightarrow> u32 \<Rightarrow> bytes option \<Rightarrow> bytes option \<Rightarrow> int \<Rightarrow> u32 \<Rightarrow> u32 \<Rightarrow> 'ipc park_table_t \<times> nat option" where
  "park_tcp t now_ms timeout_ms view zone fd ctx_idx ctx_gen =
    (case park_take t now_ms timeout_ms view zone PARK_TCP of
       (t, None) \<Rightarrow> (t, None)
     | (t, Some idx) \<Rightarrow>
         (t\<lparr>ents := (ents t)[idx := (ents t ! idx)\<lparr>punion := U_TCP fd ctx_idx ctx_gen\<rparr>]\<rparr>, Some idx))"

definition entry_is :: "bytes \<Rightarrow> bytes \<Rightarrow> 'ipc park_entry_t \<Rightarrow> bool" where
  "entry_is view zone e = (length (pview e) = length view \<and> length (pzone e) = length zone \<and> pzone e = zone \<and> pview e = view)"

text \<open>The loop looks at waiting entries only and stops when it saw \<open>left\<close> of them.\<close>

fun has_wait_loop :: "bytes \<Rightarrow> bytes \<Rightarrow> nat \<Rightarrow> 'ipc park_entry_t list \<Rightarrow> bool" where
  "has_wait_loop view zone left [] = False"
| "has_wait_loop view zone 0 (e # es) = False"
| "has_wait_loop view zone (Suc left) (e # es) =
    (if pstate e \<noteq> PARK_WAIT then has_wait_loop view zone (Suc left) es
     else if entry_is view zone e then True
     else has_wait_loop view zone left es)"

definition park_has_wait :: "'ipc park_table_t \<Rightarrow> bytes option \<Rightarrow> bytes option \<Rightarrow> bool" where
  "park_has_wait t view zone =
    (if ents t = [] \<or> nwait t = 0 \<or> \<not> key_fits view zone then False
     else has_wait_loop (the view) (the zone) (nwait t) (ents t))"

definition park_get :: "'ipc park_table_t \<Rightarrow> int \<Rightarrow> u32 \<Rightarrow> 'ipc park_entry_t option" where
  "park_get t idx gen =
    (if ents t = [] \<or> idx < 0 \<or> int (pcap t) \<le> idx then None
     else let e = ents t ! nat idx in if pstate e \<noteq> PARK_FREE \<and> pgen e = gen then Some e else None)"

text \<open>
  The loop that \<open>park_wake\<close>, \<open>park_fail\<close> and \<open>park_wake_all\<close> share: waiting entries that satisfy \<open>p\<close>
  go to state \<open>s\<close>, until \<open>left\<close> waiting entries were seen; the entries and how many changed.
\<close>

fun mark_loop ::
  "('ipc park_entry_t \<Rightarrow> bool) \<Rightarrow> park_state_t \<Rightarrow> nat \<Rightarrow> 'ipc park_entry_t list \<Rightarrow> 'ipc park_entry_t list \<times> nat" where
  "mark_loop p s left [] = ([], 0)"
| "mark_loop p s 0 (e # es) = (e # es, 0)"
| "mark_loop p s (Suc left) (e # es) =
    (if pstate e \<noteq> PARK_WAIT then (let (r, n) = mark_loop p s (Suc left) es in (e # r, n))
     else let (r, n) = mark_loop p s left es in
          if p e then (e\<lparr>pstate := s\<rparr> # r, n + 1) else (e # r, n))"

definition park_wake :: "'ipc park_table_t \<Rightarrow> bytes option \<Rightarrow> bytes option \<Rightarrow> 'ipc park_table_t \<times> nat" where
  "park_wake t view zone =
    (if ents t = [] \<or> nwait t = 0 \<or> \<not> key_fits view zone then (t, 0)
     else let (es, n) = mark_loop (entry_is (the view) (the zone)) PARK_READY (nwait t) (ents t)
          in (t\<lparr>ents := es, nwait := nwait t - n, nready := nready t + n, n_woken := n_woken t + word_of_nat n\<rparr>, n))"

definition park_fail :: "'ipc park_table_t \<Rightarrow> bytes option \<Rightarrow> bytes option \<Rightarrow> 'ipc park_table_t \<times> nat" where
  "park_fail t view zone =
    (if ents t = [] \<or> nwait t = 0 \<or> \<not> key_fits view zone then (t, 0)
     else let (es, n) = mark_loop (entry_is (the view) (the zone)) PARK_TIMEOUT (nwait t) (ents t)
          in (t\<lparr>ents := es, nwait := nwait t - n, nready := nready t + n, n_failed := n_failed t + word_of_nat n\<rparr>, n))"

definition park_wake_all :: "'ipc park_table_t \<Rightarrow> 'ipc park_table_t \<times> nat" where
  "park_wake_all t =
    (if ents t = [] \<or> nwait t = 0 then (t, 0)
     else let (es, n) = mark_loop (\<lambda>_. True) PARK_READY (nwait t) (ents t)
          in (t\<lparr>ents := es, nwait := nwait t - n, nready := nready t + n, n_woken := n_woken t + word_of_nat n\<rparr>, n))"

text \<open>The loop of \<open>park_expire\<close>: the entries, how many expired, and the smallest deadline left.\<close>

fun expire_loop :: "int \<Rightarrow> nat \<Rightarrow> int \<Rightarrow> 'ipc park_entry_t list \<Rightarrow> 'ipc park_entry_t list \<times> nat \<times> int" where
  "expire_loop now_ms left m [] = ([], 0, m)"
| "expire_loop now_ms 0 m (e # es) = (e # es, 0, m)"
| "expire_loop now_ms (Suc left) m (e # es) =
    (if pstate e \<noteq> PARK_WAIT then (let (r, n, m) = expire_loop now_ms (Suc left) m es in (e # r, n, m))
     else if deadline_ms e \<le> now_ms then
       (let (r, n, m) = expire_loop now_ms left m es in (e\<lparr>pstate := PARK_TIMEOUT\<rparr> # r, n + 1, m))
     else
       (let (r, n, m) = expire_loop now_ms left (if deadline_ms e < m then deadline_ms e else m) es in (e # r, n, m)))"

definition park_expire :: "'ipc park_table_t \<Rightarrow> int \<Rightarrow> 'ipc park_table_t \<times> nat" where
  "park_expire t now_ms =
    (if ents t = [] \<or> nwait t = 0 \<or> now_ms < min_deadline_ms t then (t, 0)
     else let (es, n, m) = expire_loop now_ms (nwait t) INT64_MAX (ents t)
          in (t\<lparr>ents := es, nwait := nwait t - n, nready := nready t + n, n_timeout := n_timeout t + word_of_nat n,
                min_deadline_ms := m\<rparr>, n))"

text \<open>The index of the entry (\<open>None\<close> is NULL) and the new cursor.\<close>

definition park_next_done :: "'ipc park_table_t \<Rightarrow> nat \<Rightarrow> nat option \<times> nat" where
  "park_next_done t cursor =
    (if ents t = [] \<or> nready t = 0 then (None, cursor)
     else case find (\<lambda>i. pstate (ents t ! i) = PARK_READY \<or> pstate (ents t ! i) = PARK_TIMEOUT) [cursor..<pcap t] of
            Some i \<Rightarrow> (Some i, i + 1)
          | None \<Rightarrow> (None, pcap t))"

text \<open>An entry is given by its index in the array.\<close>

definition park_release :: "'ipc park_table_t \<Rightarrow> nat \<Rightarrow> 'ipc park_table_t" where
  "park_release t i =
    (if ents t = [] \<or> pcap t \<le> i \<or> pstate (ents t ! i) = PARK_FREE then t
     else
       let t = (if pstate (ents t ! i) = PARK_WAIT then
                  (let t = t\<lparr>nwait := nwait t - 1\<rparr> in if nwait t = 0 then t\<lparr>min_deadline_ms := INT64_MAX\<rparr> else t)
                else t\<lparr>nready := nready t - 1\<rparr>)
       in t\<lparr>ents := (ents t)[i := (ents t ! i)\<lparr>pstate := PARK_FREE\<rparr>],
            free_idx := (free_idx t)[nfree t := i], nfree := nfree t + 1\<rparr>)"

definition tcp_entry :: "u32 \<Rightarrow> u32 \<Rightarrow> 'ipc park_entry_t \<Rightarrow> bool" where
  "tcp_entry ctx_idx ctx_gen e =
    (pstate e \<noteq> PARK_FREE \<and> pkind e = PARK_TCP \<and>
     (case punion e of U_TCP _ i g \<Rightarrow> i = ctx_idx \<and> g = ctx_gen | _ \<Rightarrow> False))"

definition park_cancel_tcp :: "'ipc park_table_t \<Rightarrow> u32 \<Rightarrow> u32 \<Rightarrow> 'ipc park_table_t \<times> bool" where
  "park_cancel_tcp t ctx_idx ctx_gen =
    (if ents t = [] \<or> nwait t + nready t = 0 then (t, False)
     else case find (\<lambda>i. tcp_entry ctx_idx ctx_gen (ents t ! i)) [0..<pcap t] of
            Some i \<Rightarrow> (let t = park_release t i in t\<lparr>n_cancelled := n_cancelled t + 1\<rparr>, True)
          | None \<Rightarrow> (t, False))"

definition park_next_deadline_ms :: "'ipc park_table_t \<Rightarrow> int \<Rightarrow> int" where
  "park_next_deadline_ms t now_ms =
    (if ents t = [] \<or> nwait t = 0 then -1
     else let d = min_deadline_ms t - now_ms in if d < 0 then 0 else d)"

section \<open>The invariant\<close>

abbreviation is_wait :: "'ipc park_entry_t \<Rightarrow> bool" where
  "is_wait e \<equiv> pstate e = PARK_WAIT"

abbreviation is_done :: "'ipc park_entry_t \<Rightarrow> bool" where
  "is_done e \<equiv> pstate e = PARK_READY \<or> pstate e = PARK_TIMEOUT"

text \<open>The member of the union that \<open>kind\<close> names is the one that was written.\<close>

definition union_ok :: "'ipc park_entry_t \<Rightarrow> bool" where
  "union_ok e \<longleftrightarrow>
    (case punion e of
       U_UDP fd ipc payload \<Rightarrow> pkind e = PARK_UDP \<and> length payload \<le> PARK_UDP_MAX \<and> unat (udp_len e) = length payload
     | U_TCP fd i g \<Rightarrow> pkind e = PARK_TCP
     | U_ZERO \<Rightarrow> False)"

definition entry_ok :: "int \<Rightarrow> 'ipc park_entry_t \<Rightarrow> bool" where
  "entry_ok m e \<longleftrightarrow>
    (pstate e \<noteq> PARK_FREE \<longrightarrow> pgen e \<noteq> 0 \<and> key_fits (Some (pview e)) (Some (pzone e)) \<and> union_ok e) \<and>
    (is_wait e \<longrightarrow> m \<le> deadline_ms e)"

text \<open>The first \<open>nfree\<close> elements of \<open>free_idx\<close> are exactly the free entries, each once.\<close>

definition free_ok :: "'ipc park_table_t \<Rightarrow> bool" where
  "free_ok t \<longleftrightarrow>
    length (ents t) = pcap t \<and> length (free_idx t) = pcap t \<and> 0 < pcap t \<and> pcap t \<le> 2 ^ 20 \<and> nfree t \<le> pcap t \<and>
    distinct (take (nfree t) (free_idx t)) \<and>
    set (take (nfree t) (free_idx t)) = {i. i < pcap t \<and> pstate (ents t ! i) = PARK_FREE}"

definition park_ok :: "'ipc park_table_t \<Rightarrow> bool" where
  "park_ok t \<longleftrightarrow>
    free_ok t \<and> nwait t = length (filter is_wait (ents t)) \<and> nready t = length (filter is_done (ents t)) \<and>
    (\<forall>e \<in> set (ents t). entry_ok (min_deadline_ms t) e) \<and> next_gen t \<noteq> 0"

lemma length_filter_update:
  "i < length xs \<Longrightarrow>
   length (filter p (xs[i := x])) + (if p (xs ! i) then 1 else 0) = length (filter p xs) + (if p x then 1 else 0)"
proof (induction xs arbitrary: i)
  case (Cons a xs)
  show ?case using Cons.IH Cons.prems by (cases i) (auto split: if_splits)
qed simp

lemma ball_update: "(\<forall>y \<in> set xs. p y) \<Longrightarrow> p x \<Longrightarrow> \<forall>y \<in> set (xs[i := x]). p y"
  using set_update_subset_insert by fastforce

lemma entry_ok_mono: "entry_ok m e \<Longrightarrow> m' \<le> m \<Longrightarrow> entry_ok m' e"
  by (auto simp: entry_ok_def)

lemma free_ok_nfree: "free_ok t \<Longrightarrow> nfree t \<le> pcap t"
  by (simp add: free_ok_def)

lemma park_ok_ents: "park_ok t \<Longrightarrow> ents t \<noteq> []"
  by (auto simp: park_ok_def free_ok_def)

lemma park_ok_len: "park_ok t \<Longrightarrow> length (ents t) = pcap t"
  by (simp add: park_ok_def free_ok_def)

lemma park_init_ok: "park_init cap mem = (t, True) \<Longrightarrow> park_ok t"
proof -
  assume i: "park_init cap mem = (t, True)"
  have "x \<in> (\<lambda>i. cap - Suc i) ` {0..<cap}" if "x < cap" for x
    using that by (intro image_eqI [of _ _ "cap - Suc x"]) simp_all
  with i show "park_ok t"
    by (auto simp: park_init_def park_ok_def free_ok_def zero_table_def zero_entry_def entry_ok_def distinct_map inj_on_def
        split: if_splits)
qed

subsection \<open>Giving out and taking back an entry\<close>

lemma free_top:
  assumes "free_ok t" "0 < nfree t"
  shows "free_idx t ! (nfree t - 1) < pcap t" "pstate (ents t ! (free_idx t ! (nfree t - 1))) = PARK_FREE"
    and "set (take (nfree t - 1) (free_idx t)) =
         {i. i < pcap t \<and> pstate (ents t ! i) = PARK_FREE} - {free_idx t ! (nfree t - 1)}"
    and "distinct (take (nfree t - 1) (free_idx t))"
proof -
  let ?k = "nfree t - 1" and ?x = "free_idx t ! (nfree t - 1)"
  have "take (nfree t) (free_idx t) = take ?k (free_idx t) @ [?x]"
    using assms take_Suc_conv_app_nth [of ?k "free_idx t"] by (cases "nfree t") (simp_all add: free_ok_def)
  then have s: "set (take (nfree t) (free_idx t)) = insert ?x (set (take ?k (free_idx t)))"
    and d: "distinct (take ?k (free_idx t))" "?x \<notin> set (take ?k (free_idx t))"
    using assms by (auto simp: free_ok_def)
  have "?x \<in> {i. i < pcap t \<and> pstate (ents t ! i) = PARK_FREE}" using s assms by (auto simp: free_ok_def)
  then show "?x < pcap t" "pstate (ents t ! ?x) = PARK_FREE" by simp_all
  show "set (take ?k (free_idx t)) = {i. i < pcap t \<and> pstate (ents t ! i) = PARK_FREE} - {?x}"
    using s d assms by (auto simp: free_ok_def)
  show "distinct (take ?k (free_idx t))" by (rule d(1))
qed

text \<open>An entry \<open>e\<close> in the topmost free slot, with the counters moved along.\<close>

definition alloc :: "'ipc park_entry_t \<Rightarrow> 'ipc park_table_t \<Rightarrow> 'ipc park_table_t" where
  "alloc e t = t\<lparr>nfree := nfree t - 1, next_gen := (if next_gen t + 1 = 0 then 1 else next_gen t + 1),
     ents := (ents t)[free_idx t ! (nfree t - 1) := e], min_deadline_ms := min (deadline_ms e) (min_deadline_ms t),
     nwait := nwait t + 1, n_parked := n_parked t + 1\<rparr>"

lemma park_ok_alloc:
  assumes ok: "park_ok t" and n: "0 < nfree t" and e: "is_wait e" "entry_ok (deadline_ms e) e"
  shows "park_ok (alloc e t)"
proof -
  let ?i = "free_idx t ! (nfree t - 1)"
  have f: "free_ok t" using ok by (simp add: park_ok_def)
  note top = free_top [OF f n]
  have i: "?i < length (ents t)" using top(1) ok by (simp add: park_ok_len)
  have "{j. j < pcap t \<and> pstate ((ents t)[?i := e] ! j) = PARK_FREE} = {j. j < pcap t \<and> pstate (ents t ! j) = PARK_FREE} - {?i}"
    using i e(1) park_ok_len [OF ok] by (auto simp: nth_list_update)
  moreover have "nfree t - 1 \<le> pcap t" using free_ok_nfree [OF f] by simp
  ultimately have "free_ok (alloc e t)"
    using f top(3,4) unfolding free_ok_def alloc_def by simp
  moreover have "length (filter is_wait ((ents t)[?i := e])) = length (filter is_wait (ents t)) + 1"
    using length_filter_update [OF i, of is_wait e] top(2) e(1) by simp
  moreover have "length (filter is_done ((ents t)[?i := e])) = length (filter is_done (ents t))"
    using length_filter_update [OF i, of is_done e] top(2) e(1) by simp
  moreover have "\<forall>x \<in> set ((ents t)[?i := e]). entry_ok (min (deadline_ms e) (min_deadline_ms t)) x"
    using ok e(2) by (intro ball_update) (auto simp: park_ok_def intro: entry_ok_mono)
  ultimately show ?thesis using ok unfolding park_ok_def by (simp add: alloc_def)
qed

lemma free_push:
  assumes f: "free_ok t" and i: "i < pcap t" "pstate (ents t ! i) \<noteq> PARK_FREE"
  shows "nfree t < pcap t"
    and "take (nfree t + 1) ((free_idx t)[nfree t := i]) = take (nfree t) (free_idx t) @ [i]"
proof -
  have "set (take (nfree t) (free_idx t)) \<subseteq> {..<pcap t} - {i}" using f i by (auto simp: free_ok_def)
  then have "card (set (take (nfree t) (free_idx t))) \<le> card ({..<pcap t} - {i})" by (intro card_mono) simp_all
  moreover have "card (set (take (nfree t) (free_idx t))) = nfree t"
    using f by (subst distinct_card) (simp_all add: free_ok_def)
  ultimately have "nfree t \<le> pcap t - 1" using i(1) by simp
  then show n: "nfree t < pcap t" using i(1) by simp
  then show "take (nfree t + 1) ((free_idx t)[nfree t := i]) = take (nfree t) (free_idx t) @ [i]"
    using f by (simp add: free_ok_def take_Suc_conv_app_nth)
qed

text \<open>\<open>park_release\<close> of an entry in use.\<close>

lemma park_release_used:
  assumes "ents t \<noteq> []" "i < pcap t" "pstate (ents t ! i) \<noteq> PARK_FREE"
  shows "park_release t i =
    t\<lparr>nwait := nwait t - (if is_wait (ents t ! i) then 1 else 0), nready := nready t - (if is_wait (ents t ! i) then 0 else 1),
      min_deadline_ms := (if is_wait (ents t ! i) \<and> nwait t - 1 = 0 then INT64_MAX else min_deadline_ms t),
      ents := (ents t)[i := (ents t ! i)\<lparr>pstate := PARK_FREE\<rparr>],
      free_idx := (free_idx t)[nfree t := i], nfree := nfree t + 1\<rparr>"
  using assms by (simp add: park_release_def Let_def)

lemma entry_ok_not_wait: "entry_ok m e \<Longrightarrow> \<not> is_wait e \<Longrightarrow> entry_ok m' e"
  by (auto simp: entry_ok_def)

lemma park_ok_release:
  assumes ok: "park_ok t"
  shows "park_ok (park_release t i)"
proof (cases "ents t = [] \<or> pcap t \<le> i \<or> pstate (ents t ! i) = PARK_FREE")
  case True
  then show ?thesis using ok by (auto simp: park_release_def)
next
  case False
  let ?e = "(ents t ! i)\<lparr>pstate := PARK_FREE\<rparr>"
  let ?m = "if is_wait (ents t ! i) \<and> nwait t - 1 = 0 then INT64_MAX else min_deadline_ms t"
  have f: "free_ok t" using ok by (simp add: park_ok_def)
  have u: "ents t \<noteq> []" "i < pcap t" "pstate (ents t ! i) \<noteq> PARK_FREE" using False by auto
  have l: "i < length (ents t)" using u(2) ok by (simp add: park_ok_len)
  note push = free_push [OF f u(2,3)]
  have w: "length (filter is_wait ((ents t)[i := ?e])) = nwait t - (if is_wait (ents t ! i) then 1 else 0)"
    using length_filter_update [OF l, of is_wait ?e] ok by (auto simp: park_ok_def)
  have d: "length (filter is_done ((ents t)[i := ?e])) = nready t - (if is_wait (ents t ! i) then 0 else 1)"
    using length_filter_update [OF l, of is_done ?e] ok u(3) by (cases "pstate (ents t ! i)") (auto simp: park_ok_def)
  have "{j. j < pcap t \<and> pstate ((ents t)[i := ?e] ! j) = PARK_FREE} = insert i {j. j < pcap t \<and> pstate (ents t ! j) = PARK_FREE}"
    using l park_ok_len [OF ok] by (auto simp: nth_list_update)
  then have "free_ok (park_release t i)"
    using f push u(3) unfolding park_release_used [OF u] free_ok_def by simp
  moreover have "\<forall>x \<in> set ((ents t)[i := ?e]). entry_ok ?m x"
  proof (cases "is_wait (ents t ! i) \<and> nwait t - 1 = 0")
    case True
    then have "\<forall>x \<in> set ((ents t)[i := ?e]). \<not> is_wait x" using w by (auto simp: filter_empty_conv)
    moreover have "\<forall>x \<in> set ((ents t)[i := ?e]). entry_ok (min_deadline_ms t) x"
      using ok by (intro ball_update) (auto simp: park_ok_def entry_ok_def)
    ultimately show ?thesis by (blast intro: entry_ok_not_wait)
  next
    case False
    then show ?thesis using ok by (simp only: if_False) (intro ball_update, auto simp: park_ok_def entry_ok_def)
  qed
  ultimately show ?thesis using ok w d unfolding park_ok_def by (simp add: park_release_used [OF u])
qed

subsection \<open>The loops\<close>

definition mark :: "('ipc park_entry_t \<Rightarrow> bool) \<Rightarrow> park_state_t \<Rightarrow> 'ipc park_entry_t \<Rightarrow> 'ipc park_entry_t" where
  "mark p s e = (if is_wait e \<and> p e then e\<lparr>pstate := s\<rparr> else e)"

text \<open>Stopping after the waiting entries were seen changes nothing.\<close>

lemma mark_none: "filter is_wait es = [] \<Longrightarrow> map (mark p s) es = es \<and> filter (\<lambda>e. is_wait e \<and> p e) es = []"
  by (induction es) (auto simp: mark_def split: if_splits)

lemma mark_loop_map:
  "length (filter is_wait es) \<le> left \<Longrightarrow>
   mark_loop p s left es = (map (mark p s) es, length (filter (\<lambda>e. is_wait e \<and> p e) es))"
proof (induction p s left es rule: mark_loop.induct)
  case (2 p s e es)
  then show ?case using mark_none [of "e # es" p s] by simp
qed (auto simp: mark_def split: prod.splits)

lemma has_wait_loop_ex:
  "length (filter is_wait es) \<le> left \<Longrightarrow>
   has_wait_loop view zone left es \<longleftrightarrow> (\<exists>e \<in> set es. is_wait e \<and> entry_is view zone e)"
  by (induction view zone left es rule: has_wait_loop.induct) (auto simp: filter_empty_conv split: if_splits)

lemma expire_loop_map:
  "length (filter is_wait es) \<le> left \<Longrightarrow> expire_loop now left m es = (es', n, m') \<Longrightarrow>
   es' = map (mark (\<lambda>e. deadline_ms e \<le> now) PARK_TIMEOUT) es \<and>
   n = length (filter (\<lambda>e. is_wait e \<and> deadline_ms e \<le> now) es)"
proof (induction now left m es arbitrary: es' n m' rule: expire_loop.induct)
  case (2 now m e es)
  then have "filter is_wait (e # es) = []" by (simp only: length_0_conv le_zero_eq)
  from mark_none [OF this, of "\<lambda>e. deadline_ms e \<le> now" PARK_TIMEOUT] show ?case using 2(2)
    by (metis expire_loop.simps(2) list.size(3) prod.inject)
next
  case (3 now left m e es)
  then show ?case by (auto simp: mark_def split: prod.splits if_splits)
qed simp

lemma expire_loop_min:
  "length (filter is_wait es) \<le> left \<Longrightarrow> expire_loop now left m es = (es', n, m') \<Longrightarrow>
   m' \<le> m \<and> (\<forall>e \<in> set es. is_wait e \<and> now < deadline_ms e \<longrightarrow> m' \<le> deadline_ms e)"
proof (induction now left m es arbitrary: es' n m' rule: expire_loop.induct)
  case (2 now m e es)
  then show ?case by (auto simp: filter_empty_conv split: if_splits)
next
  case (3 now left m e es)
  then show ?case by (fastforce split: prod.splits if_splits)
qed simp

lemma length_filter_mark:
  assumes "s = PARK_READY \<or> s = PARK_TIMEOUT"
  shows "length (filter is_wait (map (mark p s) es)) + length (filter (\<lambda>e. is_wait e \<and> p e) es) = length (filter is_wait es)"
    and "length (filter is_done (map (mark p s) es)) = length (filter is_done es) + length (filter (\<lambda>e. is_wait e \<and> p e) es)"
  using assms by (induction es) (auto simp: mark_def)

lemma mark_free: "s \<noteq> PARK_FREE \<Longrightarrow> pstate (mark p s e) = PARK_FREE \<longleftrightarrow> pstate e = PARK_FREE"
  by (auto simp: mark_def)

lemma entry_ok_mark:
  assumes "entry_ok m e" "s = PARK_READY \<or> s = PARK_TIMEOUT" "is_wait e \<Longrightarrow> \<not> p e \<Longrightarrow> m' \<le> deadline_ms e"
  shows "entry_ok m' (mark p s e)"
  using assms by (auto simp: entry_ok_def mark_def union_ok_def split: park_union.splits)

lemma park_ok_mark:
  assumes ok: "park_ok t" and s: "s = PARK_READY \<or> s = PARK_TIMEOUT"
    and m: "\<And>e. e \<in> set (ents t) \<Longrightarrow> is_wait e \<Longrightarrow> \<not> p e \<Longrightarrow> m' \<le> deadline_ms e"
  shows "park_ok (t\<lparr>ents := map (mark p s) (ents t), nwait := nwait t - length (filter (\<lambda>e. is_wait e \<and> p e) (ents t)),
    nready := nready t + length (filter (\<lambda>e. is_wait e \<and> p e) (ents t)), min_deadline_ms := m'\<rparr>)" (is "park_ok ?t")
proof -
  have s': "s \<noteq> PARK_FREE" using s by auto
  have "{i. i < pcap t \<and> pstate (map (mark p s) (ents t) ! i) = PARK_FREE} = {i. i < pcap t \<and> pstate (ents t ! i) = PARK_FREE}"
    by (simp add: park_ok_len [OF ok] mark_free [OF s'] cong: conj_cong)
  then have "free_ok ?t" using ok unfolding park_ok_def free_ok_def by simp
  moreover have "\<forall>e \<in> set (map (mark p s) (ents t)). entry_ok m' e"
  proof
    fix x assume "x \<in> set (map (mark p s) (ents t))"
    then obtain e where e: "e \<in> set (ents t)" "x = mark p s e" by auto
    then have "entry_ok (min_deadline_ms t) e" using ok by (simp add: park_ok_def)
    then show "entry_ok m' x" unfolding e(2) using s m [OF e(1)] by (rule entry_ok_mark)
  qed
  moreover have "nwait t - length (filter (\<lambda>e. is_wait e \<and> p e) (ents t)) = length (filter is_wait (map (mark p s) (ents t)))"
    and "nready t + length (filter (\<lambda>e. is_wait e \<and> p e) (ents t)) = length (filter is_done (map (mark p s) (ents t)))"
    using length_filter_mark [OF s, of p "ents t"] ok by (simp_all add: park_ok_def)
  ultimately show ?thesis using ok unfolding park_ok_def by simp
qed

text \<open>The statistics are not part of the invariant.\<close>

lemma park_ok_stats [simp]:
  "park_ok (t\<lparr>n_woken := x\<rparr>) = park_ok t" "park_ok (t\<lparr>n_failed := x\<rparr>) = park_ok t"
  "park_ok (t\<lparr>n_timeout := x\<rparr>) = park_ok t" "park_ok (t\<lparr>n_cancelled := x\<rparr>) = park_ok t"
  "park_ok (t\<lparr>n_full := x\<rparr>) = park_ok t" "park_ok (t\<lparr>n_toobig := x\<rparr>) = park_ok t"
  by (simp_all add: park_ok_def free_ok_def)

section \<open>The parked queries\<close>

text \<open>The abstract state: the entries in use, by index.\<close>

definition parked :: "'ipc park_table_t \<Rightarrow> nat \<Rightarrow> 'ipc park_entry_t option" where
  "parked t i = (if i < length (ents t) \<and> pstate (ents t ! i) \<noteq> PARK_FREE then Some (ents t ! i) else None)"

text \<open>What one operation on the waiting entries does to them: \<open>t'\<close> is \<open>t\<close> with the entries marked.\<close>

definition marked :: "('ipc park_entry_t \<Rightarrow> bool) \<Rightarrow> park_state_t \<Rightarrow> 'ipc park_table_t \<Rightarrow> 'ipc park_table_t \<Rightarrow> bool" where
  "marked p s t t' \<longleftrightarrow> park_ok t' \<and> pcap t' = pcap t \<and> parked t' = (\<lambda>i. map_option (mark p s) (parked t i))"

lemma parked_ents: "ents t' = ents t \<Longrightarrow> parked t' = parked t"
  by (rule ext) (simp add: parked_def)

lemma ents_member: "parked t i = Some e \<Longrightarrow> e \<in> set (ents t) \<and> pstate e \<noteq> PARK_FREE"
  by (auto simp: parked_def split: if_splits)

lemma marked_none:
  assumes "park_ok t" "\<And>e. e \<in> set (ents t) \<Longrightarrow> is_wait e \<Longrightarrow> \<not> p e"
  shows "marked p s t t"
proof -
  have "map_option (mark p s) (parked t i) = parked t i" for i
    using assms(2) ents_member [of t i] by (cases "parked t i") (auto simp: mark_def)
  then show ?thesis using assms(1) by (simp add: marked_def)
qed

lemma marked_some:
  assumes ok: "park_ok t" and s: "s = PARK_READY \<or> s = PARK_TIMEOUT"
    and m: "\<And>e. e \<in> set (ents t) \<Longrightarrow> is_wait e \<Longrightarrow> \<not> p e \<Longrightarrow> min_deadline_ms t' \<le> deadline_ms e"
    and t': "ents t' = map (mark p s) (ents t)" "pcap t' = pcap t" "free_idx t' = free_idx t" "nfree t' = nfree t"
      "next_gen t' = next_gen t" "nwait t' = nwait t - length (filter (\<lambda>e. is_wait e \<and> p e) (ents t))"
      "nready t' = nready t + length (filter (\<lambda>e. is_wait e \<and> p e) (ents t))"
  shows "marked p s t t'"
proof -
  have s': "s \<noteq> PARK_FREE" using s by auto
  have "park_ok t'" using park_ok_mark [OF ok s m] unfolding park_ok_def free_ok_def by (simp add: t')
  moreover have "parked t' i = map_option (mark p s) (parked t i)" for i
    by (simp add: parked_def t'(1) mark_free [OF s'])
  ultimately show ?thesis using t'(2) by (auto simp: marked_def)
qed

lemma waiting_key_fits: "park_ok t \<Longrightarrow> e \<in> set (ents t) \<Longrightarrow> is_wait e \<Longrightarrow> key_fits (Some (pview e)) (Some (pzone e))"
  by (auto simp: park_ok_def entry_ok_def)

lemma waiting_deadline: "park_ok t \<Longrightarrow> e \<in> set (ents t) \<Longrightarrow> is_wait e \<Longrightarrow> min_deadline_ms t \<le> deadline_ms e"
  by (auto simp: park_ok_def entry_ok_def)

lemma no_waiting: "park_ok t \<Longrightarrow> nwait t = 0 \<Longrightarrow> e \<in> set (ents t) \<Longrightarrow> \<not> is_wait e"
  by (auto simp: park_ok_def filter_empty_conv)

lemma nwait_left: "park_ok t \<Longrightarrow> length (filter is_wait (ents t)) \<le> nwait t"
  by (simp add: park_ok_def)

lemma park_wake_marked:
  assumes "park_ok t"
  shows "marked (entry_is v z) PARK_READY t (fst (park_wake t (Some v) (Some z)))"
proof (cases "nwait t = 0 \<or> \<not> key_fits (Some v) (Some z)")
  case True
  then have "marked (entry_is v z) PARK_READY t t"
    using waiting_key_fits [OF assms] no_waiting [OF assms] by (intro marked_none assms) (auto simp: entry_is_def)
  then show ?thesis using True by (auto simp: park_wake_def)
next
  case False
  then show ?thesis using park_ok_ents [OF assms] mark_loop_map [OF nwait_left [OF assms]] waiting_deadline [OF assms]
    by (intro marked_some assms) (auto simp: park_wake_def)
qed

lemma park_fail_marked:
  assumes "park_ok t"
  shows "marked (entry_is v z) PARK_TIMEOUT t (fst (park_fail t (Some v) (Some z)))"
proof (cases "nwait t = 0 \<or> \<not> key_fits (Some v) (Some z)")
  case True
  then have "marked (entry_is v z) PARK_TIMEOUT t t"
    using waiting_key_fits [OF assms] no_waiting [OF assms] by (intro marked_none assms) (auto simp: entry_is_def)
  then show ?thesis using True by (auto simp: park_fail_def)
next
  case False
  then show ?thesis using park_ok_ents [OF assms] mark_loop_map [OF nwait_left [OF assms]] waiting_deadline [OF assms]
    by (intro marked_some assms) (auto simp: park_fail_def)
qed

lemma park_wake_all_marked:
  assumes "park_ok t"
  shows "marked (\<lambda>_. True) PARK_READY t (fst (park_wake_all t))"
proof (cases "nwait t = 0")
  case True
  then have "marked (\<lambda>_. True) PARK_READY t t"
    using no_waiting [OF assms] by (intro marked_none assms) auto
  then show ?thesis using True by (auto simp: park_wake_all_def)
next
  case False
  then show ?thesis using park_ok_ents [OF assms] mark_loop_map [OF nwait_left [OF assms]]
    by (intro marked_some assms) (auto simp: park_wake_all_def)
qed

lemma park_expire_marked:
  assumes "park_ok t"
  shows "marked (\<lambda>e. deadline_ms e \<le> now) PARK_TIMEOUT t (fst (park_expire t now))"
proof (cases "nwait t = 0 \<or> now < min_deadline_ms t")
  case True
  then have "marked (\<lambda>e. deadline_ms e \<le> now) PARK_TIMEOUT t t"
    using no_waiting [OF assms] waiting_deadline [OF assms] by (intro marked_none assms) fastforce
  then show ?thesis using True by (auto simp: park_expire_def)
next
  case False
  obtain es n m where l: "expire_loop now (nwait t) INT64_MAX (ents t) = (es, n, m)" by (metis prod.exhaust)
  show ?thesis
    using False park_ok_ents [OF assms] expire_loop_map [OF nwait_left [OF assms] l] expire_loop_min [OF nwait_left [OF assms] l]
    by (intro marked_some assms) (auto simp: park_expire_def l)
qed

subsection \<open>Parking and releasing\<close>

definition parkable :: "'ipc park_table_t \<Rightarrow> bytes option \<Rightarrow> bytes option \<Rightarrow> bool" where
  "parkable t view zone \<longleftrightarrow> key_fits view zone \<and> 0 < nfree t"

lemma park_udp_alloc:
  assumes "park_ok t" "parkable t view zone" "length payload \<le> PARK_UDP_MAX"
  shows "park_udp t now_ms timeout_ms view zone fd ipc payload =
    (alloc \<lparr>pstate = PARK_WAIT, pkind = PARK_UDP, udp_len = word_of_nat (length payload), pgen = next_gen t,
       deadline_ms = now_ms + int (unat timeout_ms), pview = the view, pzone = the zone, punion = U_UDP fd ipc payload\<rparr> t,
     Some (free_idx t ! (nfree t - 1)))"
proof -
  have "free_idx t ! (nfree t - 1) < length (ents t)"
    using assms free_top(1) [of t] park_ok_len [of t] by (simp add: park_ok_def parkable_def)
  then show ?thesis using assms park_ok_ents [of t]
    by (simp add: park_udp_def park_take_def parkable_def Let_def alloc_def min_def)
qed

lemma park_tcp_alloc:
  assumes "park_ok t" "parkable t view zone"
  shows "park_tcp t now_ms timeout_ms view zone fd ctx_idx ctx_gen =
    (alloc \<lparr>pstate = PARK_WAIT, pkind = PARK_TCP, udp_len = 0, pgen = next_gen t,
       deadline_ms = now_ms + int (unat timeout_ms), pview = the view, pzone = the zone, punion = U_TCP fd ctx_idx ctx_gen\<rparr> t,
     Some (free_idx t ! (nfree t - 1)))"
proof -
  have "free_idx t ! (nfree t - 1) < length (ents t)"
    using assms free_top(1) [of t] park_ok_len [of t] by (simp add: park_ok_def parkable_def)
  then show ?thesis using assms park_ok_ents [of t]
    by (simp add: park_tcp_def park_take_def parkable_def Let_def alloc_def min_def)
qed

lemma park_take_refused:
  assumes "\<not> parkable t view zone"
  shows "snd (park_take t now_ms timeout_ms view zone kind) = None"
    and "ents (fst (park_take t now_ms timeout_ms view zone kind)) = ents t"
    and "park_ok (fst (park_take t now_ms timeout_ms view zone kind)) = park_ok t"
  using assms by (auto simp: park_take_def parkable_def)

lemma park_udp_refused:
  assumes "\<not> parkable t view zone \<or> PARK_UDP_MAX < length payload"
  shows "snd (park_udp t now_ms timeout_ms view zone fd ipc payload) = None"
    and "ents (fst (park_udp t now_ms timeout_ms view zone fd ipc payload)) = ents t"
    and "park_ok (fst (park_udp t now_ms timeout_ms view zone fd ipc payload)) = park_ok t"
  using assms park_take_refused [of t view zone now_ms timeout_ms PARK_UDP]
  by (auto simp: park_udp_def split: prod.splits option.splits)

lemma park_tcp_refused:
  assumes "\<not> parkable t view zone"
  shows "snd (park_tcp t now_ms timeout_ms view zone fd ctx_idx ctx_gen) = None"
    and "ents (fst (park_tcp t now_ms timeout_ms view zone fd ctx_idx ctx_gen)) = ents t"
    and "park_ok (fst (park_tcp t now_ms timeout_ms view zone fd ctx_idx ctx_gen)) = park_ok t"
  using assms park_take_refused [of t view zone now_ms timeout_ms PARK_TCP]
  by (auto simp: park_tcp_def split: prod.splits option.splits)

lemma parked_alloc:
  assumes "park_ok t" "0 < nfree t" "pstate e \<noteq> PARK_FREE"
  shows "parked (alloc e t) = (parked t)(free_idx t ! (nfree t - 1) \<mapsto> e)"
    and "parked t (free_idx t ! (nfree t - 1)) = None" "free_idx t ! (nfree t - 1) < pcap t"
proof -
  have f: "free_ok t" using assms(1) by (simp add: park_ok_def)
  note top = free_top(1,2) [OF f assms(2)]
  show "parked (alloc e t) = (parked t)(free_idx t ! (nfree t - 1) \<mapsto> e)"
    using top assms(3) park_ok_len [OF assms(1)] by (intro ext) (simp add: parked_def alloc_def)
  show "parked t (free_idx t ! (nfree t - 1)) = None" using top by (simp add: parked_def)
  show "free_idx t ! (nfree t - 1) < pcap t" by (rule top(1))
qed

lemma nfree_zero:
  assumes "park_ok t" "nfree t = 0" "i < pcap t"
  shows "parked t i \<noteq> None"
proof -
  have "i \<notin> set (take (nfree t) (free_idx t))" using assms(2) by simp
  then have "pstate (ents t ! i) \<noteq> PARK_FREE" using assms(1,3) unfolding park_ok_def free_ok_def by blast
  then show ?thesis using assms(1,3) by (simp add: parked_def park_ok_len)
qed

lemma parked_release:
  assumes "park_ok t"
  shows "parked (park_release t i) = (parked t)(i := None)"
proof (cases "pcap t \<le> i \<or> pstate (ents t ! i) = PARK_FREE")
  case True
  then have "park_release t i = t" by (auto simp: park_release_def)
  moreover have "parked t i = None" using True park_ok_len [OF assms] by (auto simp: parked_def)
  ultimately show ?thesis by auto
next
  case False
  then have u: "ents t \<noteq> []" "i < pcap t" "pstate (ents t ! i) \<noteq> PARK_FREE" using park_ok_ents [OF assms] by auto
  show ?thesis using u park_ok_len [OF assms]
    unfolding park_release_used [OF u] by (intro ext) (simp add: parked_def)
qed

section \<open>Operations and their specification\<close>

datatype 'ipc park_op =
    Op_udp int u32 "bytes option" "bytes option" int 'ipc bytes
  | Op_tcp int u32 "bytes option" "bytes option" int u32 u32
  | Op_wake bytes bytes
  | Op_fail bytes bytes
  | Op_wake_all
  | Op_expire int
  | Op_release nat
  | Op_cancel_tcp u32 u32

fun park_exec :: "'ipc park_op \<Rightarrow> 'ipc park_table_t \<Rightarrow> 'ipc park_table_t" where
  "park_exec (Op_udp now_ms timeout_ms view zone fd ipc payload) t = fst (park_udp t now_ms timeout_ms view zone fd ipc payload)"
| "park_exec (Op_tcp now_ms timeout_ms view zone fd ctx_idx ctx_gen) t = fst (park_tcp t now_ms timeout_ms view zone fd ctx_idx ctx_gen)"
| "park_exec (Op_wake view zone) t = fst (park_wake t (Some view) (Some zone))"
| "park_exec (Op_fail view zone) t = fst (park_fail t (Some view) (Some zone))"
| "park_exec Op_wake_all t = fst (park_wake_all t)"
| "park_exec (Op_expire now_ms) t = fst (park_expire t now_ms)"
| "park_exec (Op_release i) t = park_release t i"
| "park_exec (Op_cancel_tcp ctx_idx ctx_gen) t = fst (park_cancel_tcp t ctx_idx ctx_gen)"

text \<open>
  The specification, on a partial map with indices below \<open>cap\<close>: parking takes any index that is
  not in use and refuses only for the documented reasons; the other operations act on all entries
  they name.
\<close>

inductive park_spec :: "nat \<Rightarrow> 'ipc park_op \<Rightarrow> (nat \<Rightarrow> 'ipc park_entry_t option) \<Rightarrow> (nat \<Rightarrow> 'ipc park_entry_t option) \<Rightarrow> bool"
  for cap :: nat where
  spec_udp: "i < cap \<Longrightarrow> m i = None \<Longrightarrow> key_fits (Some v) (Some z) \<Longrightarrow> length payload \<le> PARK_UDP_MAX \<Longrightarrow> g \<noteq> 0 \<Longrightarrow>
    park_spec cap (Op_udp now_ms timeout_ms (Some v) (Some z) fd ipc payload) m
      (m(i \<mapsto> \<lparr>pstate = PARK_WAIT, pkind = PARK_UDP, udp_len = word_of_nat (length payload), pgen = g,
               deadline_ms = now_ms + int (unat timeout_ms), pview = v, pzone = z, punion = U_UDP fd ipc payload\<rparr>))"
| spec_udp_refused: "(\<forall>i < cap. m i \<noteq> None) \<or> \<not> key_fits view zone \<or> PARK_UDP_MAX < length payload \<Longrightarrow>
    park_spec cap (Op_udp now_ms timeout_ms view zone fd ipc payload) m m"
| spec_tcp: "i < cap \<Longrightarrow> m i = None \<Longrightarrow> key_fits (Some v) (Some z) \<Longrightarrow> g \<noteq> 0 \<Longrightarrow>
    park_spec cap (Op_tcp now_ms timeout_ms (Some v) (Some z) fd ctx_idx ctx_gen) m
      (m(i \<mapsto> \<lparr>pstate = PARK_WAIT, pkind = PARK_TCP, udp_len = 0, pgen = g,
               deadline_ms = now_ms + int (unat timeout_ms), pview = v, pzone = z, punion = U_TCP fd ctx_idx ctx_gen\<rparr>))"
| spec_tcp_refused: "(\<forall>i < cap. m i \<noteq> None) \<or> \<not> key_fits view zone \<Longrightarrow>
    park_spec cap (Op_tcp now_ms timeout_ms view zone fd ctx_idx ctx_gen) m m"
| spec_wake: "park_spec cap (Op_wake v z) m (\<lambda>i. map_option (mark (entry_is v z) PARK_READY) (m i))"
| spec_fail: "park_spec cap (Op_fail v z) m (\<lambda>i. map_option (mark (entry_is v z) PARK_TIMEOUT) (m i))"
| spec_wake_all: "park_spec cap Op_wake_all m (\<lambda>i. map_option (mark (\<lambda>_. True) PARK_READY) (m i))"
| spec_expire: "park_spec cap (Op_expire now_ms) m (\<lambda>i. map_option (mark (\<lambda>e. deadline_ms e \<le> now_ms) PARK_TIMEOUT) (m i))"
| spec_release: "park_spec cap (Op_release i) m (m(i := None))"
| spec_cancel: "m i = Some e \<Longrightarrow> tcp_entry ctx_idx ctx_gen e \<Longrightarrow> park_spec cap (Op_cancel_tcp ctx_idx ctx_gen) m (m(i := None))"
| spec_cancel_none: "(\<And>i e. m i = Some e \<Longrightarrow> \<not> tcp_entry ctx_idx ctx_gen e) \<Longrightarrow>
    park_spec cap (Op_cancel_tcp ctx_idx ctx_gen) m m"

lemma key_fits_Some: "key_fits view zone \<Longrightarrow> \<exists>v z. view = Some v \<and> zone = Some z"
  by (cases view; cases zone) (auto simp: key_fits_def)

lemma alloc_pcap [simp]: "pcap (alloc e t) = pcap t"
  by (simp add: alloc_def)

lemma park_release_pcap [simp]: "pcap (park_release t i) = pcap t"
  by (simp add: park_release_def Let_def)

lemma park_ok_used:
  assumes ok: "park_ok t" and p: "parked t i = Some e"
  shows "0 < nwait t + nready t"
proof -
  have e: "e \<in> set (ents t)" "pstate e \<noteq> PARK_FREE" using ents_member [OF p] by auto
  then have "is_wait e \<or> is_done e" by (cases "pstate e") auto
  then have "e \<in> set (filter is_wait (ents t)) \<or> e \<in> set (filter is_done (ents t))" using e(1) by auto
  then have "0 < length (filter is_wait (ents t)) \<or> 0 < length (filter is_done (ents t))"
    by (metis length_pos_if_in_set)
  then show ?thesis using ok by (auto simp: park_ok_def)
qed

lemma park_refines_udp:
  assumes ok: "park_ok t"
  shows "park_ok (park_exec (Op_udp now to view zone fd ipc payload) t) \<and>
    park_spec (pcap t) (Op_udp now to view zone fd ipc payload) (parked t) (parked (park_exec (Op_udp now to view zone fd ipc payload) t))"
proof (cases "parkable t view zone \<and> length payload \<le> PARK_UDP_MAX")
  case True
  then have n: "0 < nfree t" and k: "key_fits view zone" by (auto simp: parkable_def)
  then obtain v z where [simp]: "view = Some v" "zone = Some z" using key_fits_Some by blast
  let ?e = "\<lparr>pstate = PARK_WAIT, pkind = PARK_UDP, udp_len = word_of_nat (length payload), pgen = next_gen t,
     deadline_ms = now + int (unat to), pview = v, pzone = z, punion = U_UDP fd ipc payload\<rparr>"
  have ne: "pstate ?e \<noteq> PARK_FREE" by simp
  have g: "next_gen t \<noteq> 0" using ok by (simp add: park_ok_def)
  have "unat (word_of_nat (length payload) :: u16) = length payload"
    using True by (simp add: unsigned_of_nat take_bit_nat_eq_self PARK_UDP_MAX_def)
  then have "entry_ok (deadline_ms ?e) ?e" using True k g by (simp add: entry_ok_def union_ok_def)
  then have "park_ok (alloc ?e t)" by (intro park_ok_alloc ok n) simp_all
  moreover have "park_spec (pcap t) (Op_udp now to view zone fd ipc payload) (parked t) (parked (alloc ?e t))"
    unfolding \<open>view = Some v\<close> \<open>zone = Some z\<close> parked_alloc(1) [OF ok n ne]
    using True k g parked_alloc(2,3) [OF ok n ne] by (intro spec_udp) simp_all
  ultimately show ?thesis using True by (simp add: park_udp_alloc [OF ok])
next
  case False
  then have r: "\<not> parkable t view zone \<or> PARK_UDP_MAX < length payload" by auto
  then have "(\<forall>i < pcap t. parked t i \<noteq> None) \<or> \<not> key_fits view zone \<or> PARK_UDP_MAX < length payload"
    using nfree_zero [OF ok] by (auto simp: parkable_def)
  from spec_udp_refused [OF this] show ?thesis
    using ok park_udp_refused(2,3) [OF r, of now to fd ipc] parked_ents [of "fst (park_udp t now to view zone fd ipc payload)" t]
    by simp
qed

lemma park_refines_tcp:
  assumes ok: "park_ok t"
  shows "park_ok (park_exec (Op_tcp now to view zone fd ci cg) t) \<and>
    park_spec (pcap t) (Op_tcp now to view zone fd ci cg) (parked t) (parked (park_exec (Op_tcp now to view zone fd ci cg) t))"
proof (cases "parkable t view zone")
  case True
  then have n: "0 < nfree t" and k: "key_fits view zone" by (auto simp: parkable_def)
  then obtain v z where [simp]: "view = Some v" "zone = Some z" using key_fits_Some by blast
  let ?e = "\<lparr>pstate = PARK_WAIT, pkind = PARK_TCP, udp_len = 0, pgen = next_gen t,
     deadline_ms = now + int (unat to), pview = v, pzone = z, punion = U_TCP fd ci cg\<rparr>"
  have ne: "pstate ?e \<noteq> PARK_FREE" by simp
  have g: "next_gen t \<noteq> 0" using ok by (simp add: park_ok_def)
  then have "entry_ok (deadline_ms ?e) ?e" using k by (simp add: entry_ok_def union_ok_def)
  then have "park_ok (alloc ?e t)" by (intro park_ok_alloc ok n) simp_all
  moreover have "park_spec (pcap t) (Op_tcp now to view zone fd ci cg) (parked t) (parked (alloc ?e t))"
    unfolding \<open>view = Some v\<close> \<open>zone = Some z\<close> parked_alloc(1) [OF ok n ne]
    using True k g parked_alloc(2,3) [OF ok n ne] by (intro spec_tcp) simp_all
  ultimately show ?thesis using True by (simp add: park_tcp_alloc [OF ok])
next
  case False
  then have "(\<forall>i < pcap t. parked t i \<noteq> None) \<or> \<not> key_fits view zone"
    using nfree_zero [OF ok] by (auto simp: parkable_def)
  from spec_tcp_refused [OF this] show ?thesis
    using ok park_tcp_refused(2,3) [OF False, of now to fd ci cg] parked_ents [of "fst (park_tcp t now to view zone fd ci cg)" t]
    by simp
qed

lemma park_refines_cancel:
  assumes ok: "park_ok t"
  shows "park_ok (park_exec (Op_cancel_tcp ci cg) t) \<and>
    park_spec (pcap t) (Op_cancel_tcp ci cg) (parked t) (parked (park_exec (Op_cancel_tcp ci cg) t))"
proof -
  let ?f = "find (\<lambda>i. tcp_entry ci cg (ents t ! i)) [0..<pcap t]"
  have used: "parked t i = Some e \<Longrightarrow> tcp_entry ci cg e \<Longrightarrow> i < pcap t \<and> tcp_entry ci cg (ents t ! i) \<and> 0 < nwait t + nready t" for i e
    using park_ok_used [OF ok, of i e] park_ok_len [OF ok] by (auto simp: parked_def split: if_splits)
  show ?thesis
  proof (cases "nwait t + nready t = 0 \<or> ?f = None")
    case True
    then have "\<not> tcp_entry ci cg e" if "parked t i = Some e" for i e
      using used [OF that] by (auto simp: find_None_iff)
    moreover have "park_cancel_tcp t ci cg = (t, False)" using True by (auto simp: park_cancel_tcp_def)
    ultimately show ?thesis using ok by (auto intro: spec_cancel_none)
  next
    case False
    then obtain i where f: "?f = Some i" by auto
    then have i: "i < pcap t" "tcp_entry ci cg (ents t ! i)" by (auto simp: find_Some_iff)
    then have p: "parked t i = Some (ents t ! i)" using park_ok_len [OF ok] by (simp add: parked_def tcp_entry_def)
    have e: "fst (park_cancel_tcp t ci cg) = (park_release t i)\<lparr>n_cancelled := n_cancelled (park_release t i) + 1\<rparr>"
      using False f park_ok_ents [OF ok] by (auto simp: park_cancel_tcp_def Let_def)
    have "parked (fst (park_cancel_tcp t ci cg)) = (parked t)(i := None)"
      using parked_release [OF ok, of i] parked_ents [of "fst (park_cancel_tcp t ci cg)" "park_release t i"] e by simp
    then show ?thesis using spec_cancel [of "parked t" i, OF p i(2)] park_ok_release [OF ok, of i] e by simp
  qed
qed

text \<open>Every operation keeps the invariant and implements its specification.\<close>

lemma park_refines:
  assumes ok: "park_ok t"
  shows "park_ok (park_exec op t) \<and> park_spec (pcap t) op (parked t) (parked (park_exec op t))"
proof (cases op)
  case (Op_udp now to view zone fd ipc payload)
  then show ?thesis using park_refines_udp [OF ok] by blast
next
  case (Op_tcp now to view zone fd ci cg)
  then show ?thesis using park_refines_tcp [OF ok] by blast
next
  case (Op_wake v z)
  then show ?thesis using park_wake_marked [OF ok, of v z] by (simp add: marked_def spec_wake)
next
  case (Op_fail v z)
  then show ?thesis using park_fail_marked [OF ok, of v z] by (simp add: marked_def spec_fail)
next
  case Op_wake_all
  then show ?thesis using park_wake_all_marked [OF ok] by (simp add: marked_def spec_wake_all)
next
  case (Op_expire now)
  then show ?thesis using park_expire_marked [OF ok, of now] by (simp add: marked_def spec_expire)
next
  case (Op_release i)
  then show ?thesis using park_ok_release [OF ok] parked_release [OF ok] by (simp add: spec_release)
next
  case (Op_cancel_tcp ci cg)
  then show ?thesis using park_refines_cancel [OF ok] by blast
qed

definition park_start :: "'ipc park_table_t \<Rightarrow> bool" where
  "park_start t \<longleftrightarrow> (\<exists>cap mem. park_init cap mem = (t, True))"

definition park_step :: "'ipc park_table_t \<Rightarrow> 'ipc park_table_t \<Rightarrow> bool" where
  "park_step t t' \<longleftrightarrow> (\<exists>op. t' = park_exec op t)"

interpretation park_sys: invariant_system park_start park_step park_ok
  by unfold_locales (auto simp: park_start_def park_step_def park_refines intro: park_init_ok)

end
