(* ===== verification/Park_Ring.thy ===== *)
theory Park_Ring
  imports Park
begin

text \<open>
  The rings between the workers and the ingest thread (\<^verbatim>\<open>src/dns_park.c\<close>): wake rings, fetch rings,
  the slots of the transfer threads, the background requests and the round robin over all of
  them.  Each operation is first a function that runs undisturbed.  For the wake ring the
  accesses of one producer and one consumer are then also interleaved, access by access, in a
  sequentially consistent memory; a slot that is being written holds an arbitrary value.
\<close>

section \<open>Wake rings\<close>

definition PARK_WAKE_RING :: nat where "PARK_WAKE_RING = 256"
definition PARK_FETCH_RING :: nat where "PARK_FETCH_RING = 128"
definition PARK_MAX_WORKERS :: nat where "PARK_MAX_WORKERS = 128"

record park_key_t =
  kfailed :: bool
  kview :: bytes
  kzone :: bytes

record park_wake_ring_t =
  wk :: "park_key_t list"
  whead :: u32
  wtail :: u32
  overflow :: bool
  wdropped :: u64

definition wake_ring_zero :: park_wake_ring_t where
  "wake_ring_zero = \<lparr>wk = replicate PARK_WAKE_RING \<lparr>kfailed = False, kview = [], kzone = []\<rparr>,
     whead = 0, wtail = 0, overflow = False, wdropped = 0\<rparr>"

text \<open>The key that \<open>key_set\<close> stores; \<open>None\<close>: the names do not fit.\<close>

definition key_set :: "bytes option \<Rightarrow> bytes option \<Rightarrow> bool \<Rightarrow> park_key_t option" where
  "key_set view zone failed =
    (if key_fits view zone then Some \<lparr>kfailed = failed, kview = the view, kzone = the zone\<rparr> else None)"

definition park_wake_push :: "park_wake_ring_t \<Rightarrow> bytes option \<Rightarrow> bytes option \<Rightarrow> bool \<Rightarrow> park_wake_ring_t \<times> bool" where
  "park_wake_push r view zone failed =
    (let head = whead r; tail = wtail r in
     if PARK_WAKE_RING \<le> unat (head - tail) \<or> key_set view zone failed = None then
       (r\<lparr>overflow := True, wdropped := wdropped r + 1\<rparr>, False)
     else
       (r\<lparr>wk := (wk r)[unat head mod PARK_WAKE_RING := the (key_set view zone failed)], whead := head + 1\<rparr>, True))"

definition park_wake_pop :: "park_wake_ring_t \<Rightarrow> park_wake_ring_t \<times> park_key_t option" where
  "park_wake_pop r =
    (let tail = wtail r; head = whead r in
     if tail = head then (r, None)
     else (r\<lparr>wtail := tail + 1\<rparr>, Some (wk r ! (unat tail mod PARK_WAKE_RING))))"

definition park_wake_pending :: "park_wake_ring_t \<Rightarrow> bool" where
  "park_wake_pending r \<longleftrightarrow> whead r \<noteq> wtail r \<or> overflow r"

definition park_wake_take_overflow :: "park_wake_ring_t \<Rightarrow> park_wake_ring_t \<times> bool" where
  "park_wake_take_overflow r = (r\<lparr>overflow := False\<rparr>, overflow r)"

section \<open>Fetch rings\<close>

record park_fetch_req_t =
  prio :: u8
  fmode :: u8
  fview :: bytes
  fzone :: bytes

record park_fetch_ring_t =
  fq :: "park_fetch_req_t list"
  fhead :: u32
  ftail :: u32
  fdropped :: u64

definition zero_req :: park_fetch_req_t where
  "zero_req = \<lparr>prio = 0, fmode = 0, fview = [], fzone = []\<rparr>"

definition fetch_ring_zero :: park_fetch_ring_t where
  "fetch_ring_zero = \<lparr>fq = replicate PARK_FETCH_RING zero_req, fhead = 0, ftail = 0, fdropped = 0\<rparr>"

definition park_fetch_push ::
  "park_fetch_ring_t \<Rightarrow> bytes option \<Rightarrow> bytes option \<Rightarrow> u8 \<Rightarrow> u8 \<Rightarrow> park_fetch_ring_t \<times> bool" where
  "park_fetch_push r view zone pr mode =
    (let head = fhead r; tail = ftail r in
     if \<not> key_fits view zone \<or> PARK_FETCH_RING \<le> unat (head - tail) then (r\<lparr>fdropped := fdropped r + 1\<rparr>, False)
     else (r\<lparr>fq := (fq r)[unat head mod PARK_FETCH_RING := \<lparr>prio = pr, fmode = mode, fview = the view, fzone = the zone\<rparr>],
             fhead := head + 1\<rparr>, True))"

definition park_fetch_pop :: "park_fetch_ring_t \<Rightarrow> park_fetch_ring_t \<times> park_fetch_req_t option" where
  "park_fetch_pop r =
    (let tail = ftail r; head = fhead r in
     if tail = head then (r, None)
     else (r\<lparr>ftail := tail + 1\<rparr>, Some (fq r ! (unat tail mod PARK_FETCH_RING))))"

section \<open>The rings of all workers\<close>

definition PARK_XFR_SLOTS :: nat where "PARK_XFR_SLOTS = 16"
definition PARK_BG_SLOTS :: nat where "PARK_BG_SLOTS = 4096"
definition PARK_BG_MS :: int where "PARK_BG_MS = 5000"
definition PARK_WAKE_IDENT :: nat where "PARK_WAKE_IDENT = 0x7061726b"
definition PARK_FETCH_IDENT :: nat where "PARK_FETCH_IDENT = 0x66657463"
definition KDB_FETCH_PRIO_BACKGROUND :: u8 where "KDB_FETCH_PRIO_BACKGROUND = 2"
definition KDB_FETCH_FULL :: u8 where "KDB_FETCH_FULL = 0"

text \<open>The static variables of the file, and the events triggered so far.\<close>

record park_globals =
  g_wake :: "park_wake_ring_t list"
  g_fetch :: "park_fetch_ring_t list"
  g_wkq :: "int list"
  g_wreg :: "bool list"
  g_ingest_kq :: int
  g_fetch_rr :: u32
  g_xfr_q :: "park_fetch_req_t list"
  g_xfr_st :: "u8 list"
  g_bg_key :: "u64 list"
  g_bg_at :: "int list"
  g_events :: "(int \<times> nat) list"

definition park_globals_init :: park_globals where
  "park_globals_init = \<lparr>g_wake = replicate PARK_MAX_WORKERS wake_ring_zero, g_fetch = replicate PARK_MAX_WORKERS fetch_ring_zero,
     g_wkq = replicate PARK_MAX_WORKERS 0, g_wreg = replicate PARK_MAX_WORKERS False, g_ingest_kq = -1, g_fetch_rr = 0,
     g_xfr_q = replicate PARK_XFR_SLOTS zero_req, g_xfr_st = replicate PARK_XFR_SLOTS 0,
     g_bg_key = replicate PARK_BG_SLOTS 0, g_bg_at = replicate PARK_BG_SLOTS 0, g_events = []\<rparr>"

definition worker_in_range :: "int \<Rightarrow> bool" where
  "worker_in_range w \<longleftrightarrow> 0 \<le> w \<and> w < int PARK_MAX_WORKERS"

definition park_register_worker :: "int \<Rightarrow> int \<Rightarrow> park_globals \<Rightarrow> park_globals" where
  "park_register_worker w kq g =
    (if \<not> worker_in_range w then g
     else g\<lparr>g_wkq := (g_wkq g)[nat w := kq], g_wreg := (g_wreg g)[nat w := True]\<rparr>)"

definition park_unregister_worker :: "int \<Rightarrow> park_globals \<Rightarrow> park_globals" where
  "park_unregister_worker w g =
    (if \<not> worker_in_range w then g else g\<lparr>g_wreg := (g_wreg g)[nat w := False]\<rparr>)"

definition trigger :: "int \<Rightarrow> nat \<Rightarrow> park_globals \<Rightarrow> park_globals" where
  "trigger kq ident g = (if kq < 0 then g else g\<lparr>g_events := g_events g @ [(kq, ident)]\<rparr>)"

definition broadcast_one :: "bytes option \<Rightarrow> bytes option \<Rightarrow> bool \<Rightarrow> nat \<Rightarrow> park_globals \<Rightarrow> park_globals" where
  "broadcast_one view zone failed w g =
    (if \<not> g_wreg g ! w then g
     else trigger (g_wkq g ! w) PARK_WAKE_IDENT
            (g\<lparr>g_wake := (g_wake g)[w := fst (park_wake_push (g_wake g ! w) view zone failed)]\<rparr>))"

definition park_wake_broadcast :: "bytes option \<Rightarrow> bytes option \<Rightarrow> bool \<Rightarrow> park_globals \<Rightarrow> park_globals" where
  "park_wake_broadcast view zone failed g = fold (broadcast_one view zone failed) [0..<PARK_MAX_WORKERS] g"

definition park_fetch_set_notify :: "int \<Rightarrow> park_globals \<Rightarrow> park_globals" where
  "park_fetch_set_notify kq g = g\<lparr>g_ingest_kq := kq\<rparr>"

definition park_fetch_request :: "int \<Rightarrow> bytes option \<Rightarrow> bytes option \<Rightarrow> u8 \<Rightarrow> u8 \<Rightarrow> park_globals \<Rightarrow> park_globals \<times> bool" where
  "park_fetch_request w view zone pr mode g =
    (if \<not> worker_in_range w then (g, False)
     else case park_fetch_push (g_fetch g ! nat w) view zone pr mode of
            (r, ok) \<Rightarrow>
              let g = g\<lparr>g_fetch := (g_fetch g)[nat w := r]\<rparr> in
              if ok then (trigger (g_ingest_kq g) PARK_FETCH_IDENT g, True) else (g, False))"

text \<open>The first free slot, filled and made ready.\<close>

definition park_fetch_request_any :: "bytes option \<Rightarrow> bytes option \<Rightarrow> u8 \<Rightarrow> u8 \<Rightarrow> park_globals \<Rightarrow> park_globals \<times> bool" where
  "park_fetch_request_any view zone pr mode g =
    (if \<not> key_fits view zone then (g, False)
     else case find (\<lambda>i. g_xfr_st g ! i = 0) [0..<PARK_XFR_SLOTS] of
            None \<Rightarrow> (g, False)
          | Some i \<Rightarrow>
              (trigger (g_ingest_kq g) PARK_FETCH_IDENT
                 (g\<lparr>g_xfr_q := (g_xfr_q g)[i := \<lparr>prio = pr, fmode = mode, fview = the view, fzone = the zone\<rparr>],
                    g_xfr_st := (g_xfr_st g)[i := 2]\<rparr>), True))"

definition bg_fnv :: "u8 \<Rightarrow> u64 \<Rightarrow> u64" where
  "bg_fnv b h = (h XOR ucast b) * 1099511628211"

definition bg_hash :: "bytes \<Rightarrow> bytes \<Rightarrow> u64" where
  "bg_hash view zone = fold (\<lambda>c. bg_fnv (c OR 0x20)) zone (bg_fnv 0xFF (fold bg_fnv view 1469598103934665603)) OR 1"

definition park_bg_fetch :: "int \<Rightarrow> bytes \<Rightarrow> bytes \<Rightarrow> park_globals \<Rightarrow> park_globals" where
  "park_bg_fetch now view zone g =
    (let h = bg_hash view zone;
         i = unat h mod PARK_BG_SLOTS
     in if g_bg_key g ! i = h \<and> now - g_bg_at g ! i < PARK_BG_MS then g
        else case park_fetch_request_any (Some view) (Some zone) KDB_FETCH_PRIO_BACKGROUND KDB_FETCH_FULL g of
               (g, False) \<Rightarrow> g
             | (g, True) \<Rightarrow> g\<lparr>g_bg_at := (g_bg_at g)[i := now], g_bg_key := (g_bg_key g)[i := h]\<rparr>)"

text \<open>One source of the round robin: worker \<open>w\<close>, or the slots of the transfer threads.\<close>

definition fetch_source :: "nat \<Rightarrow> park_globals \<Rightarrow> (park_globals \<times> park_fetch_req_t) option" where
  "fetch_source w g =
    (if w = PARK_MAX_WORKERS then
       (case find (\<lambda>k. g_xfr_st g ! k = 2) [0..<PARK_XFR_SLOTS] of
          Some k \<Rightarrow> Some (g\<lparr>g_xfr_st := (g_xfr_st g)[k := 0]\<rparr>, g_xfr_q g ! k)
        | None \<Rightarrow> None)
     else
       (case park_fetch_pop (g_fetch g ! w) of
          (r, Some q) \<Rightarrow> Some (g\<lparr>g_fetch := (g_fetch g)[w := r]\<rparr>, q)
        | (r, None) \<Rightarrow> None))"

fun fetch_scan :: "nat list \<Rightarrow> park_globals \<Rightarrow> park_globals \<times> park_fetch_req_t option" where
  "fetch_scan [] g = (g, None)"
| "fetch_scan (w # ws) g =
    (case fetch_source w g of Some (g', q) \<Rightarrow> (g', Some q) | None \<Rightarrow> fetch_scan ws g)"

definition fetch_order :: "u32 \<Rightarrow> nat list" where
  "fetch_order start = map (\<lambda>i. unat (start + word_of_nat i) mod (PARK_MAX_WORKERS + 1)) [0..<PARK_MAX_WORKERS + 1]"

definition park_fetch_next :: "park_globals \<Rightarrow> park_globals \<times> park_fetch_req_t option" where
  "park_fetch_next g =
    (let start = g_fetch_rr g in fetch_scan (fetch_order start) (g\<lparr>g_fetch_rr := start + 1\<rparr>))"

section \<open>Rings as queues\<close>

text \<open>The \<open>n\<close> elements of the ring \<open>q\<close> of size \<open>N\<close> from index \<open>t\<close> on.\<close>

definition ring_seq :: "nat \<Rightarrow> 'a list \<Rightarrow> nat \<Rightarrow> nat \<Rightarrow> 'a list" where
  "ring_seq N q t n = map (\<lambda>i. q ! ((t + i) mod N)) [0..<n]"

lemma length_ring_seq [simp]: "length (ring_seq N q t n) = n"
  by (simp add: ring_seq_def)

lemma ring_seq_mod: "t mod N = t' mod N \<Longrightarrow> ring_seq N q t n = ring_seq N q t' n"
  unfolding ring_seq_def by (metis mod_add_left_eq)

lemma slot_neq: "i < n \<Longrightarrow> n < N \<Longrightarrow> (t + i) mod N \<noteq> (t + n) mod (N :: nat)"
proof
  assume a: "i < n" "n < N" "(t + i) mod N = (t + n) mod N"
  then have "N dvd (t + n) - (t + i)" by (metis mod_eq_dvd_iff_nat add_le_cancel_left less_imp_le_nat)
  then show False using a(1,2) by (simp add: nat_dvd_not_less)
qed

lemma ring_seq_snoc:
  assumes "n < N" "length q = N"
  shows "ring_seq N (q[(t + n) mod N := x]) t (Suc n) = ring_seq N q t n @ [x]"
proof -
  have "q[(t + n) mod N := x] ! ((t + i) mod N) = q ! ((t + i) mod N)" if "i < n" for i
    using slot_neq [OF that assms(1), of t] by simp
  then show ?thesis using assms by (auto simp: ring_seq_def)
qed

lemma ring_seq_Suc: "ring_seq N q t (Suc n) = q ! (t mod N) # ring_seq N q (t + 1) n"
  unfolding ring_seq_def by (simp add: map_upt_Suc del: upt_Suc)

lemma slot_add:
  assumes "N dvd 2 ^ 32"
  shows "unat (a + b :: u32) mod N = (unat a + unat b) mod N"
  using assms by (simp add: unat_word_ariths mod_mod_cancel)

text \<open>
  The contract of a bounded queue: \<open>contents\<close> of a well-formed queue; \<open>push\<close> of an item that is
  acceptable (\<open>item\<close>) appends it exactly when there is room, \<open>pop\<close> takes the oldest item.
\<close>

locale bounded_queue =
  fixes push :: "'r \<Rightarrow> 'a \<Rightarrow> 'r \<times> bool"
    and pop :: "'r \<Rightarrow> 'r \<times> 'x option"
    and item :: "'a \<Rightarrow> 'x option"
    and contents :: "'r \<Rightarrow> 'x list"
    and wf :: "'r \<Rightarrow> bool"
    and size_max :: nat
  assumes push_law: "wf r \<Longrightarrow>
      wf (fst (push r a)) \<and>
      (case item a of
         Some x \<Rightarrow> if length (contents r) < size_max then snd (push r a) \<and> contents (fst (push r a)) = contents r @ [x]
                   else \<not> snd (push r a) \<and> contents (fst (push r a)) = contents r
       | None \<Rightarrow> \<not> snd (push r a) \<and> contents (fst (push r a)) = contents r)"
    and pop_law: "wf r \<Longrightarrow>
      wf (fst (pop r)) \<and>
      (case contents r of
         [] \<Rightarrow> pop r = (r, None)
       | x # xs \<Rightarrow> snd (pop r) = Some x \<and> contents (fst (pop r)) = xs)"
begin

lemma push_contents:
  assumes "wf r" "snd (push r a)"
  obtains x where "item a = Some x" "contents (fst (push r a)) = contents r @ [x]" "length (contents r) < size_max"
  using push_law [OF assms(1), of a] assms(2) by (auto split: option.splits if_splits)

lemma push_refused: "wf r \<Longrightarrow> \<not> snd (push r a) \<Longrightarrow> contents (fst (push r a)) = contents r"
  using push_law [of r a] by (auto split: option.splits if_splits)

lemma push_wf: "wf r \<Longrightarrow> wf (fst (push r a))"
  using push_law [of r a] by blast

lemma pop_wf: "wf r \<Longrightarrow> wf (fst (pop r))"
  using pop_law [of r] by blast

lemma pop_None: "wf r \<Longrightarrow> snd (pop r) = None \<longleftrightarrow> contents r = []"
  using pop_law [of r] by (auto split: list.splits)

lemma pop_Some: "wf r \<Longrightarrow> contents r = x # xs \<Longrightarrow> snd (pop r) = Some x \<and> contents (fst (pop r)) = xs"
  using pop_law [of r] by simp

text \<open>A call of either side, and what a sequence of calls accepts and delivers.\<close>

fun queue_run :: "'a option list \<Rightarrow> 'r \<Rightarrow> 'r \<times> 'x list \<times> 'x list" where
  "queue_run [] r = (r, [], [])"
| "queue_run (Some a # cs) r =
    (let (r', ok) = push r a; (r'', ins, outs) = queue_run cs r'
     in (r'', if ok then the (item a) # ins else ins, outs))"
| "queue_run (None # cs) r =
    (let (r', x) = pop r; (r'', ins, outs) = queue_run cs r'
     in (r'', ins, case x of Some y \<Rightarrow> y # outs | None \<Rightarrow> outs))"

lemma queue_run_fifo:
  "wf r \<Longrightarrow> queue_run cs r = (r', ins, outs) \<Longrightarrow> wf r' \<and> contents r @ ins = outs @ contents r'"
proof (induction cs r arbitrary: r' ins outs rule: queue_run.induct)
  case (2 a cs r)
  obtain r1 ok where p: "push r a = (r1, ok)" by (cases "push r a")
  obtain r2 i o2 where q: "queue_run cs r1 = (r2, i, o2)" by (metis prod.exhaust)
  have IH: "wf r2 \<and> contents r1 @ i = o2 @ contents r2" using 2(1) [OF p [symmetric] refl _ q] push_wf [OF 2(2), of a] p by simp
  show ?case
  proof (cases ok)
    case True
    then obtain x where "item a = Some x" "contents r1 = contents r @ [x]"
      using push_contents [OF 2(2), of a] p by auto
    then show ?thesis using IH 2(3) p q True by simp
  next
    case False
    then have "contents r1 = contents r" using push_refused [OF 2(2), of a] p by simp
    then show ?thesis using IH 2(3) p q False by simp
  qed
next
  case (3 cs r)
  obtain r1 x where p: "pop r = (r1, x)" by (cases "pop r")
  obtain r2 i o2 where q: "queue_run cs r1 = (r2, i, o2)" by (metis prod.exhaust)
  have IH: "wf r2 \<and> contents r1 @ i = o2 @ contents r2" using 3(1) [OF p [symmetric] refl _ q] pop_wf [OF 3(2)] p by simp
  show ?case
  proof (cases "contents r")
    case Nil
    then have "x = None" "r1 = r" using pop_law [OF 3(2)] p by simp_all
    then show ?thesis using IH 3(3) p q by simp
  next
    case (Cons y ys)
    then have "x = Some y" "contents r1 = ys" using pop_Some [OF 3(2) Cons] p by simp_all
    then show ?thesis using IH 3(3) p q Cons by simp
  qed
qed simp

end

subsection \<open>The two rings\<close>

definition wake_contents :: "park_wake_ring_t \<Rightarrow> park_key_t list" where
  "wake_contents r = ring_seq PARK_WAKE_RING (wk r) (unat (wtail r)) (unat (whead r - wtail r))"

definition wake_ok :: "park_wake_ring_t \<Rightarrow> bool" where
  "wake_ok r \<longleftrightarrow> length (wk r) = PARK_WAKE_RING \<and> unat (whead r - wtail r) \<le> PARK_WAKE_RING"

definition fetch_contents :: "park_fetch_ring_t \<Rightarrow> park_fetch_req_t list" where
  "fetch_contents r = ring_seq PARK_FETCH_RING (fq r) (unat (ftail r)) (unat (fhead r - ftail r))"

definition fetch_ok :: "park_fetch_ring_t \<Rightarrow> bool" where
  "fetch_ok r \<longleftrightarrow> length (fq r) = PARK_FETCH_RING \<and> unat (fhead r - ftail r) \<le> PARK_FETCH_RING"

definition req_item :: "bytes option \<times> bytes option \<times> u8 \<times> u8 \<Rightarrow> park_fetch_req_t option" where
  "req_item = (\<lambda>(view, zone, pr, mode).
     if key_fits view zone then Some \<lparr>prio = pr, fmode = mode, fview = the view, fzone = the zone\<rparr> else None)"

text \<open>Index arithmetic of a ring whose size \<open>N\<close> divides 2^32, at the width of the indices.\<close>

lemma ring_push_step:
  fixes h t :: u32
  assumes "length q = N" "N dvd 2 ^ 32" "N < 2 ^ 32" "unat (h - t) < N"
  shows "unat (h + 1 - t) = Suc (unat (h - t))"
    and "ring_seq N (q[unat h mod N := x]) (unat t) (unat (h + 1 - t)) = ring_seq N q (unat t) (unat (h - t)) @ [x]"
proof -
  have "unat (h - t + 1) = Suc (unat (h - t))"
    using assms(3,4) by (subst unat_add_lem [THEN iffD1]) simp_all
  then show s: "unat (h + 1 - t) = Suc (unat (h - t))" by (simp add: diff_add_eq)
  have "unat h mod N = (unat t + unat (h - t)) mod N" using slot_add [OF assms(2), of t "h - t"] by simp
  then show "ring_seq N (q[unat h mod N := x]) (unat t) (unat (h + 1 - t)) = ring_seq N q (unat t) (unat (h - t)) @ [x]"
    using ring_seq_snoc [OF assms(4,1)] s by simp
qed

lemma ring_pop_step:
  fixes h t :: u32
  assumes "N dvd 2 ^ 32" "h \<noteq> t"
  shows "unat (h - t) = Suc (unat (h - (t + 1)))"
    and "ring_seq N q (unat t) (unat (h - t)) = q ! (unat t mod N) # ring_seq N q (unat (t + 1)) (unat (h - (t + 1)))"
proof -
  have "h - t \<noteq> 0" using assms(2) by simp
  then have "unat (h - t) = Suc (unat (h - t - 1))" by (metis Suc_pred' unat_minus_one unat_gt_0)
  then show s: "unat (h - t) = Suc (unat (h - (t + 1)))" by (simp add: diff_diff_eq)
  have "(unat t + 1) mod N = unat (t + 1) mod N" using slot_add [OF assms(1), of t 1] by simp
  then show "ring_seq N q (unat t) (unat (h - t)) = q ! (unat t mod N) # ring_seq N q (unat (t + 1)) (unat (h - (t + 1)))"
    unfolding s ring_seq_Suc by (intro arg_cong2 [where f = Cons] refl ring_seq_mod)
qed

interpretation wake_queue: bounded_queue
  "\<lambda>r (view, zone, failed). park_wake_push r view zone failed" park_wake_pop
  "\<lambda>(view, zone, failed). key_set view zone failed" wake_contents wake_ok PARK_WAKE_RING
proof
  fix r and a :: "bytes option \<times> bytes option \<times> bool"
  assume ok: "wake_ok r"
  obtain v z f where a: "a = (v, z, f)" by (cases a)
  show "wake_ok (fst (case a of (view, zone, failed) \<Rightarrow> park_wake_push r view zone failed)) \<and>
    (case case a of (view, zone, failed) \<Rightarrow> key_set view zone failed of
       None \<Rightarrow> \<not> snd (case a of (view, zone, failed) \<Rightarrow> park_wake_push r view zone failed) \<and>
         wake_contents (fst (case a of (view, zone, failed) \<Rightarrow> park_wake_push r view zone failed)) = wake_contents r
     | Some x \<Rightarrow>
         if length (wake_contents r) < PARK_WAKE_RING
         then snd (case a of (view, zone, failed) \<Rightarrow> park_wake_push r view zone failed) \<and>
           wake_contents (fst (case a of (view, zone, failed) \<Rightarrow> park_wake_push r view zone failed)) = wake_contents r @ [x]
         else \<not> snd (case a of (view, zone, failed) \<Rightarrow> park_wake_push r view zone failed) \<and>
           wake_contents (fst (case a of (view, zone, failed) \<Rightarrow> park_wake_push r view zone failed)) = wake_contents r)"
    using ok ring_push_step [of "wk r" PARK_WAKE_RING "whead r" "wtail r"]
    by (auto simp: a park_wake_push_def Let_def wake_ok_def wake_contents_def PARK_WAKE_RING_def split: option.splits)
next
  fix r
  assume ok: "wake_ok r"
  show "wake_ok (fst (park_wake_pop r)) \<and>
    (case wake_contents r of [] \<Rightarrow> park_wake_pop r = (r, None)
     | x # xs \<Rightarrow> snd (park_wake_pop r) = Some x \<and> wake_contents (fst (park_wake_pop r)) = xs)"
  proof (cases "whead r = wtail r")
    case True
    then show ?thesis using ok by (simp add: park_wake_pop_def wake_contents_def ring_seq_def)
  next
    case False
    have d: "PARK_WAKE_RING dvd 2 ^ 32" by (simp add: PARK_WAKE_RING_def)
    show ?thesis using ok False ring_pop_step(1) [OF d False] ring_pop_step(2) [OF d False, of "wk r"]
      by (auto simp: park_wake_pop_def Let_def wake_contents_def wake_ok_def)
  qed
qed

interpretation fetch_queue: bounded_queue
  "\<lambda>r (view, zone, pr, mode). park_fetch_push r view zone pr mode" park_fetch_pop
  req_item fetch_contents fetch_ok PARK_FETCH_RING
proof
  fix r and a :: "bytes option \<times> bytes option \<times> u8 \<times> u8"
  assume ok: "fetch_ok r"
  obtain v z pr m where a: "a = (v, z, pr, m)" by (cases a)
  show "fetch_ok (fst (case a of (view, zone, pr, mode) \<Rightarrow> park_fetch_push r view zone pr mode)) \<and>
    (case req_item a of
       None \<Rightarrow> \<not> snd (case a of (view, zone, pr, mode) \<Rightarrow> park_fetch_push r view zone pr mode) \<and>
         fetch_contents (fst (case a of (view, zone, pr, mode) \<Rightarrow> park_fetch_push r view zone pr mode)) = fetch_contents r
     | Some x \<Rightarrow>
         if length (fetch_contents r) < PARK_FETCH_RING
         then snd (case a of (view, zone, pr, mode) \<Rightarrow> park_fetch_push r view zone pr mode) \<and>
           fetch_contents (fst (case a of (view, zone, pr, mode) \<Rightarrow> park_fetch_push r view zone pr mode)) = fetch_contents r @ [x]
         else \<not> snd (case a of (view, zone, pr, mode) \<Rightarrow> park_fetch_push r view zone pr mode) \<and>
           fetch_contents (fst (case a of (view, zone, pr, mode) \<Rightarrow> park_fetch_push r view zone pr mode)) = fetch_contents r)"
    using ok ring_push_step [of "fq r" PARK_FETCH_RING "fhead r" "ftail r"]
    by (auto simp: a req_item_def park_fetch_push_def Let_def fetch_ok_def fetch_contents_def PARK_FETCH_RING_def)
next
  fix r
  assume ok: "fetch_ok r"
  show "fetch_ok (fst (park_fetch_pop r)) \<and>
    (case fetch_contents r of [] \<Rightarrow> park_fetch_pop r = (r, None)
     | x # xs \<Rightarrow> snd (park_fetch_pop r) = Some x \<and> fetch_contents (fst (park_fetch_pop r)) = xs)"
  proof (cases "fhead r = ftail r")
    case True
    then show ?thesis using ok by (simp add: park_fetch_pop_def fetch_contents_def ring_seq_def)
  next
    case False
    have d: "PARK_FETCH_RING dvd 2 ^ 32" by (simp add: PARK_FETCH_RING_def)
    show ?thesis using ok False ring_pop_step(1) [OF d False] ring_pop_step(2) [OF d False, of "fq r"]
      by (auto simp: park_fetch_pop_def Let_def fetch_contents_def fetch_ok_def)
  qed
qed

section \<open>One producer and one consumer\<close>

text \<open>
  Where each side is: after the loads of \<open>head\<close> and \<open>tail\<close>, before the slot is complete, before
  the new index is stored.  \<open>sent\<close> and \<open>received\<close> record the keys whose index was stored.
\<close>

datatype prod_pc = P_idle | P_head "park_key_t option" u32 | P_tail "park_key_t option" u32 u32
  | P_write park_key_t u32 | P_publish park_key_t u32 | P_drop
datatype cons_pc = C_idle | C_tail u32 | C_head u32 u32 | C_done u32 park_key_t

record wake_sys =
  ring :: park_wake_ring_t
  ppc :: prod_pc
  cpc :: cons_pc
  sent :: "park_key_t list"
  received :: "park_key_t list"

inductive wake_step :: "wake_sys \<Rightarrow> wake_sys \<Rightarrow> bool" where
  push_head: "ppc s = P_idle \<Longrightarrow> wake_step s (s\<lparr>ppc := P_head (key_set view zone failed) (whead (ring s))\<rparr>)"
| push_tail: "ppc s = P_head k h \<Longrightarrow> wake_step s (s\<lparr>ppc := P_tail k h (wtail (ring s))\<rparr>)"
| push_full: "ppc s = P_tail k h t \<Longrightarrow> PARK_WAKE_RING \<le> unat (h - t) \<or> k = None \<Longrightarrow>
    wake_step s (s\<lparr>ring := (ring s)\<lparr>overflow := True\<rparr>, ppc := P_drop\<rparr>)"
| push_drop: "ppc s = P_drop \<Longrightarrow>
    wake_step s (s\<lparr>ring := (ring s)\<lparr>wdropped := wdropped (ring s) + 1\<rparr>, ppc := P_idle\<rparr>)"
| push_begin: "ppc s = P_tail (Some k) h t \<Longrightarrow> unat (h - t) < PARK_WAKE_RING \<Longrightarrow>
    wake_step s (s\<lparr>ring := (ring s)\<lparr>wk := (wk (ring s))[unat h mod PARK_WAKE_RING := torn]\<rparr>, ppc := P_write k h\<rparr>)"
| push_write: "ppc s = P_write k h \<Longrightarrow>
    wake_step s (s\<lparr>ring := (ring s)\<lparr>wk := (wk (ring s))[unat h mod PARK_WAKE_RING := k]\<rparr>, ppc := P_publish k h\<rparr>)"
| push_publish: "ppc s = P_publish k h \<Longrightarrow>
    wake_step s (s\<lparr>ring := (ring s)\<lparr>whead := h + 1\<rparr>, ppc := P_idle, sent := sent s @ [k]\<rparr>)"
| pop_tail: "cpc s = C_idle \<Longrightarrow> wake_step s (s\<lparr>cpc := C_tail (wtail (ring s))\<rparr>)"
| pop_head: "cpc s = C_tail t \<Longrightarrow> wake_step s (s\<lparr>cpc := C_head t (whead (ring s))\<rparr>)"
| pop_empty: "cpc s = C_head t t \<Longrightarrow> wake_step s (s\<lparr>cpc := C_idle\<rparr>)"
| pop_read: "cpc s = C_head t h \<Longrightarrow> t \<noteq> h \<Longrightarrow> wake_step s (s\<lparr>cpc := C_done t (wk (ring s) ! (unat t mod PARK_WAKE_RING))\<rparr>)"
| pop_publish: "cpc s = C_done t k \<Longrightarrow>
    wake_step s (s\<lparr>ring := (ring s)\<lparr>wtail := t + 1\<rparr>, cpc := C_idle, received := received s @ [k]\<rparr>)"
| take_overflow: "cpc s = C_idle \<Longrightarrow> wake_step s (s\<lparr>ring := (ring s)\<lparr>overflow := False\<rparr>\<rparr>)"

definition wake_start :: "wake_sys \<Rightarrow> bool" where
  "wake_start s \<longleftrightarrow> s = \<lparr>ring = wake_ring_zero, ppc = P_idle, cpc = C_idle, sent = [], received = []\<rparr>"

text \<open>The invariant, with \<open>H\<close> keys sent and \<open>T\<close> received.\<close>

definition prod_inv :: "nat \<Rightarrow> nat \<Rightarrow> park_key_t list \<Rightarrow> prod_pc \<Rightarrow> bool" where
  "prod_inv H T q pc =
    (case pc of
       P_head k h \<Rightarrow> h = word_of_nat H
     | P_tail k h t \<Rightarrow> h = word_of_nat H \<and> (\<exists>T0 \<le> T. t = word_of_nat T0 \<and> T0 \<le> H \<and> H \<le> T0 + PARK_WAKE_RING)
     | P_write k h \<Rightarrow> h = word_of_nat H \<and> H < T + PARK_WAKE_RING
     | P_publish k h \<Rightarrow> h = word_of_nat H \<and> H < T + PARK_WAKE_RING \<and> q ! (H mod PARK_WAKE_RING) = k
     | _ \<Rightarrow> True)"

definition cons_inv :: "nat \<Rightarrow> nat \<Rightarrow> park_key_t list \<Rightarrow> cons_pc \<Rightarrow> bool" where
  "cons_inv H T snt pc =
    (case pc of
       C_tail t \<Rightarrow> t = word_of_nat T
     | C_head t h \<Rightarrow> t = word_of_nat T \<and> (\<exists>H0 \<le> H. h = word_of_nat H0 \<and> T \<le> H0)
     | C_done t k \<Rightarrow> t = word_of_nat T \<and> T < H \<and> k = snt ! T
     | C_idle \<Rightarrow> True)"

definition slots_inv :: "nat \<Rightarrow> nat \<Rightarrow> park_key_t list \<Rightarrow> park_key_t list \<Rightarrow> bool" where
  "slots_inv H T q snt \<longleftrightarrow> (\<forall>i. T \<le> i \<and> i < H \<longrightarrow> q ! (i mod PARK_WAKE_RING) = snt ! i)"

definition wake_inv :: "wake_sys \<Rightarrow> bool" where
  "wake_inv s \<longleftrightarrow>
    (let H = length (sent s); T = length (received s); r = ring s in
     length (wk r) = PARK_WAKE_RING \<and> whead r = word_of_nat H \<and> wtail r = word_of_nat T \<and>
     T \<le> H \<and> H \<le> T + PARK_WAKE_RING \<and> take T (sent s) = received s \<and>
     slots_inv H T (wk r) (sent s) \<and> prod_inv H T (wk r) (ppc s) \<and> cons_inv H T (sent s) (cpc s))"

lemma idx_slot: "unat (word_of_nat n :: u32) mod PARK_WAKE_RING = n mod PARK_WAKE_RING"
  by (simp add: PARK_WAKE_RING_def unsigned_of_nat take_bit_eq_mod mod_mod_cancel)

lemma idx_diff:
  assumes "a \<le> b" "b \<le> a + PARK_WAKE_RING"
  shows "unat (word_of_nat b - word_of_nat a :: u32) = b - a"
proof -
  have "(word_of_nat b - word_of_nat a :: u32) = word_of_nat (b - a)" using assms(1) by (simp add: of_nat_diff)
  moreover have "unat (word_of_nat (b - a) :: u32) = b - a"
    using assms(2) by (simp add: PARK_WAKE_RING_def unsigned_of_nat take_bit_nat_eq_self)
  ultimately show ?thesis by (simp only:)
qed

lemma idx_eq: "a \<le> b \<Longrightarrow> b \<le> a + PARK_WAKE_RING \<Longrightarrow> (word_of_nat a = (word_of_nat b :: u32)) \<longleftrightarrow> a = b"
  using idx_diff [of a b] by (metis diff_is_0_eq diff_self le_antisym order_refl unat_0)

lemma slots_inv_write:
  assumes "slots_inv H T q snt" "H < T + PARK_WAKE_RING"
  shows "slots_inv H T (q[H mod PARK_WAKE_RING := k]) snt"
  unfolding slots_inv_def
proof (intro allI impI)
  fix i assume i: "T \<le> i \<and> i < H"
  then have "i mod PARK_WAKE_RING \<noteq> H mod PARK_WAKE_RING"
    using slot_neq [of 0 "H - i" PARK_WAKE_RING i] assms(2) by force
  then show "q[H mod PARK_WAKE_RING := k] ! (i mod PARK_WAKE_RING) = snt ! i"
    using assms(1) i by (simp add: slots_inv_def)
qed

lemma slots_inv_publish:
  assumes "slots_inv H T q snt" "q ! (H mod PARK_WAKE_RING) = k" "length snt = H"
  shows "slots_inv (Suc H) T q (snt @ [k])"
  using assms by (auto simp: slots_inv_def less_Suc_eq nth_append)

lemma cons_inv_sent: "cons_inv H T snt pc \<Longrightarrow> length snt = H \<Longrightarrow> cons_inv (Suc H) T (snt @ [k]) pc"
  by (fastforce simp: cons_inv_def nth_append le_Suc_eq split: cons_pc.splits)

lemma prod_inv_received: "prod_inv H T q pc \<Longrightarrow> prod_inv H (Suc T) q pc"
  by (fastforce simp: prod_inv_def le_Suc_eq split: prod_pc.splits)

lemma wake_inv_start: "wake_start s \<Longrightarrow> wake_inv s"
  by (simp add: wake_start_def wake_inv_def wake_ring_zero_def slots_inv_def prod_inv_def cons_inv_def)

lemma wake_inv_step:
  assumes inv: "wake_inv s" and st: "wake_step s s'"
  shows "wake_inv s'"
proof -
  let ?H = "length (sent s)" and ?T = "length (received s)"
  have I: "length (wk (ring s)) = PARK_WAKE_RING" "whead (ring s) = word_of_nat ?H" "wtail (ring s) = word_of_nat ?T"
      "?T \<le> ?H" "?H \<le> ?T + PARK_WAKE_RING" "take ?T (sent s) = received s"
    and sl: "slots_inv ?H ?T (wk (ring s)) (sent s)"
    and pi: "prod_inv ?H ?T (wk (ring s)) (ppc s)" and ci: "cons_inv ?H ?T (sent s) (cpc s)"
    using inv unfolding wake_inv_def Let_def by blast+
  from st show ?thesis
  proof (cases rule: wake_step.cases)
    case (push_begin k h t torn)
    then obtain T0 where t: "h = word_of_nat ?H" "T0 \<le> ?T" "t = word_of_nat T0" "T0 \<le> ?H" "?H \<le> T0 + PARK_WAKE_RING"
      using pi by (auto simp: prod_inv_def)
    then have "?H < ?T + PARK_WAKE_RING" using push_begin(3) idx_diff [of T0 ?H] by simp
    moreover from this have "slots_inv ?H ?T ((wk (ring s))[unat h mod PARK_WAKE_RING := torn]) (sent s)"
      using slots_inv_write [OF sl] t(1) by (simp add: idx_slot)
    ultimately show ?thesis using I ci t(1) unfolding push_begin(1) wake_inv_def by (simp add: prod_inv_def)
  next
    case (push_write k h)
    then have h: "h = word_of_nat ?H" "?H < ?T + PARK_WAKE_RING" using pi by (simp_all add: prod_inv_def)
    moreover have "?H mod PARK_WAKE_RING < length (wk (ring s))" using I(1) by (simp add: PARK_WAKE_RING_def)
    ultimately show ?thesis using I ci slots_inv_write [OF sl h(2), of k]
      unfolding push_write(1) wake_inv_def by (simp add: prod_inv_def idx_slot)
  next
    case (push_publish k h)
    then have h: "h = word_of_nat ?H" "?H < ?T + PARK_WAKE_RING" "wk (ring s) ! (?H mod PARK_WAKE_RING) = k"
      using pi by (simp_all add: prod_inv_def)
    have "h + 1 = word_of_nat (Suc ?H)" using h(1) by simp
    moreover have "Suc ?H \<le> ?T + PARK_WAKE_RING" "take ?T (sent s @ [k]) = received s" using h(2) I(4,6) by simp_all
    ultimately show ?thesis using I(1,3,4) slots_inv_publish [OF sl h(3) refl] cons_inv_sent [OF ci refl, of k]
      unfolding push_publish(1) wake_inv_def by (simp add: prod_inv_def del: of_nat_Suc)
  next
    case (pop_read t h)
    then obtain H0 where t: "t = word_of_nat ?T" "H0 \<le> ?H" "h = word_of_nat H0" "?T \<le> H0" using ci by (auto simp: cons_inv_def)
    then have "?T < ?H" using pop_read(3) by (metis le_neq_implies_less le_trans linorder_not_le order_antisym)
    moreover from this have "wk (ring s) ! (unat t mod PARK_WAKE_RING) = sent s ! ?T"
      using sl t(1) by (simp add: slots_inv_def idx_slot)
    ultimately show ?thesis using I sl pi t(1) unfolding pop_read(1) wake_inv_def by (simp add: cons_inv_def)
  next
    case (pop_publish t k)
    then have t: "t = word_of_nat ?T" "?T < ?H" "k = sent s ! ?T" using ci by (simp_all add: cons_inv_def)
    have "slots_inv ?H (Suc ?T) (wk (ring s)) (sent s)" using sl by (simp add: slots_inv_def)
    moreover have "take (Suc ?T) (sent s) = received s @ [k]" using I(6) t by (metis take_Suc_conv_app_nth)
    ultimately show ?thesis using I prod_inv_received [OF pi] t(1,2)
      unfolding pop_publish(1) wake_inv_def by (simp add: cons_inv_def add.commute)
  next
    case (push_tail k h)
    then have "prod_inv ?H ?T (wk (ring s)) (P_tail k h (wtail (ring s)))"
      using pi I(3-5) by (auto simp: prod_inv_def)
    then show ?thesis using I sl ci unfolding push_tail(1) wake_inv_def by simp
  next
    case (pop_head t)
    then have "cons_inv ?H ?T (sent s) (C_head t (whead (ring s)))"
      using ci I(2,4) by (auto simp: cons_inv_def)
    then show ?thesis using I sl pi unfolding pop_head(1) wake_inv_def by simp
  next
    case (push_head view zone failed)
    show ?thesis using I sl ci unfolding push_head(1) wake_inv_def by (simp add: prod_inv_def)
  next
    case (push_full k h t)
    show ?thesis using I sl ci unfolding push_full(1) wake_inv_def by (simp add: prod_inv_def)
  next
    case push_drop
    show ?thesis using I sl ci unfolding push_drop(1) wake_inv_def by (simp add: prod_inv_def)
  next
    case pop_tail
    show ?thesis using I sl pi unfolding pop_tail(1) wake_inv_def by (simp add: cons_inv_def)
  next
    case (pop_empty t)
    show ?thesis using I sl pi unfolding pop_empty(1) wake_inv_def by (simp add: cons_inv_def)
  next
    case take_overflow
    show ?thesis using I sl pi ci unfolding take_overflow(1) wake_inv_def by simp
  qed
qed

interpretation wake_ring_sys: invariant_system wake_start wake_step wake_inv
  by unfold_locales (auto intro: wake_inv_start wake_inv_step)

section \<open>The round robin\<close>

definition globals_ok :: "park_globals \<Rightarrow> bool" where
  "globals_ok g \<longleftrightarrow> length (g_fetch g) = PARK_MAX_WORKERS \<and> (\<forall>r \<in> set (g_fetch g). fetch_ok r)"

text \<open>The requests of the other threads.\<close>

datatype park_req =
    Req_worker int "bytes option" "bytes option" u8 u8
  | Req_any "bytes option" "bytes option" u8 u8
  | Req_bg int bytes bytes

fun park_request :: "park_req \<Rightarrow> park_globals \<Rightarrow> park_globals" where
  "park_request (Req_worker w view zone pr mode) g = fst (park_fetch_request w view zone pr mode g)"
| "park_request (Req_any view zone pr mode) g = fst (park_fetch_request_any view zone pr mode g)"
| "park_request (Req_bg now view zone) g = park_bg_fetch now view zone g"

text \<open>Calls of \<open>park_fetch_next\<close>, before each of which a list of requests arrives.\<close>

fun fetch_trace :: "park_req list list \<Rightarrow> park_globals \<Rightarrow> park_fetch_req_t option list" where
  "fetch_trace [] g = []"
| "fetch_trace (rs # rss) g = (let (g', out) = park_fetch_next (fold park_request rs g) in out # fetch_trace rss g')"

definition worker_waits :: "nat \<Rightarrow> park_fetch_req_t \<Rightarrow> park_globals \<Rightarrow> bool" where
  "worker_waits w q g \<longleftrightarrow> globals_ok g \<and> (\<exists>qs. fetch_contents (g_fetch g ! w) = q # qs)"

lemma trigger_simps [simp]: "g_fetch (trigger kq i g) = g_fetch g" "g_fetch_rr (trigger kq i g) = g_fetch_rr g"
  by (simp_all add: trigger_def)

lemma worker_waits_cong: "g_fetch g' = g_fetch g \<Longrightarrow> worker_waits w q g' = worker_waits w q g"
  by (simp add: worker_waits_def globals_ok_def)

lemma request_any_frame [simp]:
  "g_fetch (fst (park_fetch_request_any v z p m g)) = g_fetch g"
  "g_fetch_rr (fst (park_fetch_request_any v z p m g)) = g_fetch_rr g"
  by (auto simp: park_fetch_request_any_def split: option.splits)

lemma bg_fetch_frame [simp]:
  "g_fetch (park_bg_fetch now v z g) = g_fetch g" "g_fetch_rr (park_bg_fetch now v z g) = g_fetch_rr g"
proof -
  obtain g1 ok where p: "park_fetch_request_any (Some v) (Some z) KDB_FETCH_PRIO_BACKGROUND KDB_FETCH_FULL g = (g1, ok)"
    by fastforce
  then have "g_fetch g1 = g_fetch g" "g_fetch_rr g1 = g_fetch_rr g"
    using request_any_frame [of "Some v" "Some z" KDB_FETCH_PRIO_BACKGROUND KDB_FETCH_FULL g] by simp_all
  then show "g_fetch (park_bg_fetch now v z g) = g_fetch g" "g_fetch_rr (park_bg_fetch now v z g) = g_fetch_rr g"
    by (simp_all add: park_bg_fetch_def Let_def p split: bool.splits)
qed

lemma worker_waits_update:
  assumes "worker_waits w q g" "w < PARK_MAX_WORKERS" "v < PARK_MAX_WORKERS" "fetch_ok r" "v = w \<Longrightarrow> \<exists>qs. fetch_contents r = q # qs"
    and "g_fetch g' = (g_fetch g)[v := r]"
  shows "worker_waits w q g'"
  using assms set_update_subset_insert [of "g_fetch g" v r]
  by (auto simp: worker_waits_def globals_ok_def nth_list_update)

lemma fetch_ok_nth: "globals_ok g \<Longrightarrow> w < PARK_MAX_WORKERS \<Longrightarrow> fetch_ok (g_fetch g ! w)"
  by (simp add: globals_ok_def)

lemma park_fetch_request_waits:
  assumes "worker_waits w q g" "w < PARK_MAX_WORKERS"
  shows "worker_waits w q (fst (park_fetch_request v view zone pr mode g))"
proof (cases "worker_in_range v")
  case False
  then show ?thesis using assms by (simp add: park_fetch_request_def)
next
  case True
  then have v: "nat v < PARK_MAX_WORKERS" by (auto simp: worker_in_range_def)
  let ?a = "(view, zone, pr, mode)" and ?r = "g_fetch g ! nat v"
  obtain r ok where p: "park_fetch_push ?r view zone pr mode = (r, ok)" by fastforce
  have wf: "fetch_ok ?r" using assms(1) v by (simp add: worker_waits_def fetch_ok_nth)
  have "fetch_ok r" using fetch_queue.push_wf [OF wf, of ?a] p by simp
  moreover have "fetch_contents r = fetch_contents ?r \<or> (\<exists>x. fetch_contents r = fetch_contents ?r @ [x])"
    using fetch_queue.push_law [OF wf, of ?a] p by (auto split: option.splits if_splits)
  ultimately show ?thesis
    using assms v p True by (intro worker_waits_update [OF assms(1,2) v, of r])
      (auto simp: park_fetch_request_def Let_def worker_waits_def split: prod.splits)
qed

lemma park_request_waits:
  assumes "worker_waits w q g" "w < PARK_MAX_WORKERS"
  shows "worker_waits w q (park_request rq g)"
proof (cases rq)
  case (Req_worker v view zone pr mode)
  then show ?thesis using park_fetch_request_waits [OF assms] by simp
next
  case (Req_any view zone pr mode)
  then show ?thesis using assms worker_waits_cong [OF request_any_frame(1)] by simp
next
  case (Req_bg now view zone)
  then show ?thesis using assms worker_waits_cong [OF bg_fetch_frame(1)] by simp
qed

lemma fold_request_waits:
  "worker_waits w q g \<Longrightarrow> w < PARK_MAX_WORKERS \<Longrightarrow> worker_waits w q (fold park_request rs g)"
  by (induction rs arbitrary: g) (simp_all add: park_request_waits)

lemma park_request_rr [simp]: "g_fetch_rr (park_request rq g) = g_fetch_rr g"
  by (cases rq) (auto simp: park_fetch_request_def Let_def split: prod.splits)

lemma fold_request_rr [simp]: "g_fetch_rr (fold park_request rs g) = g_fetch_rr g"
  by (induction rs arbitrary: g) simp_all

text \<open>A source other than \<open>w\<close> leaves the ring of \<open>w\<close>; the source \<open>w\<close> delivers its oldest request.\<close>

lemma fetch_source_other:
  assumes "worker_waits w q g" "w < PARK_MAX_WORKERS" "v \<noteq> w" "v \<le> PARK_MAX_WORKERS" "fetch_source v g = Some (g', x)"
  shows "worker_waits w q g' \<and> g_fetch_rr g' = g_fetch_rr g"
proof (cases "v = PARK_MAX_WORKERS")
  case True
  then have "g_fetch g' = g_fetch g" "g_fetch_rr g' = g_fetch_rr g"
    using assms(5) by (auto simp: fetch_source_def split: option.splits)
  then show ?thesis using assms(1) worker_waits_cong by blast
next
  case False
  then have v: "v < PARK_MAX_WORKERS" using assms(4) by simp
  obtain r y where p: "park_fetch_pop (g_fetch g ! v) = (r, y)" by fastforce
  have "fetch_ok r" using fetch_queue.pop_wf [of "g_fetch g ! v"] assms(1) v p by (simp add: worker_waits_def fetch_ok_nth)
  moreover have "g_fetch g' = (g_fetch g)[v := r]" "g_fetch_rr g' = g_fetch_rr g"
    using assms(5) False p by (auto simp: fetch_source_def split: option.splits)
  ultimately show ?thesis using worker_waits_update [OF assms(1,2) v] assms(3) by blast
qed

lemma fetch_source_own:
  assumes "worker_waits w q g" "w < PARK_MAX_WORKERS"
  shows "\<exists>g'. fetch_source w g = Some (g', q)"
proof -
  obtain qs where c: "fetch_contents (g_fetch g ! w) = q # qs" using assms(1) by (auto simp: worker_waits_def)
  have "snd (park_fetch_pop (g_fetch g ! w)) = Some q"
    using fetch_queue.pop_Some [OF _ c] assms by (simp add: worker_waits_def fetch_ok_nth)
  then show ?thesis using assms(2) by (auto simp: fetch_source_def split: prod.splits)
qed

lemma fetch_scan_waits:
  assumes "worker_waits w q g" "w < PARK_MAX_WORKERS" "\<forall>v \<in> set vs. v \<le> PARK_MAX_WORKERS" "fetch_scan vs g = (g', out)"
  shows "out = Some q \<or> worker_waits w q g' \<and> g_fetch_rr g' = g_fetch_rr g"
  using assms
proof (induction vs arbitrary: g)
  case (Cons v vs)
  show ?case
  proof (cases "fetch_source v g")
    case None
    then show ?thesis using Cons by simp
  next
    case (Some r)
    obtain g1 x where r: "r = (g1, x)" by (cases r)
    then have o: "out = Some x" "g' = g1" using Cons.prems(4) Some by simp_all
    show ?thesis
    proof (cases "v = w")
      case True
      then show ?thesis using fetch_source_own [OF Cons.prems(1,2)] Some r o by auto
    next
      case False
      then show ?thesis using fetch_source_other [OF Cons.prems(1,2) False _ ] Cons.prems(3) Some r o by simp
    qed
  qed
qed simp

lemma fetch_order_le: "v \<in> set (fetch_order start) \<Longrightarrow> v \<le> PARK_MAX_WORKERS"
  by (auto simp: fetch_order_def simp flip: less_Suc_eq_le)

lemma fetch_order_Cons: "\<exists>vs. fetch_order start = unat start mod (PARK_MAX_WORKERS + 1) # vs"
  unfolding fetch_order_def by (simp add: map_upt_Suc del: upt_Suc)

lemma fetch_trace_turn:
  assumes "worker_waits w q g" "w < PARK_MAX_WORKERS" "k < length rss"
    and "unat (g_fetch_rr g + word_of_nat k) mod (PARK_MAX_WORKERS + 1) = w"
  shows "Some q \<in> set (fetch_trace rss g)"
  using assms
proof (induction rss arbitrary: g k)
  case (Cons rs rss)
  let ?g = "fold park_request rs g"
  let ?g1 = "?g\<lparr>g_fetch_rr := g_fetch_rr g + 1\<rparr>"
  obtain g' out where n: "fetch_scan (fetch_order (g_fetch_rr g)) ?g1 = (g', out)" by fastforce
  have t: "fetch_trace (rs # rss) g = out # fetch_trace rss g'" by (simp add: park_fetch_next_def n)
  have w: "worker_waits w q ?g1" using fold_request_waits [OF Cons.prems(1,2), of rs] worker_waits_cong [of ?g1 ?g] by simp
  show ?case
  proof (cases k)
    case 0
    then obtain vs where "fetch_order (g_fetch_rr g) = w # vs" using fetch_order_Cons [of "g_fetch_rr g"] Cons.prems(4) by auto
    then show ?thesis using fetch_source_own [OF w Cons.prems(2)] n t by auto
  next
    case (Suc k')
    have "Some q \<in> set (fetch_trace rss g')" if "worker_waits w q g'" "g_fetch_rr g' = g_fetch_rr g + 1"
      using that Cons.prems(2-4) Suc by (intro Cons.IH [of g' k']) (simp_all add: add.assoc)
    moreover have "out = Some q \<or> worker_waits w q g' \<and> g_fetch_rr g' = g_fetch_rr g + 1"
      using fetch_scan_waits [OF w Cons.prems(2) _ n] fetch_order_le by fastforce
    ultimately show ?thesis unfolding t by auto
  qed
qed simp

text \<open>The round robin counter reaches every source within two turns, also when it wraps.\<close>

lemma turn_comes:
  fixes rr :: u32
  assumes "w < 129"
  shows "\<exists>k < 258. unat (rr + word_of_nat k) mod 129 = w"
proof (cases "unat rr + 129 \<le> 2 ^ 32")
  case True
  define k where "k = (w + 129 - unat rr mod 129) mod 129"
  have "k < 129" by (simp add: k_def)
  then have "unat (rr + word_of_nat k) = unat rr + k"
    using True by (simp add: unat_word_ariths unsigned_of_nat take_bit_nat_eq_self)
  moreover have "(unat rr + k) mod 129 = w"
  proof -
    have "(unat rr + k) mod 129 = (unat rr mod 129 + (w + 129 - unat rr mod 129)) mod 129"
      unfolding k_def by (metis mod_add_eq mod_mod_trivial)
    also have "unat rr mod 129 + (w + 129 - unat rr mod 129) = w + 129"
      using mod_less_divisor [of 129 "unat rr"] by linarith
    finally show ?thesis using assms by simp
  qed
  ultimately show ?thesis using \<open>k < 129\<close> by (intro exI [of _ k]) simp
next
  case False
  define k where "k = 2 ^ 32 - unat rr + w"
  have r: "unat rr < 2 ^ 32" using unsigned_less [where 'a = nat and w = rr] by simp
  have k: "k < 258" "unat rr + k = 2 ^ 32 + w" using False assms r by (simp_all add: k_def)
  then have "unat (rr + word_of_nat k) = w"
    using assms by (simp add: unat_word_ariths unsigned_of_nat take_bit_nat_eq_self)
  then show ?thesis using k(1) assms by (intro exI [of _ k]) simp
qed

section \<open>An example run\<close>

text \<open>One key is pushed and the consumer has read the indices.\<close>

definition wake_demo_key :: park_key_t where
  "wake_demo_key = \<lparr>kfailed = False, kview = [0x76], kzone = [0x7A]\<rparr>"

definition wake_demo :: wake_sys where
  "wake_demo = \<lparr>ring = wake_ring_zero\<lparr>wk := (wk wake_ring_zero)[0 := wake_demo_key], whead := 1\<rparr>, ppc = P_idle, cpc = C_tail 0,
     sent = [wake_demo_key], received = []\<rparr>"

lemma wake_demo_reach: "reach wake_start wake_step wake_demo"
proof -
  let ?r = "wake_ring_zero" and ?k = "wake_demo_key"
  let ?s = "\<lambda>r p c snt. \<lparr>ring = r, ppc = p, cpc = c, sent = snt, received = []\<rparr>"
  let ?w = "?r\<lparr>wk := (wk ?r)[0 := ?k]\<rparr>"
  have k: "key_set (Some [0x76]) (Some [0x7A]) False = Some ?k"
    by (simp add: key_set_def key_fits_def wake_demo_key_def PARK_VIEW_MAX_def PARK_ZONE_MAX_def)
  have z: "whead ?r = 0" "wtail ?r = 0" by (simp_all add: wake_ring_zero_def)
  have s0: "reach wake_start wake_step (?s ?r P_idle C_idle [])" by (rule reach_init) (simp add: wake_start_def)
  have "wake_step (?s ?r P_idle C_idle []) (?s ?r (P_head (Some ?k) 0) C_idle [])"
    using push_head [of "?s ?r P_idle C_idle []" "Some [0x76]" "Some [0x7A]" False] by (simp add: k z)
  note s1 = reach_step [OF s0 this]
  have "wake_step (?s ?r (P_head (Some ?k) 0) C_idle []) (?s ?r (P_tail (Some ?k) 0 0) C_idle [])"
    using push_tail [of "?s ?r (P_head (Some ?k) 0) C_idle []" "Some ?k" 0] by (simp add: z)
  note s2 = reach_step [OF s1 this]
  have "wake_step (?s ?r (P_tail (Some ?k) 0 0) C_idle []) (?s ?w (P_write ?k 0) C_idle [])"
    using push_begin [of "?s ?r (P_tail (Some ?k) 0 0) C_idle []" ?k 0 0 ?k] by (simp add: PARK_WAKE_RING_def)
  note s3 = reach_step [OF s2 this]
  have "wake_step (?s ?w (P_write ?k 0) C_idle []) (?s ?w (P_publish ?k 0) C_idle [])"
    using push_write [of "?s ?w (P_write ?k 0) C_idle []" ?k 0] by simp
  note s4 = reach_step [OF s3 this]
  have "wake_step (?s ?w (P_publish ?k 0) C_idle []) (?s (?w\<lparr>whead := 1\<rparr>) P_idle C_idle [?k])"
    using push_publish [of "?s ?w (P_publish ?k 0) C_idle []" ?k 0] by simp
  note s5 = reach_step [OF s4 this]
  have "wake_step (?s (?w\<lparr>whead := 1\<rparr>) P_idle C_idle [?k]) wake_demo"
    using pop_tail [of "?s (?w\<lparr>whead := 1\<rparr>) P_idle C_idle [?k]"] by (simp add: z wake_demo_def)
  then show ?thesis by (rule reach_step [OF s5])
qed

section \<open>Properties\<close>

text \<open>
  C9.  The wake ring between two threads.  However the accesses of one producer and one consumer
  interleave, also when the 32-bit indices wrap and although the consumer copies a slot while the
  producer may be writing one, the keys the consumer has taken are the keys the producer has
  published, in the same order, without loss, duplicate or torn value; at most 256 are on the way.
\<close>

theorem wake_ring_fifo:
  assumes "reach wake_start wake_step s"
  shows "\<exists>pending. sent s = received s @ pending \<and> length pending \<le> PARK_WAKE_RING"
proof -
  have "wake_inv s" by (rule wake_ring_sys.reach_inv [OF assms])
  then have i: "take (length (received s)) (sent s) = received s" "length (sent s) \<le> length (received s) + PARK_WAKE_RING"
    unfolding wake_inv_def Let_def by blast+
  show ?thesis
    using i append_take_drop_id [of "length (received s)" "sent s"]
    by (intro exI [of _ "drop (length (received s)) (sent s)"]) simp
qed

theorem wake_ring_fifo_witness:
  "\<exists>pending. sent wake_demo = received wake_demo @ pending \<and> length pending \<le> PARK_WAKE_RING \<and> sent wake_demo \<noteq> []"
proof -
  have "sent wake_demo \<noteq> []" by (simp add: wake_demo_def)
  then show ?thesis using wake_ring_fifo [OF wake_demo_reach] by blast
qed

text \<open>
  C12.  No worker is starved.  If the oldest request in the ring of worker \<open>w\<close> is \<open>q\<close>, then
  among the next 258 results of \<open>park_fetch_next\<close> there is \<open>q\<close>, whatever requests workers,
  transfer threads and the query path make in between and also when the round robin counter wraps.
\<close>

theorem park_fetch_fair:
  assumes "globals_ok g" "w < PARK_MAX_WORKERS" "fetch_contents (g_fetch g ! w) = q # qs" "258 \<le> length rss"
  shows "Some q \<in> set (fetch_trace rss g)"
proof -
  have "w < 129" using assms(2) by (simp add: PARK_MAX_WORKERS_def)
  then obtain k where "k < 258" "unat (g_fetch_rr g + word_of_nat k) mod 129 = w" using turn_comes by blast
  then show ?thesis using assms
    by (intro fetch_trace_turn [of w q g k]) (auto simp: worker_waits_def PARK_MAX_WORKERS_def)
qed

definition fetch_demo :: park_globals where
  "fetch_demo = park_globals_init\<lparr>g_fetch := (replicate PARK_MAX_WORKERS fetch_ring_zero)
     [5 := fetch_ring_zero\<lparr>fq := replicate PARK_FETCH_RING (zero_req\<lparr>prio := 7\<rparr>), fhead := 1\<rparr>]\<rparr>"

theorem park_fetch_fair_witness:
  "Some (zero_req\<lparr>prio := 7\<rparr>) \<in> set (fetch_trace (replicate 258 [Req_any (Some [0x76]) (Some [0x61]) 2 0]) fetch_demo)"
proof -
  have "fetch_ok r" if "r \<in> set (g_fetch fetch_demo)" for r
    using that set_update_subset_insert [of "replicate PARK_MAX_WORKERS fetch_ring_zero" 5
        "fetch_ring_zero\<lparr>fq := replicate PARK_FETCH_RING (zero_req\<lparr>prio := 7\<rparr>), fhead := 1\<rparr>"]
    by (auto simp: fetch_demo_def fetch_ok_def fetch_ring_zero_def PARK_FETCH_RING_def)
  then have "globals_ok fetch_demo" by (simp add: globals_ok_def fetch_demo_def)
  moreover have "fetch_contents (g_fetch fetch_demo ! 5) = [zero_req\<lparr>prio := 7\<rparr>]"
    by (simp add: fetch_demo_def fetch_contents_def fetch_ring_zero_def ring_seq_def PARK_MAX_WORKERS_def PARK_FETCH_RING_def)
  ultimately show ?thesis by (intro park_fetch_fair [of fetch_demo 5]) (simp_all add: PARK_MAX_WORKERS_def)
qed

end
