(* ===== verification/Park_Done.thy ===== *)
theory Park_Done
  imports Park
begin

text \<open>
  The parked queries as a worker sees them (\<^verbatim>\<open>src/dns_park.c\<close>): how done entries are handed out, and the
  properties of the table.
\<close>

section \<open>Handing out the done entries\<close>

lemma find_upt_first:
  assumes "P i" "c \<le> i" "i < n"
  obtains j where "find P [c..<n] = Some j" "c \<le> j" "j \<le> i" "P j"
proof (cases "find P [c..<n]")
  case None
  then show thesis using assms by (auto simp: find_None_iff)
next
  case (Some j)
  then obtain k where k: "k < n - c" "P (c + k)" "j = c + k" "\<forall>k' < k. \<not> P (c + k')"
    by (auto simp: find_Some_iff)
  have "j \<le> i"
  proof (rule ccontr)
    assume "\<not> j \<le> i"
    then have "i - c < k" using assms(2) k(3) by simp
    then have "\<not> P (c + (i - c))" using k(4) by blast
    then show False using assms(1,2) by simp
  qed
  then show thesis using k Some by (intro that) auto
qed

lemma park_next_done_finds:
  assumes ok: "park_ok t" and p: "parked t i = Some e" "is_done e" and c: "c \<le> i"
  shows "\<exists>j. park_next_done t c = (Some j, j + 1) \<and> c \<le> j \<and> j \<le> i \<and> is_done (ents t ! j)"
proof -
  have e: "i < pcap t" "ents t ! i = e" using p(1) park_ok_len [OF ok] by (auto simp: parked_def split: if_splits)
  have "e \<in> set (filter is_done (ents t))" using ents_member [OF p(1)] p(2) by simp
  then have "nready t \<noteq> 0" using ok unfolding park_ok_def by (metis length_pos_if_in_set less_numeral_extra(3))
  moreover obtain j where "find (\<lambda>j. is_done (ents t ! j)) [c..<pcap t] = Some j" "c \<le> j" "j \<le> i" "is_done (ents t ! j)"
    using find_upt_first [of "\<lambda>j. is_done (ents t ! j)" i c "pcap t"] e p(2) c by blast
  ultimately show ?thesis using park_ok_ents [OF ok] by (intro exI [of _ j]) (simp add: park_next_done_def)
qed

section \<open>An example table\<close>

text \<open>One connection waits until 1500 for the zone \<open>z.\<close> of the view \<open>v\<close>.\<close>

definition park_demo :: "unit park_table_t" where
  "park_demo = park_exec (Op_tcp 0 1500 (Some [0x76]) (Some [0x7A, 0x2E]) 5 7 1) (fst (park_init 1 True))"

definition park_demo_entry :: "unit park_entry_t" where
  "park_demo_entry = \<lparr>pstate = PARK_WAIT, pkind = PARK_TCP, udp_len = 0, pgen = 1, deadline_ms = 1500,
     pview = [0x76], pzone = [0x7A, 0x2E], punion = U_TCP 5 7 1\<rparr>"

lemma park_demo_reach: "reach park_start park_step park_demo"
proof (rule reach_step [OF reach_init])
  show "park_start (fst (park_init 1 True))" unfolding park_start_def
    by (intro exI [of _ 1] exI [of _ True]) (simp add: park_init_def)
  show "park_step (fst (park_init 1 True)) park_demo" unfolding park_step_def park_demo_def by (rule exI, rule refl)
qed

lemma park_demo_parked: "parked park_demo 0 = Some park_demo_entry"
  by (simp add: parked_def park_demo_def park_demo_entry_def park_tcp_def park_take_def park_init_def zero_table_def zero_entry_def
      key_fits_def PARK_VIEW_MAX_def PARK_ZONE_MAX_def INT64_MAX_def Let_def)

section \<open>Properties\<close>

text \<open>
  C3.  The table of parked queries implements its specification.  In every table that the
  operations produce from a successful \<open>park_init\<close>, each operation changes the set of parked
  queries exactly as documented: parking takes an index that is not in use and is refused only
  when all are in use, a name does not fit or the request is too long; waking, failing, waking all
  and expiring move exactly the waiting entries they name, although the loops stop early and
  \<open>park_expire\<close> trusts the cached smallest deadline; releasing and cancelling remove one entry.
\<close>

theorem park_table_refines:
  assumes "reach park_start park_step t"
  shows "park_spec (pcap t) op (parked t) (parked (park_exec op t))"
  using park_refines [OF park_sys.reach_inv [OF assms]] by blast

theorem park_table_refines_witness:
  "park_spec (pcap park_demo) (Op_expire 1500) (parked park_demo) (parked (park_exec (Op_expire 1500) park_demo)) \<and>
   park_spec (pcap park_demo) (Op_udp 3 9 (Some [0x76]) (Some [0x61]) 4 () [1, 2]) (parked park_demo)
     (parked (park_exec (Op_udp 3 9 (Some [0x76]) (Some [0x61]) 4 () [1, 2]) park_demo))"
  using park_table_refines [OF park_demo_reach] by blast

text \<open>
  C14.  The union of a parked entry is read as what it was written: in every reachable table an
  entry in use has a generation other than 0, and it holds a UDP request of \<open>udp_len\<close> octets, at
  most 4096, exactly when its kind is UDP, and a connection exactly when its kind is TCP.
\<close>

theorem park_union_typed:
  assumes "reach park_start park_step t" "parked t i = Some e"
  shows "pgen e \<noteq> 0 \<and>
    (pkind e = PARK_UDP \<longleftrightarrow> (\<exists>fd ipc payload. punion e = U_UDP fd ipc payload \<and> unat (udp_len e) = length payload \<and>
       length payload \<le> PARK_UDP_MAX)) \<and>
    (pkind e = PARK_TCP \<longleftrightarrow> (\<exists>fd ctx_idx ctx_gen. punion e = U_TCP fd ctx_idx ctx_gen))"
proof -
  have "entry_ok (min_deadline_ms t) e" "pstate e \<noteq> PARK_FREE"
    using park_sys.reach_inv [OF assms(1)] ents_member [OF assms(2)] by (auto simp: park_ok_def)
  then show ?thesis by (auto simp: entry_ok_def union_ok_def split: park_union.splits)
qed

theorem park_union_typed_witness:
  "pgen park_demo_entry \<noteq> 0 \<and> (\<exists>fd ctx_idx ctx_gen. punion park_demo_entry = U_TCP fd ctx_idx ctx_gen)"
proof -
  have "pkind park_demo_entry = PARK_TCP" by (simp add: park_demo_entry_def)
  then show ?thesis using park_union_typed [OF park_demo_reach park_demo_parked] by blast
qed



end
