(* ===== verification/Park_Service.thy ===== *)
theory Park_Service
  imports Park_Ring Park_Done
begin

text \<open>
  The worker's service of its parked queries (\<open>park_service\<close> in \<^verbatim>\<open>src/dns_server_core.c\<close>), up to the point
  where done entries are served: the wake ring is drained into the table, a lost wake wakes
  everything, and deadlines are applied.  \<open>wring\<close> is \<open>None\<close> when the worker has none.
\<close>

section \<open>Draining the ring\<close>

definition service_key :: "park_key_t \<Rightarrow> 'ipc park_table_t \<Rightarrow> 'ipc park_table_t" where
  "service_key k t =
    (if kfailed k then fst (park_fail t (Some (kview k)) (Some (kzone k)))
     else fst (park_wake t (Some (kview k)) (Some (kzone k))))"

lemma pop_decreases: "park_wake_pop r = (r', Some k) \<Longrightarrow> unat (whead r' - wtail r') < unat (whead r - wtail r)"
  using ring_pop_step(1) [of 256 "whead r" "wtail r"] by (auto simp: park_wake_pop_def Let_def split: if_splits)

function drain_loop :: "park_wake_ring_t \<Rightarrow> 'ipc park_table_t \<Rightarrow> park_wake_ring_t \<times> 'ipc park_table_t" where
  "drain_loop r t =
    (case park_wake_pop r of
       (r', None) \<Rightarrow> (r', t)
     | (r', Some k) \<Rightarrow> drain_loop r' (service_key k t))"
  by pat_completeness auto
termination
  by (relation "measure (\<lambda>(r, t). unat (whead r - wtail r))") (auto dest: sym intro: pop_decreases)

declare drain_loop.simps [simp del]

text \<open>Also whether the pass goes on to serve done entries.\<close>

definition park_service_drain ::
  "int \<Rightarrow> park_wake_ring_t option \<Rightarrow> 'ipc park_table_t \<Rightarrow> park_wake_ring_t option \<times> 'ipc park_table_t \<times> bool" where
  "park_service_drain now_ms wring t =
    (if nwait t = 0 \<and> nready t = 0 \<and> \<not> (case wring of Some r \<Rightarrow> park_wake_pending r | None \<Rightarrow> False) then (wring, t, False)
     else
       let (wring, t) =
             (case wring of
                None \<Rightarrow> (None, t)
              | Some r \<Rightarrow>
                  let (r, t) = drain_loop r t;
                      (r, lost) = park_wake_take_overflow r
                  in (Some r, if lost then fst (park_wake_all t) else t));
           t = fst (park_expire t now_ms)
       in (wring, t, nready t \<noteq> 0))"

section \<open>What still waits\<close>

text \<open>\<open>t'\<close> is a good table in which only entries of \<open>t\<close> wait, and none that satisfies \<open>p\<close>.\<close>

definition released :: "('ipc park_entry_t \<Rightarrow> bool) \<Rightarrow> 'ipc park_table_t \<Rightarrow> 'ipc park_table_t \<Rightarrow> bool" where
  "released p t t' \<longleftrightarrow>
    park_ok t' \<and> (\<forall>i e. parked t' i = Some e \<longrightarrow> is_wait e \<longrightarrow> parked t i = Some e \<and> \<not> p e)"

lemma mark_wait: "is_wait (mark p s e) \<Longrightarrow> s \<noteq> PARK_WAIT \<Longrightarrow> mark p s e = e \<and> \<not> p e"
  by (cases "is_wait e \<and> p e") (auto simp: mark_def)

lemma marked_released:
  assumes "marked p s t t'" "s \<noteq> PARK_WAIT"
  shows "released p t t'"
  unfolding released_def
proof (intro conjI allI impI)
  show "park_ok t'" using assms(1) by (simp add: marked_def)
  fix i e assume "parked t' i = Some e" and w: "is_wait e"
  then obtain e0 where e0: "parked t i = Some e0" "e = mark p s e0" using assms(1) by (auto simp: marked_def)
  then show "parked t i = Some e" "\<not> p e" using mark_wait [of p s e0] w assms(2) by simp_all
qed

lemma releasedD: "released p t t' \<Longrightarrow> parked t' i = Some e \<Longrightarrow> is_wait e \<Longrightarrow> \<not> p e"
  by (simp add: released_def)

lemma released_trans: "released p t t' \<Longrightarrow> released p' t' t'' \<Longrightarrow> released (\<lambda>e. p e \<or> p' e) t t''"
  unfolding released_def by blast

lemma released_refl: "park_ok t \<Longrightarrow> released (\<lambda>_. False) t t"
  by (simp add: released_def)

definition waits_for :: "park_key_t \<Rightarrow> 'ipc park_entry_t \<Rightarrow> bool" where
  "waits_for k e \<longleftrightarrow> pview e = kview k \<and> pzone e = kzone k"

lemma waits_for_entry_is: "waits_for k = entry_is (kview k) (kzone k)"
  by (auto simp: fun_eq_iff waits_for_def entry_is_def)

lemma service_key_released: "park_ok t \<Longrightarrow> released (waits_for k) t (service_key k t)"
  unfolding waits_for_entry_is service_key_def
  using marked_released [OF park_fail_marked, of t "kview k" "kzone k"] marked_released [OF park_wake_marked, of t "kview k" "kzone k"]
  by simp

lemma park_wake_pop_overflow: "overflow (fst (park_wake_pop r)) = overflow r"
  by (simp add: park_wake_pop_def Let_def)

lemma drain_loop_released:
  assumes "wake_ok r" "park_ok t" "drain_loop r t = (r', t')"
  shows "wake_ok r' \<and> wake_contents r' = [] \<and> overflow r' = overflow r \<and>
    released (\<lambda>e. \<exists>k \<in> set (wake_contents r). waits_for k e) t t'"
  using assms
proof (induction r t arbitrary: r' t' rule: drain_loop.induct)
  case (1 r t)
  obtain r1 x where p: "park_wake_pop r = (r1, x)" by fastforce
  have r1: "wake_ok r1" "overflow r1 = overflow r"
    using wake_queue.pop_wf [OF 1(2)] park_wake_pop_overflow [of r] p by simp_all
  show ?case
  proof (cases x)
    case None
    then have c: "wake_contents r = []" using wake_queue.pop_None [OF 1(2)] p by simp
    then have "r1 = r" using wake_queue.pop_law [OF 1(2)] p by simp
    moreover have "drain_loop r t = (r1, t)" by (subst drain_loop.simps) (simp add: p None)
    ultimately show ?thesis using 1(2,4) c released_refl [OF 1(3)] by simp
  next
    case (Some k)
    then obtain ks where c: "wake_contents r = k # ks" "wake_contents r1 = ks"
      using wake_queue.pop_law [OF 1(2)] p by (cases "wake_contents r") auto
    have k: "released (waits_for k) t (service_key k t)" by (rule service_key_released [OF 1(3)])
    have "drain_loop r t = drain_loop r1 (service_key k t)" by (subst drain_loop.simps) (simp add: p Some)
    then have d: "drain_loop r1 (service_key k t) = (r', t')" using 1(4) by simp
    have "wake_ok r' \<and> wake_contents r' = [] \<and> overflow r' = overflow r1 \<and>
        released (\<lambda>e. \<exists>k \<in> set (wake_contents r1). waits_for k e) (service_key k t) t'"
      using 1(1) [OF p [symmetric] Some r1(1) _ d] k by (simp add: released_def)
    then show ?thesis using released_trans [OF k] r1(2) c by simp
  qed
qed

section \<open>Properties\<close>

text \<open>
  C7.  A pass of the worker ends and loses no wake.  The loop over the ring terminates and leaves
  it empty with the overflow flag taken.  After the pass no query waits whose deadline is reached,
  none waits for a zone that a key in the ring named, and none waits at all when a key had been
  dropped because the ring was full.
\<close>

theorem park_service_drains:
  assumes "wake_ok r" "reach park_start park_step t" "park_service_drain now_ms (Some r) t = (ring', t', served)"
  shows "(\<exists>r'. ring' = Some r' \<and> wake_ok r' \<and> wake_contents r' = [] \<and> \<not> overflow r') \<and>
    (\<forall>i e. parked t' i = Some e \<and> pstate e = PARK_WAIT \<longrightarrow>
       now_ms < deadline_ms e \<and> \<not> overflow r \<and>
       (\<forall>k \<in> set (wake_contents r). \<not> (pview e = kview k \<and> pzone e = kzone k)))"
proof -
  have ok: "park_ok t" by (rule park_sys.reach_inv [OF assms(2)])
  show ?thesis
  proof (cases "nwait t = 0 \<and> nready t = 0 \<and> \<not> park_wake_pending r")
    case True
    then have "wake_contents r = []" by (simp add: park_wake_pending_def wake_contents_def ring_seq_def)
    moreover have "\<not> is_wait e" if "parked t i = Some e" for i e
      using no_waiting [OF ok] True ents_member [OF that] by blast
    ultimately show ?thesis using True assms(1,3) by (auto simp: park_service_drain_def park_wake_pending_def)
  next
    case False
    obtain r1 t1 where d: "drain_loop r t = (r1, t1)" by fastforce
    note dl = drain_loop_released [OF assms(1) ok d]
    then have ok1: "park_ok t1" and o: "overflow r1 = overflow r" by (simp_all add: released_def)
    define t2 where "t2 = (if overflow r then fst (park_wake_all t1) else t1)"
    have t2: "released (\<lambda>_. overflow r) t1 t2"
      using marked_released [OF park_wake_all_marked [OF ok1]] released_refl [OF ok1] by (auto simp: t2_def)
    then have "released (\<lambda>e. deadline_ms e \<le> now_ms) t2 (fst (park_expire t2 now_ms))"
      by (intro marked_released [OF park_expire_marked]) (simp_all add: released_def)
    then have r: "released (\<lambda>e. ((\<exists>k \<in> set (wake_contents r). waits_for k e) \<or> overflow r) \<or> deadline_ms e \<le> now_ms) t
        (fst (park_expire t2 now_ms))"
      using dl t2 by (intro released_trans [OF released_trans]) simp_all
    have "ring' = Some (r1\<lparr>overflow := False\<rparr>)" "t' = fst (park_expire t2 now_ms)"
      using assms(3) False by (auto simp: park_service_drain_def d o park_wake_take_overflow_def t2_def Let_def)
    moreover have "wake_ok (r1\<lparr>overflow := False\<rparr>) \<and> wake_contents (r1\<lparr>overflow := False\<rparr>) = []"
      using dl by (simp add: wake_ok_def wake_contents_def)
    ultimately show ?thesis using releasedD [OF r] by (auto simp: waits_for_def not_le)
  qed
qed

text \<open>One connection waits, and the ring holds the key of its zone.\<close>

definition service_demo_ring :: park_wake_ring_t where
  "service_demo_ring = wake_ring_zero\<lparr>wk := (wk wake_ring_zero)[0 := \<lparr>kfailed = False, kview = [0x76], kzone = [0x7A, 0x2E]\<rparr>], whead := 1\<rparr>"

theorem park_service_drains_witness:
  "\<not> (\<exists>i e. parked (fst (snd (park_service_drain 10 (Some service_demo_ring) park_demo))) i = Some e \<and>
     pstate e = PARK_WAIT \<and> pview e = [0x76] \<and> pzone e = [0x7A, 0x2E])"
proof -
  obtain ring' t' served where s: "park_service_drain 10 (Some service_demo_ring) park_demo = (ring', t', served)"
    by (metis prod.exhaust)
  have "wake_ok service_demo_ring" by (simp add: service_demo_ring_def wake_ok_def wake_ring_zero_def PARK_WAKE_RING_def)
  moreover have "wake_contents service_demo_ring = [\<lparr>kfailed = False, kview = [0x76], kzone = [0x7A, 0x2E]\<rparr>]"
    by (simp add: service_demo_ring_def wake_contents_def ring_seq_def wake_ring_zero_def PARK_WAKE_RING_def)
  ultimately show ?thesis using park_service_drains [OF _ park_demo_reach s] unfolding s by auto
qed

end
