(* ===== verification/Rcu.thy ===== *)
theory Rcu
  imports Prelude
begin

text \<open>
  Epoch-based reclamation (\<^verbatim>\<open>src/dns_epoch_rcu.c\<close>, \<^verbatim>\<open>src/dns_epoch_rcu.h\<close>).  First the operations as
  functions: the scan over the readers, the bounded wait, the slots of auxiliary threads.  Then
  readers and writers are interleaved, one shared access at a time, in a sequentially
  consistent memory (the fences of the code order the accesses the argument needs).  An object
  is a number; a reader in its section holds the set of objects it has loaded.
\<close>

section \<open>Readers\<close>

definition RCU_EPOCH_IDLE :: u64 where "RCU_EPOCH_IDLE = 0xFFFFFFFFFFFFFFFF"

text \<open>The address of an observed epoch.\<close>

datatype slot_id = Worker nat | Resp_logger | Query_logger | Async_io nat | Aux nat

record rcu_slots =
  s_workers :: "u64 list"
  s_resp :: u64
  s_query :: u64
  s_async :: "u64 list"
  s_async_count :: nat
  s_aux :: "u64 list"

definition epoch_blocks :: "slot_id \<Rightarrow> u64 \<Rightarrow> u64 \<Rightarrow> slot_id option \<Rightarrow> bool" where
  "epoch_blocks observed obs retire_epoch skip =
    (if Some observed = skip then False else obs \<noteq> RCU_EPOCH_IDLE \<and> obs \<le> retire_epoch)"

definition any_blocks :: "(nat \<Rightarrow> slot_id) \<Rightarrow> u64 list \<Rightarrow> u64 \<Rightarrow> slot_id option \<Rightarrow> bool" where
  "any_blocks f obs retire_epoch skip = list_ex (\<lambda>i. epoch_blocks (f i) (obs ! i) retire_epoch skip) [0..<length obs]"

text \<open>One scan of all readers; \<open>s_workers\<close> is empty while the array of workers is not published.\<close>

definition readers_safe :: "rcu_slots \<Rightarrow> u64 \<Rightarrow> slot_id option \<Rightarrow> bool" where
  "readers_safe s retire_epoch skip =
    (if any_blocks Worker (s_workers s) retire_epoch skip then False
     else if epoch_blocks Resp_logger (s_resp s) retire_epoch skip then False
     else if epoch_blocks Query_logger (s_query s) retire_epoch skip then False
     else if any_blocks Async_io (take (s_async_count s) (s_async s)) retire_epoch skip then False
     else if any_blocks Aux (s_aux s) retire_epoch skip then False
     else True)"

definition rcu_writer_is_safe :: "rcu_slots \<Rightarrow> u64 \<Rightarrow> bool" where
  "rcu_writer_is_safe s retire_epoch = readers_safe s retire_epoch None"

section \<open>Waiting\<close>

text \<open>The new counters and the time slept; \<open>None\<close>: the processor was yielded.\<close>

definition rcu_exponential_backoff :: "nat \<Rightarrow> nat \<Rightarrow> nat \<times> nat \<times> nat option" where
  "rcu_exponential_backoff retries sleep_time =
    (if retries < 100 then (retries + 1, sleep_time, None)
     else (retries + 1, if sleep_time < 100000 then sleep_time * 2 else sleep_time, Some sleep_time))"

definition RCU_WAIT_SLEEP_MAX_US :: nat where "RCU_WAIT_SLEEP_MAX_US = 1000"

text \<open>
  The loop.  Each round sees the readers at that moment and, after its sleep, the elapsed time;
  \<open>None\<close>: still waiting after the rounds given.  The warnings are omitted.
\<close>

fun wait_loop :: "u64 \<Rightarrow> int \<Rightarrow> slot_id option \<Rightarrow> nat \<Rightarrow> nat \<Rightarrow> (rcu_slots \<times> int) list \<Rightarrow> bool option" where
  "wait_loop retire_epoch timeout_ms skip retries sleep_time [] = None"
| "wait_loop retire_epoch timeout_ms skip retries sleep_time ((s, elapsed_ms) # rounds) =
    (if readers_safe s retire_epoch skip then Some True
     else
       let (retries, sleep_time, _) = rcu_exponential_backoff retries sleep_time;
           sleep_time = (if RCU_WAIT_SLEEP_MAX_US < sleep_time then RCU_WAIT_SLEEP_MAX_US else sleep_time)
       in if (sleep_time = RCU_WAIT_SLEEP_MAX_US \<or> 0 < timeout_ms) \<and> 0 < timeout_ms \<and> timeout_ms \<le> elapsed_ms
          then Some False
          else wait_loop retire_epoch timeout_ms skip retries sleep_time rounds)"

definition wait_until_safe_impl :: "u64 \<Rightarrow> int \<Rightarrow> slot_id option \<Rightarrow> (rcu_slots \<times> int) list \<Rightarrow> bool option" where
  "wait_until_safe_impl retire_epoch timeout_ms skip rounds = wait_loop retire_epoch timeout_ms skip 0 1 rounds"

definition rcu_writer_wait_until_safe :: "u64 \<Rightarrow> int \<Rightarrow> (rcu_slots \<times> int) list \<Rightarrow> bool option" where
  "rcu_writer_wait_until_safe retire_epoch timeout_ms rounds = wait_until_safe_impl retire_epoch timeout_ms None rounds"

definition rcu_writer_wait_until_safe_in_reader :: "slot_id option \<Rightarrow> u64 \<Rightarrow> int \<Rightarrow> (rcu_slots \<times> int) list \<Rightarrow> bool option" where
  "rcu_writer_wait_until_safe_in_reader t_rcu_own_observed retire_epoch timeout_ms rounds =
     wait_until_safe_impl retire_epoch timeout_ms t_rcu_own_observed rounds"

section \<open>Auxiliary readers\<close>

text \<open>The slots of auxiliary threads and the thread-local variables of one thread.\<close>

record aux_slots =
  aux_observed :: "u64 list"
  aux_in_use :: "bool list"

record aux_thread =
  t_aux_slot :: "nat option"
  t_aux_depth :: nat
  t_aux_pinned :: bool

text \<open>One pass over the slots; \<open>None\<close>: all in use, the thread waits and tries again.\<close>

definition aux_slot_claim :: "aux_slots \<Rightarrow> (aux_slots \<times> nat) option" where
  "aux_slot_claim a =
    (case find (\<lambda>i. \<not> aux_in_use a ! i) [0..<length (aux_in_use a)] of
       Some i \<Rightarrow> Some (a\<lparr>aux_in_use := (aux_in_use a)[i := True]\<rparr>, i)
     | None \<Rightarrow> None)"

definition aux_slot_release :: "nat \<Rightarrow> aux_slots \<Rightarrow> aux_slots" where
  "aux_slot_release i a = a\<lparr>aux_in_use := (aux_in_use a)[i := False]\<rparr>"

definition aux_slot_get :: "aux_slots \<Rightarrow> aux_thread \<Rightarrow> (aux_slots \<times> nat) option" where
  "aux_slot_get a t = (case t_aux_slot t of Some i \<Rightarrow> Some (a, i) | None \<Rightarrow> aux_slot_claim a)"

definition rcu_aux_thread_pin :: "aux_slots \<Rightarrow> aux_thread \<Rightarrow> (aux_slots \<times> aux_thread) option" where
  "rcu_aux_thread_pin a t =
    (if t_aux_pinned t then Some (a, t)
     else case aux_slot_get a t of
            Some (a, i) \<Rightarrow> Some (a, t\<lparr>t_aux_slot := Some i, t_aux_pinned := True\<rparr>)
          | None \<Rightarrow> None)"

definition rcu_aux_thread_unpin :: "aux_slots \<Rightarrow> aux_thread \<Rightarrow> aux_slots \<times> aux_thread" where
  "rcu_aux_thread_unpin a t =
    (if \<not> t_aux_pinned t then (a, t)
     else
       let t = t\<lparr>t_aux_pinned := False\<rparr> in
       case t_aux_slot t of
         Some i \<Rightarrow> if t_aux_depth t = 0 then (aux_slot_release i a, t\<lparr>t_aux_slot := None\<rparr>) else (a, t)
       | None \<Rightarrow> (a, t))"

text \<open>\<open>epoch\<close> is the global epoch when the section is entered.\<close>

definition rcu_aux_read_lock :: "u64 \<Rightarrow> aux_slots \<Rightarrow> aux_thread \<Rightarrow> (aux_slots \<times> aux_thread) option" where
  "rcu_aux_read_lock epoch a t =
    (if 0 < t_aux_depth t then Some (a, t\<lparr>t_aux_depth := t_aux_depth t + 1\<rparr>)
     else case aux_slot_get a t of
            Some (a, i) \<Rightarrow> Some (a\<lparr>aux_observed := (aux_observed a)[i := epoch]\<rparr>, t\<lparr>t_aux_slot := Some i, t_aux_depth := 1\<rparr>)
          | None \<Rightarrow> None)"

definition rcu_aux_read_unlock :: "aux_slots \<Rightarrow> aux_thread \<Rightarrow> aux_slots \<times> aux_thread" where
  "rcu_aux_read_unlock a t =
    (if t_aux_depth t = 0 then (a, t)
     else
       let t = t\<lparr>t_aux_depth := t_aux_depth t - 1\<rparr> in
       if 0 < t_aux_depth t then (a, t)
       else
         let i = the (t_aux_slot t);
             a = a\<lparr>aux_observed := (aux_observed a)[i := RCU_EPOCH_IDLE]\<rparr>
         in if \<not> t_aux_pinned t then (aux_slot_release i a, t\<lparr>t_aux_slot := None\<rparr>) else (a, t))"

section \<open>Readers and writers interleaved\<close>

text \<open>
  A reader outside, after the load of the epoch, or in its section with the objects it loaded; a
  writer idle, after the store of the new pointer, or scanning for the object it replaced.
\<close>

datatype reader_pc = R_out | R_epoch u64 | R_in "nat set"
datatype writer_pc = W_idle | W_stored nat | W_retired nat u64 nat

record rcu_sys =
  g_global_epoch :: u64
  observed_epoch :: "slot_id \<Rightarrow> u64"
  reader :: "slot_id \<Rightarrow> reader_pc"
  published :: nat
  writer :: "nat \<Rightarrow> writer_pc"
  freed :: "nat set"
  known :: "nat set"

text \<open>
  The steps: \<open>rcu_epoch_enter\<close>, a load of the protected pointer, \<open>rcu_epoch_exit\<close>,
  \<open>rcu_writer_publish\<close> with a new object, \<open>rcu_writer_advance_epoch\<close>, \<open>readers_safe\<close> slot by slot
  over \<open>ids\<close>, and freeing the old object.  The epoch stays below the idle mark: 2^64 - 2
  publications never happen.
\<close>

inductive rcu_step :: "slot_id list \<Rightarrow> rcu_sys \<Rightarrow> rcu_sys \<Rightarrow> bool" for ids :: "slot_id list" where
  enter_load: "reader s r = R_out \<Longrightarrow> r \<in> set ids \<Longrightarrow>
    rcu_step ids s (s\<lparr>reader := (reader s)(r := R_epoch (g_global_epoch s))\<rparr>)"
| enter_store: "reader s r = R_epoch e \<Longrightarrow>
    rcu_step ids s (s\<lparr>reader := (reader s)(r := R_in {}), observed_epoch := (observed_epoch s)(r := e)\<rparr>)"
| load_ptr: "reader s r = R_in X \<Longrightarrow>
    rcu_step ids s (s\<lparr>reader := (reader s)(r := R_in (insert (published s) X))\<rparr>)"
| exit_store: "reader s r = R_in X \<Longrightarrow>
    rcu_step ids s (s\<lparr>reader := (reader s)(r := R_out), observed_epoch := (observed_epoch s)(r := RCU_EPOCH_IDLE)\<rparr>)"
| publish: "writer s w = W_idle \<Longrightarrow> n \<notin> known s \<Longrightarrow>
    rcu_step ids s (s\<lparr>writer := (writer s)(w := W_stored (published s)), published := n, known := insert n (known s)\<rparr>)"
| advance: "writer s w = W_stored x \<Longrightarrow> g_global_epoch s + 1 < RCU_EPOCH_IDLE \<Longrightarrow> g_global_epoch s < g_global_epoch s + 1 \<Longrightarrow>
    rcu_step ids s (s\<lparr>writer := (writer s)(w := W_retired x (g_global_epoch s) 0), g_global_epoch := g_global_epoch s + 1\<rparr>)"
| scan: "writer s w = W_retired x e k \<Longrightarrow> k < length ids \<Longrightarrow>
    \<not> epoch_blocks (ids ! k) (observed_epoch s (ids ! k)) e None \<Longrightarrow>
    rcu_step ids s (s\<lparr>writer := (writer s)(w := W_retired x e (k + 1))\<rparr>)"
| rescan: "writer s w = W_retired x e k \<Longrightarrow> k < length ids \<Longrightarrow>
    epoch_blocks (ids ! k) (observed_epoch s (ids ! k)) e None \<Longrightarrow>
    rcu_step ids s (s\<lparr>writer := (writer s)(w := W_retired x e 0)\<rparr>)"
| free_old: "writer s w = W_retired x e (length ids) \<Longrightarrow>
    rcu_step ids s (s\<lparr>writer := (writer s)(w := W_idle), freed := insert x (freed s)\<rparr>)"

definition rcu_start :: "rcu_sys \<Rightarrow> bool" where
  "rcu_start s \<longleftrightarrow> s = \<lparr>g_global_epoch = 0, observed_epoch = (\<lambda>_. RCU_EPOCH_IDLE), reader = (\<lambda>_. R_out),
     published = 0, writer = (\<lambda>_. W_idle), freed = {}, known = {0}\<rparr>"

section \<open>The invariant\<close>

fun replaced :: "writer_pc \<Rightarrow> nat option" where
  "replaced W_idle = None"
| "replaced (W_stored x) = Some x"
| "replaced (W_retired x e k) = Some x"

definition reader_ok :: "slot_id list \<Rightarrow> rcu_sys \<Rightarrow> slot_id \<Rightarrow> bool" where
  "reader_ok ids s r =
    (case reader s r of
       R_out \<Rightarrow> observed_epoch s r = RCU_EPOCH_IDLE
     | R_epoch e \<Rightarrow> r \<in> set ids \<and> observed_epoch s r = RCU_EPOCH_IDLE \<and> e \<le> g_global_epoch s
     | R_in X \<Rightarrow> r \<in> set ids \<and> observed_epoch s r \<le> g_global_epoch s \<and> X \<subseteq> known s \<and> X \<inter> freed s = {})"

definition old_objects :: "rcu_sys \<Rightarrow> nat \<Rightarrow> nat option" where
  "old_objects s w = replaced (writer s w)"

text \<open>Each replaced object is known, not published, not freed, and replaced by one writer.\<close>

definition writers_ok :: "(nat \<Rightarrow> nat option) \<Rightarrow> nat set \<Rightarrow> nat \<Rightarrow> nat set \<Rightarrow> bool" where
  "writers_ok old K p F \<longleftrightarrow>
    (\<forall>w x. old w = Some x \<longrightarrow> x \<in> K \<and> x \<noteq> p \<and> x \<notin> F) \<and>
    (\<forall>w w' x. old w = Some x \<longrightarrow> old w' = Some x \<longrightarrow> w = w')"

lemma writers_okD:
  assumes "writers_ok old K p F" "old w = Some x"
  shows "x \<in> K" "x \<noteq> p" "x \<notin> F"
  using assms by (simp_all add: writers_ok_def)

lemma writers_ok_publish:
  assumes "writers_ok old K p F" "p \<in> K" "p \<notin> F" "n \<notin> K" "F \<subseteq> K"
  shows "writers_ok (old(w := Some p)) (insert n K) n F"
  unfolding writers_ok_def
proof (intro conjI allI impI)
  fix v x assume v: "(old(w := Some p)) v = Some x"
  have "x \<in> K \<and> x \<notin> F"
  proof (cases "v = w")
    case True
    then show ?thesis using v assms(2,3) by simp
  next
    case False
    then show ?thesis using v writers_okD [OF assms(1), of v x] by simp
  qed
  then show "x \<in> insert n K" "x \<noteq> n" "x \<notin> F" using assms(4) by auto
next
  fix v v' x assume v: "(old(w := Some p)) v = Some x" "(old(w := Some p)) v' = Some x"
  have "old u \<noteq> Some p" for u using writers_okD(2) [OF assms(1), of u p] by auto
  then show "v = v'" using v assms(1) unfolding writers_ok_def by (metis fun_upd_apply option.inject)
qed

lemma writers_ok_free:
  assumes "writers_ok old K p F" "old w = Some x"
  shows "writers_ok (old(w := None)) K p (insert x F)"
  using assms unfolding writers_ok_def by (metis fun_upd_apply insert_iff option.distinct(1))

text \<open>
  A reader that still holds a retired object entered no later than its retire epoch, and the scan
  for that object has not passed the reader.
\<close>

definition scan_ok :: "slot_id list \<Rightarrow> rcu_sys \<Rightarrow> nat \<Rightarrow> slot_id \<Rightarrow> bool" where
  "scan_ok ids s w r =
    (case (writer s w, reader s r) of
       (W_retired x e k, R_in X) \<Rightarrow> x \<in> X \<longrightarrow> observed_epoch s r \<le> e \<and> r \<notin> set (take k ids)
     | _ \<Rightarrow> True)"

definition rcu_inv :: "slot_id list \<Rightarrow> rcu_sys \<Rightarrow> bool" where
  "rcu_inv ids s \<longleftrightarrow>
    g_global_epoch s < RCU_EPOCH_IDLE \<and> published s \<in> known s \<and> published s \<notin> freed s \<and> freed s \<subseteq> known s \<and>
    (\<forall>r. reader_ok ids s r) \<and> writers_ok (old_objects s) (known s) (published s) (freed s) \<and> (\<forall>w r. scan_ok ids s w r)"

lemma rcu_inv_start: "rcu_start s \<Longrightarrow> rcu_inv ids s"
  by (simp add: rcu_start_def rcu_inv_def reader_ok_def writers_ok_def old_objects_def scan_ok_def RCU_EPOCH_IDLE_def)

lemma rcu_invD:
  assumes "rcu_inv ids s"
  shows "g_global_epoch s < RCU_EPOCH_IDLE" "published s \<in> known s" "published s \<notin> freed s" "freed s \<subseteq> known s"
    "reader_ok ids s r" "writers_ok (old_objects s) (known s) (published s) (freed s)" "scan_ok ids s w r"
  using assms by (simp_all add: rcu_inv_def)

lemma blocks_iff:
  assumes "rcu_inv ids s" "reader s r = R_in X"
  shows "epoch_blocks r (observed_epoch s r) e None \<longleftrightarrow> observed_epoch s r \<le> e"
  using rcu_invD(1) [OF assms(1)] rcu_invD(5) [OF assms(1), of r] assms(2) by (auto simp: epoch_blocks_def reader_ok_def)

text \<open>Steps of a reader \<open>r\<close>: the writers are the same.\<close>

lemma rcu_inv_reader:
  assumes inv: "rcu_inv ids s"
    and s': "s' = s\<lparr>reader := (reader s)(r := pc), observed_epoch := (observed_epoch s)(r := ob)\<rparr>"
    and ok: "reader_ok ids s' r" and sc: "\<And>w. scan_ok ids s' w r"
  shows "rcu_inv ids s'"
proof -
  have "reader_ok ids s' q" for q
    using rcu_invD(5) [OF inv, of q] ok s' by (cases "q = r") (simp_all add: reader_ok_def split: reader_pc.splits)
  moreover have "old_objects s' = old_objects s" using s' by (simp add: old_objects_def fun_eq_iff)
  moreover have "scan_ok ids s' w q" for w q
    using rcu_invD(7) [OF inv, of w q] sc [of w] s' by (cases "q = r") (simp_all add: scan_ok_def split: reader_pc.splits writer_pc.splits)
  ultimately show ?thesis using rcu_invD(1-4,6) [OF inv] s' by (simp add: rcu_inv_def)
qed

text \<open>Steps of a writer \<open>w\<close> that leave pointers and epochs alone.\<close>

lemma rcu_inv_writer:
  assumes inv: "rcu_inv ids s" and w: "writer s w = W_retired x e k"
    and sc: "\<And>r. scan_ok ids (s\<lparr>writer := (writer s)(w := W_retired x e k')\<rparr>) w r"
  shows "rcu_inv ids (s\<lparr>writer := (writer s)(w := W_retired x e k')\<rparr>)" (is "rcu_inv ids ?s")
proof -
  have "reader_ok ids ?s q" for q
    using rcu_invD(5) [OF inv, of q] by (simp add: reader_ok_def split: reader_pc.splits)
  moreover have "old_objects ?s = old_objects s" using w by (simp add: old_objects_def fun_eq_iff)
  moreover have "scan_ok ids ?s v q" for v q
    using rcu_invD(7) [OF inv, of v q] sc [of q] by (cases "v = w") (simp_all add: scan_ok_def split: reader_pc.splits writer_pc.splits)
  ultimately show ?thesis using rcu_invD(1-4,6) [OF inv] by (simp add: rcu_inv_def)
qed

lemma rcu_inv_step:
  assumes inv: "rcu_inv ids s" and st: "rcu_step ids s s'"
  shows "rcu_inv ids s'"
  using st
proof (cases rule: rcu_step.cases)
  case (enter_load r)
  have "s' = s\<lparr>reader := (reader s)(r := R_epoch (g_global_epoch s)), observed_epoch := (observed_epoch s)(r := observed_epoch s r)\<rparr>"
    using enter_load(1) by simp
  then show ?thesis
    by (rule rcu_inv_reader [OF inv]) (use enter_load rcu_invD(5) [OF inv, of r] in \<open>simp_all add: reader_ok_def scan_ok_def split: writer_pc.splits\<close>)
next
  case (enter_store r e)
  show ?thesis
    by (rule rcu_inv_reader [OF inv enter_store(1)])
      (use enter_store rcu_invD(5) [OF inv, of r] in \<open>simp_all add: reader_ok_def scan_ok_def split: writer_pc.splits\<close>)
next
  case (load_ptr r X)
  have s': "s' = s\<lparr>reader := (reader s)(r := R_in (insert (published s) X)), observed_epoch := (observed_epoch s)(r := observed_epoch s r)\<rparr>"
    using load_ptr(1) by simp
  then show ?thesis
  proof (rule rcu_inv_reader [OF inv])
    show "reader_ok ids s' r" using load_ptr rcu_invD(2,3) [OF inv] rcu_invD(5) [OF inv, of r] by (simp add: reader_ok_def)
    show "scan_ok ids s' w r" for w
      using load_ptr writers_okD(2) [OF rcu_invD(6) [OF inv], of w] rcu_invD(7) [OF inv, of w r]
      by (auto simp: scan_ok_def old_objects_def split: writer_pc.splits)
  qed
next
  case (exit_store r X)
  show ?thesis
    by (rule rcu_inv_reader [OF inv exit_store(1)]) (simp_all add: exit_store(1) reader_ok_def scan_ok_def split: writer_pc.splits)
next
  case (publish w n)
  have "reader_ok ids s' q" for q
    using rcu_invD(5) [OF inv, of q] publish(1) by (auto simp: reader_ok_def split: reader_pc.splits)
  moreover have "old_objects s' = (old_objects s)(w := Some (published s))"
    using publish(1) by (simp add: old_objects_def fun_eq_iff)
  moreover have "writers_ok ((old_objects s)(w := Some (published s))) (insert n (known s)) n (freed s)"
    using rcu_invD(2-4,6) [OF inv] publish(3) by (intro writers_ok_publish)
  moreover have "scan_ok ids s' v q" for v q
    using rcu_invD(7) [OF inv, of v q] publish(1,2) by (cases "v = w") (simp_all add: scan_ok_def split: reader_pc.splits writer_pc.splits)
  ultimately show ?thesis using rcu_invD(1-4) [OF inv] publish by (auto simp: rcu_inv_def)
next
  case (advance w x)
  have le: "e \<le> g_global_epoch s \<Longrightarrow> e \<le> g_global_epoch s + 1" for e using advance(4) by simp
  have "reader_ok ids s' q" for q
    using rcu_invD(5) [OF inv, of q] advance(1) le by (auto simp: reader_ok_def split: reader_pc.splits)
  moreover have "old_objects s' = old_objects s" using advance(1,2) by (simp add: old_objects_def fun_eq_iff)
  moreover have "scan_ok ids s' v q" for v q
    using rcu_invD(5) [OF inv, of q] rcu_invD(7) [OF inv, of v q] advance(1) by (cases "v = w") (auto simp: scan_ok_def reader_ok_def split: reader_pc.splits writer_pc.splits)
  ultimately show ?thesis using rcu_invD(2-4,6) [OF inv] advance(1,3) by (simp add: rcu_inv_def)
next
  case (scan w x e k)
  show ?thesis unfolding scan(1)
  proof (rule rcu_inv_writer [OF inv scan(2)])
    fix r
    have h: "observed_epoch s r \<le> e \<and> r \<notin> set (take k ids) \<and> r \<noteq> ids ! k" if "reader s r = R_in X" "x \<in> X" for X
      using rcu_invD(7) [OF inv, of w r] that scan(2,4) blocks_iff [OF inv that(1), of e] by (auto simp: scan_ok_def)
    show "scan_ok ids (s\<lparr>writer := (writer s)(w := W_retired x e (k + 1))\<rparr>) w r"
    proof (cases "reader s r")
      case (R_in X)
      have "set (take (Suc k) ids) = insert (ids ! k) (set (take k ids))"
        unfolding take_Suc_conv_app_nth [OF scan(3)] by simp
      then show ?thesis using h [OF R_in] R_in by (simp add: scan_ok_def)
    qed (simp_all add: scan_ok_def)
  qed
next
  case (rescan w x e k)
  show ?thesis unfolding rescan(1)
  proof (rule rcu_inv_writer [OF inv rescan(2)])
    fix r
    show "scan_ok ids (s\<lparr>writer := (writer s)(w := W_retired x e 0)\<rparr>) w r"
      using rcu_invD(7) [OF inv, of w r] rescan(2) by (auto simp: scan_ok_def split: reader_pc.splits)
  qed
next
  case (free_old w x e)
  have o: "old_objects s w = Some x" using free_old(2) by (simp add: old_objects_def)
  note wx = writers_okD [OF rcu_invD(6) [OF inv] o]
  have "reader_ok ids s' q" for q
    using rcu_invD(5) [OF inv, of q] rcu_invD(7) [OF inv, of w q] free_old
    by (auto simp: reader_ok_def scan_ok_def split: reader_pc.splits)
  moreover have "old_objects s' = (old_objects s)(w := None)"
    using free_old(1) by (simp add: old_objects_def fun_eq_iff)
  moreover have "writers_ok ((old_objects s)(w := None)) (known s) (published s) (insert x (freed s))"
    by (rule writers_ok_free [OF rcu_invD(6) [OF inv] o])
  moreover have "scan_ok ids s' v q" for v q
    using rcu_invD(7) [OF inv, of v q] free_old(1) by (cases "v = w") (simp_all add: scan_ok_def split: reader_pc.splits writer_pc.splits)
  ultimately show ?thesis using rcu_invD(1-4) [OF inv] free_old(1) wx(1,2) by (simp add: rcu_inv_def)
qed

interpretation rcu_sys: invariant_system rcu_start "rcu_step ids" "rcu_inv ids" for ids
  by unfold_locales (auto intro: rcu_inv_start rcu_inv_step)

section \<open>The scan and the wait\<close>

text \<open>All observed epochs, in the order they are scanned.\<close>

definition all_slots :: "rcu_slots \<Rightarrow> (slot_id \<times> u64) list" where
  "all_slots s = map (\<lambda>i. (Worker i, s_workers s ! i)) [0..<length (s_workers s)] @
     [(Resp_logger, s_resp s), (Query_logger, s_query s)] @
     map (\<lambda>i. (Async_io i, take (s_async_count s) (s_async s) ! i)) [0..<length (take (s_async_count s) (s_async s))] @
     map (\<lambda>i. (Aux i, s_aux s ! i)) [0..<length (s_aux s)]"

lemma readers_safe_all:
  "readers_safe s e skip \<longleftrightarrow> (\<forall>(i, obs) \<in> set (all_slots s). \<not> epoch_blocks i obs e skip)"
  by (auto simp: readers_safe_def all_slots_def any_blocks_def list_ex_iff)

text \<open>The wait returns true only after a scan that found all readers safe, and false only after the time-out.\<close>

lemma wait_loop_true:
  "wait_loop e timeout skip n sl rounds = Some True \<Longrightarrow> \<exists>s t. (s, t) \<in> set rounds \<and> readers_safe s e skip"
proof (induction rounds arbitrary: n sl)
  case (Cons x rounds)
  then show ?case by (cases x) (auto simp: Let_def split: if_splits prod.splits, blast+)
qed simp

lemma wait_loop_false:
  "wait_loop e timeout skip n sl rounds = Some False \<Longrightarrow> \<exists>s t. (s, t) \<in> set rounds \<and> 0 < timeout \<and> timeout \<le> t"
proof (induction rounds arbitrary: n sl)
  case (Cons x rounds)
  then show ?case by (cases x) (auto simp: Let_def split: if_splits prod.splits, blast+)
qed simp

section \<open>Auxiliary slots\<close>

text \<open>In a section the thread has a slot that is marked in use and shows its epoch; outside its slot, if any, is idle and pinned.\<close>

definition aux_ok :: "aux_slots \<Rightarrow> aux_thread \<Rightarrow> bool" where
  "aux_ok a t \<longleftrightarrow> length (aux_observed a) = length (aux_in_use a) \<and>
    (case t_aux_slot t of
       Some i \<Rightarrow> i < length (aux_in_use a) \<and> aux_in_use a ! i \<and>
         (if 0 < t_aux_depth t then aux_observed a ! i \<noteq> RCU_EPOCH_IDLE else t_aux_pinned t \<and> aux_observed a ! i = RCU_EPOCH_IDLE)
     | None \<Rightarrow> t_aux_depth t = 0 \<and> \<not> t_aux_pinned t)"

lemma aux_ok_lock:
  assumes "aux_ok a t" "epoch \<noteq> RCU_EPOCH_IDLE" "rcu_aux_read_lock epoch a t = Some (a', t')"
  shows "aux_ok a' t' \<and> t_aux_depth t' = t_aux_depth t + 1"
  using assms
  by (auto simp: aux_ok_def rcu_aux_read_lock_def aux_slot_get_def aux_slot_claim_def find_Some_iff split: option.splits if_splits)

lemma aux_ok_unlock:
  assumes "aux_ok a t" "rcu_aux_read_unlock a t = (a', t')"
  shows "aux_ok a' t' \<and> t_aux_depth t' = t_aux_depth t - 1"
  using assms
  by (auto simp: aux_ok_def rcu_aux_read_unlock_def aux_slot_release_def Let_def split: option.splits if_splits)

lemma aux_ok_unpin:
  assumes "aux_ok a t" "rcu_aux_thread_unpin a t = (a', t')"
  shows "aux_ok a' t' \<and> \<not> t_aux_pinned t'"
  using assms
  by (auto simp: aux_ok_def rcu_aux_thread_unpin_def aux_slot_release_def Let_def split: option.splits if_splits)

section \<open>Properties\<close>

text \<open>
  C2.  No use after free.  However readers and writers interleave, an object that a writer
  freed after its scan found every reader idle or past the retire epoch is held by no reader in
  its section, and it is not the published object; the scan looks at one reader at a time, and
  readers may enter and leave while it runs.
\<close>

theorem rcu_no_use_after_free:
  assumes "reach rcu_start (rcu_step ids) s" "reader s r = R_in X"
  shows "X \<inter> freed s = {} \<and> published s \<notin> freed s"
proof -
  have inv: "rcu_inv ids s" by (rule rcu_sys.reach_inv [OF assms(1)])
  show ?thesis using rcu_invD(3) [OF inv] rcu_invD(5) [OF inv, of r] assms(2) by (simp add: reader_ok_def)
qed

text \<open>A worker holds object 0 while a writer has published object 1.\<close>

definition rcu_demo :: rcu_sys where
  "rcu_demo = \<lparr>g_global_epoch = 0, observed_epoch = (\<lambda>_. RCU_EPOCH_IDLE)(Worker 0 := 0), reader = (\<lambda>_. R_out)(Worker 0 := R_in {0}),
     published = 1, writer = (\<lambda>_. W_idle)(0 := W_stored 0), freed = {}, known = {1, 0}\<rparr>"

lemma rcu_demo_reach: "reach rcu_start (rcu_step [Worker 0]) rcu_demo"
proof -
  let ?s = "\<lambda>ob rd p wr kn. \<lparr>g_global_epoch = 0, observed_epoch = ob, reader = rd, published = p, writer = wr, freed = {}, known = kn\<rparr> :: rcu_sys"
  let ?i = "\<lambda>_. RCU_EPOCH_IDLE" and ?o = "\<lambda>_. R_out" and ?w = "\<lambda>_. W_idle" and ?r = "Worker 0"
  have s0: "reach rcu_start (rcu_step [?r]) (?s ?i ?o 0 ?w {0})" by (rule reach_init) (simp add: rcu_start_def)
  have "rcu_step [?r] (?s ?i ?o 0 ?w {0}) (?s ?i (?o(?r := R_epoch 0)) 0 ?w {0})"
    using enter_load [of "?s ?i ?o 0 ?w {0}" ?r "[?r]"] by simp
  note s1 = reach_step [OF s0 this]
  have "rcu_step [?r] (?s ?i (?o(?r := R_epoch 0)) 0 ?w {0}) (?s (?i(?r := 0)) (?o(?r := R_in {})) 0 ?w {0})"
    using enter_store [of "?s ?i (?o(?r := R_epoch 0)) 0 ?w {0}" ?r 0 "[?r]"] by simp
  note s2 = reach_step [OF s1 this]
  have "rcu_step [?r] (?s (?i(?r := 0)) (?o(?r := R_in {})) 0 ?w {0}) (?s (?i(?r := 0)) (?o(?r := R_in {0})) 0 ?w {0})"
    using load_ptr [of "?s (?i(?r := 0)) (?o(?r := R_in {})) 0 ?w {0}" ?r "{}" "[?r]"] by simp
  note s3 = reach_step [OF s2 this]
  have "rcu_step [?r] (?s (?i(?r := 0)) (?o(?r := R_in {0})) 0 ?w {0}) rcu_demo"
    using publish [of "?s (?i(?r := 0)) (?o(?r := R_in {0})) 0 ?w {0}" 0 1 "[?r]"] by (simp add: rcu_demo_def)
  then show ?thesis by (rule reach_step [OF s3])
qed

theorem rcu_no_use_after_free_witness: "{0} \<inter> freed rcu_demo = {} \<and> published rcu_demo \<notin> freed rcu_demo"
  by (rule rcu_no_use_after_free [OF rcu_demo_reach, of "Worker 0"]) (simp add: rcu_demo_def)

end
