(* ===== verification/Spec2Isabelle.thy ===== *)
theory Spec2Isabelle
  imports Siphash Match_Cidr Zone_Token Edns Utils Canonical Logev Rrl Park_Service Rcu
begin

text \<open>
  A verification development of KariDNS, an authoritative DNS server written in C.

  \<^verbatim>\<open>Siphash\<close> models \<^verbatim>\<open>src/dns_siphash.h\<close>, \<^verbatim>\<open>Cidr\<close> models
  \<^verbatim>\<open>src/dns_cidr.c\<close>, \<^verbatim>\<open>Names\<close> the text form of domain names.
\<close>

end
